(* ===== verification/Prelude.thy ===== *)
theory Prelude
  imports Main "HOL-Library.AList" "HOL-Library.Word"
begin

text \<open>
  Shared vocabulary of the development: the types that stand for Go's basic types, the
  wrap-around of Go's 64-bit integers, Go maps as association lists, and the generic lemmas
  on lists and association lists that the component theories use.

  \<^item> A Go \<open>string\<close> or \<open>[]byte\<close> is a \<^typ>\<open>string\<close>: a list of 8-bit characters.
  \<^item> A Go \<open>map[string]V\<close> whose size or content is enumerated is an association list with
    distinct keys, read with \<^const>\<open>map_of\<close> and written with \<^const>\<open>AList.update\<close> and
    \<^const>\<open>AList.delete\<close>; Go's iteration order is unspecified and no operation that is
    modelled here depends on it.
  \<^item> A Go \<open>int64\<close> is an \<^typ>\<open>int\<close>; where a computation can leave the 64-bit range the
    wrap-around is written out with \<open>i64\<close>.
\<close>

type_synonym bytes = string
type_synonym 'v gomap = "(string \<times> 'v) list"

named_theorems shard_inv "invariant preservation lemmas of one shard"
named_theorems tier_inv "invariant preservation lemmas of a whole tier"

subsection \<open>Go's signed 64-bit integers\<close>

definition i64 :: "int \<Rightarrow> int" where
  "i64 x = (x + 2 ^ 63) mod 2 ^ 64 - 2 ^ 63"

definition in_i64 :: "int \<Rightarrow> bool" where
  "in_i64 x \<longleftrightarrow> - (2 ^ 63) \<le> x \<and> x < 2 ^ 63"

lemma i64_id: "in_i64 x \<Longrightarrow> i64 x = x"
  by (simp add: i64_def in_i64_def)

lemma i64_range: "in_i64 (i64 x)"
proof -
  have "0 \<le> (x + 2 ^ 63) mod 2 ^ 64" and "(x + 2 ^ 63) mod 2 ^ 64 < (2 :: int) ^ 64"
    by simp_all
  then show ?thesis
    unfolding in_i64_def i64_def by simp
qed

subsection \<open>Association lists as Go maps\<close>

lemma map_of_update [simp]: "map_of (AList.update k v xs) = (map_of xs)(k \<mapsto> v)"
  by (simp add: update_conv')

lemma map_of_delete [simp]: "map_of (AList.delete k xs) = (map_of xs)(k := None)"
  by (simp add: delete_conv')

lemma distinct_fst_update [simp]:
  "distinct (map fst xs) \<Longrightarrow> distinct (map fst (AList.update k v xs))"
  by (rule distinct_update)

lemma distinct_fst_delete [simp]:
  "distinct (map fst xs) \<Longrightarrow> distinct (map fst (AList.delete k xs))"
  by (rule distinct_delete)

lemma set_delete: "set (AList.delete k xs) = {p \<in> set xs. fst p \<noteq> k}"
  by (induction xs) auto

lemma set_update_distinct:
  assumes "distinct (map fst xs)"
  shows "set (AList.update k v xs) = insert (k, v) {p \<in> set xs. fst p \<noteq> k}"
proof (rule set_eqI)
  fix p :: "'a \<times> 'b"
  obtain a b where p: "p = (a, b)" by (cases p)
  have "p \<in> set (AList.update k v xs) \<longleftrightarrow> map_of (AList.update k v xs) a = Some b"
    unfolding p using distinct_update [OF assms] by (metis map_of_is_SomeI map_of_SomeD)
  also have "\<dots> \<longleftrightarrow> (if a = k then b = v else map_of xs a = Some b)"
    by auto
  also have "\<dots> \<longleftrightarrow> p \<in> insert (k, v) {p \<in> set xs. fst p \<noteq> k}"
    using assms by (simp add: p)
  finally show "p \<in> set (AList.update k v xs) \<longleftrightarrow> p \<in> insert (k, v) {p \<in> set xs. fst p \<noteq> k}" .
qed

lemma map_of_Some_in_set: "map_of xs k = Some v \<Longrightarrow> (k, v) \<in> set xs"
  by (rule map_of_SomeD)

lemma in_set_map_of: "distinct (map fst xs) \<Longrightarrow> (k, v) \<in> set xs \<Longrightarrow> map_of xs k = Some v"
  by simp

text \<open>The sum of a measure over the values of a map.\<close>

definition msum :: "('v \<Rightarrow> int) \<Rightarrow> ('k \<times> 'v) list \<Rightarrow> int" where
  "msum f xs = sum_list (map (\<lambda>p. f (snd p)) xs)"

lemma msum_Nil [simp]: "msum f [] = 0"
  by (simp add: msum_def)

lemma msum_nonneg: "(\<And>v. 0 \<le> f v) \<Longrightarrow> 0 \<le> msum f xs"
  unfolding msum_def by (rule sum_list_nonneg) auto

lemma msum_delete:
  assumes "distinct (map fst xs)" and "map_of xs k = Some v"
  shows "msum f (AList.delete k xs) = msum f xs - f v"
  using assms
proof (induction xs)
  case (Cons p xs)
  show ?case
  proof (cases "fst p = k")
    case True
    with Cons.prems have "k \<notin> fst ` set xs" by auto
    then have "AList.delete k xs = xs" by (rule delete_id)
    with True Cons.prems show ?thesis by (cases p) (auto simp: msum_def)
  next
    case False
    with Cons show ?thesis by (cases p) (auto simp: msum_def)
  qed
qed simp

lemma msum_update:
  "msum f (AList.update k v xs) = msum f xs - (case map_of xs k of None \<Rightarrow> 0 | Some w \<Rightarrow> f w) + f v"
  by (induction xs) (auto simp: msum_def split: option.splits)

lemma msum_le_member:
  assumes "\<And>v. 0 \<le> f v" and "map_of xs k = Some v"
  shows "f v \<le> msum f xs"
  using assms(2)
proof (induction xs)
  case (Cons p xs)
  have "0 \<le> msum f xs" and "0 \<le> f (snd p)" using assms(1) msum_nonneg by blast+
  with Cons show ?case by (auto simp: msum_def split: if_splits)
qed simp

lemma filter_update_length:
  assumes "map_of xs k = Some v" and "P v" and "\<not> P w"
  shows "length (filter (\<lambda>p. P (snd p)) (AList.update k w xs)) < length (filter (\<lambda>p. P (snd p)) xs)"
  using assms by (induction xs) (auto split: if_splits)

lemma filter_delete_length:
  "length (filter P (AList.delete k xs)) \<le> length (filter P xs)"
  by (induction xs) auto

lemma sum_list_mono_nth:
  fixes xs ys :: "int list"
  assumes "length xs = length ys" and "\<And>i. i < length xs \<Longrightarrow> xs ! i \<le> ys ! i"
  shows "sum_list xs \<le> sum_list ys"
  using assms
proof (induction xs ys rule: list_induct2)
  case (Cons x xs y ys)
  have "x \<le> y" using Cons.prems[of 0] by simp
  moreover have "sum_list xs \<le> sum_list ys"
  proof (rule Cons.IH)
    fix i
    assume "i < length xs"
    then show "xs ! i \<le> ys ! i" using Cons.prems[of "Suc i"] by simp
  qed
  ultimately show ?case by simp
qed simp

lemma map_filter_cong: "(\<And>x. x \<in> set xs \<Longrightarrow> f x = g x) \<Longrightarrow> List.map_filter f xs = List.map_filter g xs"
  by (induction xs) (simp_all split: option.split)

lemma map_filter_total: "(\<And>x. x \<in> set xs \<Longrightarrow> f x = Some (g x)) \<Longrightarrow> List.map_filter f xs = map g xs"
  by (induction xs) simp_all

lemma find_SomeD: "find P xs = Some x \<Longrightarrow> x \<in> set xs \<and> P x"
  by (induction xs) (auto split: if_splits)

lemma rtranclp_3: "r a b \<Longrightarrow> r b c \<Longrightarrow> r c d \<Longrightarrow> r\<^sup>*\<^sup>* a d"
  by (rule converse_rtranclp_into_rtranclp, assumption, rule converse_rtranclp_into_rtranclp, assumption) simp

lemma set_remove1_key:
  assumes "distinct (map f xs)" and "x \<in> set xs"
  shows "set (remove1 x xs) = {y \<in> set xs. f y \<noteq> f x}"
proof -
  have "distinct xs" and inj: "inj_on f (set xs)" using assms(1) by (simp_all add: distinct_map)
  then have "set (remove1 x xs) = set xs - {x}" by simp
  also have "\<dots> = {y \<in> set xs. f y \<noteq> f x}" using inj_onD [OF inj] assms(2) by blast
  finally show ?thesis .
qed

lemma distinct_map_remove1: "distinct (map f xs) \<Longrightarrow> distinct (map f (remove1 x xs))"
  by (induction xs) (auto dest: set_remove1_subset [THEN subsetD])

end
