(* ===== verification/CacheTypes.thy ===== *)
theory CacheTypes
  imports Prelude
begin

text \<open>
  The cached object's metadata (\<open>internal/cache/meta.go\<close>) and the contract of a cache tier,
  the Go interfaces \<open>Tier\<close> and \<open>TierWriter\<close> of \<open>internal/cache/cache.go\<close>.

  The contract is the locale \<open>cache_tier\<close>. It speaks of a tier through its \<open>view\<close>, the partial
  map from keys to the object a reader of that key would get. A writer is committed with \<open>commit\<close>,
  which says whether the object was actually installed (\<open>Stored\<close>). The RAM tier and the disk tier
  interpret it; the two-tier store is proved against it.
\<close>

record ObjectMeta =
  Key :: string
  Size :: int
  ContentType :: string
  ETag :: string
  LastModified :: string
  ContentEncoding :: string
  Vary :: string
  Status :: int
  ForcedPrivate :: bool
  Tier :: string

definition EffectiveStatus :: "ObjectMeta \<Rightarrow> int" where
  "EffectiveStatus m = (if Status m = 0 then 200 else Status m)"

text \<open>Metadata with nothing but a key, for concrete examples.\<close>

definition sample_meta :: "string \<Rightarrow> ObjectMeta" where
  "sample_meta k =
     \<lparr>Key = k, Size = 0, ContentType = [], ETag = [], LastModified = [], ContentEncoding = [], Vary = [],
      Status = 0, ForcedPrivate = False, Tier = []\<rparr>"

type_synonym obj = "ObjectMeta \<times> bytes"

locale cache_tier =
  fixes invar :: "'t \<Rightarrow> bool"
    and view :: "'t \<Rightarrow> string \<Rightarrow> obj option"
    and get :: "string \<Rightarrow> 't \<Rightarrow> obj option \<times> 't"
    and del :: "string \<Rightarrow> 't \<Rightarrow> 't"
    and reset :: "'t \<Rightarrow> 't"
    and commit :: "'w \<Rightarrow> 't \<Rightarrow> bool \<times> 't"
    and wok :: "'w \<Rightarrow> 't \<Rightarrow> bool"
    and wobj :: "'w \<Rightarrow> 't \<Rightarrow> obj"
    and used :: "'t \<Rightarrow> int"
    and budget :: "'t \<Rightarrow> int"
  assumes get_result: "invar t \<Longrightarrow> fst (get k t) = view t k"
    and get_view: "invar t \<Longrightarrow> view (snd (get k t)) = view t"
    and get_invar: "invar t \<Longrightarrow> invar (snd (get k t))"
    and del_view: "invar t \<Longrightarrow> view (del k t) = (view t)(k := None)"
    and del_invar: "invar t \<Longrightarrow> invar (del k t)"
    and reset_view: "invar t \<Longrightarrow> view (reset t) = Map.empty"
    and reset_invar: "invar t \<Longrightarrow> invar (reset t)"
    and commit_invar: "invar t \<Longrightarrow> wok w t \<Longrightarrow> invar (snd (commit w t))"
    and commit_stored: "invar t \<Longrightarrow> wok w t \<Longrightarrow> fst (commit w t) \<Longrightarrow>
      view (snd (commit w t)) (Key (fst (wobj w t))) = Some (wobj w t)"
    and commit_others: "invar t \<Longrightarrow> wok w t \<Longrightarrow> k \<noteq> Key (fst (wobj w t)) \<or> \<not> fst (commit w t) \<Longrightarrow>
      view (snd (commit w t)) k = None \<or> view (snd (commit w t)) k = view t k"
    and used_budget: "invar t \<Longrightarrow> 0 \<le> used t \<and> used t \<le> max 0 (budget t)"
begin

text \<open>What a client gets from the contract: it reads its own committed write, a deleted or reset
  key is a miss, and a commit never makes another key appear.\<close>

lemma read_own_write:
  assumes "invar t" and "wok w t" and "fst (commit w t)"
  shows "fst (get (Key (fst (wobj w t))) (snd (commit w t))) = Some (wobj w t)"
  using assms by (simp add: get_result commit_invar commit_stored)

lemma get_after_del: "invar t \<Longrightarrow> fst (get k (del k t)) = None"
  by (simp add: get_result del_invar del_view)

lemma get_after_del_other: "invar t \<Longrightarrow> k' \<noteq> k \<Longrightarrow> fst (get k' (del k t)) = fst (get k' t)"
  by (simp add: get_result del_invar del_view)

lemma get_after_reset: "invar t \<Longrightarrow> fst (get k (reset t)) = None"
  by (simp add: get_result reset_invar reset_view)

lemma get_repeatable: "invar t \<Longrightarrow> fst (get k (snd (get k' t))) = fst (get k t)"
  by (simp add: get_result get_invar get_view)

lemma commit_no_new_keys:
  assumes "invar t" and "wok w t" and "view (snd (commit w t)) k \<noteq> None"
  shows "k = Key (fst (wobj w t)) \<and> fst (commit w t) \<or> view t k \<noteq> None"
  using assms commit_others by metis

end

end
