(* ===== verification/GoList.thy ===== *)
theory GoList
  imports Prelude
begin

text \<open>
  Go's \<open>container/list\<close> as the cache tiers use it: a doubly linked list of elements, each a
  cell with its own identity. An element is a pair of its identity (a number, the \<open>*list.Element\<close>
  pointer) and its value (the key); the first node is the front. \<open>PushFront\<close> allocates a fresh
  cell, \<open>Remove\<close> and \<open>MoveToFront\<close> act on the cell with a given identity and do nothing when it
  is not in the list.

  The predicate \<open>ring_ok\<close> relates such a list to the map of entries whose fields point into it:
  every entry's cell is in the list and holds the entry's key, and the list has no other cell.
  Its lemmas, one for each operation, carry the invariants of both tiers.
\<close>

record golist =
  nodes :: "(nat \<times> string) list"
  nextid :: nat

definition list_New :: golist where
  "list_New = \<lparr>nodes = [], nextid = 0\<rparr>"

definition PushFront :: "string \<Rightarrow> golist \<Rightarrow> nat \<times> golist" where
  "PushFront k l = (nextid l, l\<lparr>nodes := (nextid l, k) # nodes l, nextid := Suc (nextid l)\<rparr>)"

definition list_Remove :: "nat \<Rightarrow> golist \<Rightarrow> golist" where
  "list_Remove i l = l\<lparr>nodes := filter (\<lambda>n. fst n \<noteq> i) (nodes l)\<rparr>"

definition MoveToFront :: "nat \<Rightarrow> golist \<Rightarrow> golist" where
  "MoveToFront i l =
     l\<lparr>nodes := filter (\<lambda>n. fst n = i) (nodes l) @ filter (\<lambda>n. fst n \<noteq> i) (nodes l)\<rparr>"

definition list_Back :: "golist \<Rightarrow> (nat \<times> string) option" where
  "list_Back l = (if nodes l = [] then None else Some (last (nodes l)))"

lemma list_Back_None [simp]: "list_Back l = None \<longleftrightarrow> nodes l = []"
  by (simp add: list_Back_def)

lemma list_Back_in: "list_Back l = Some n \<Longrightarrow> n \<in> set (nodes l)"
  by (auto simp: list_Back_def split: if_splits)

lemma length_Remove_less: "(i, k) \<in> set (nodes l) \<Longrightarrow> length (nodes (list_Remove i l)) < length (nodes l)"
  by (auto simp: list_Remove_def intro!: length_filter_less)

lemma length_MoveToFront [simp]: "length (nodes (MoveToFront i l)) = length (nodes l)"
  using sum_length_filter_compl [of "\<lambda>n. fst n = i" "nodes l"] by (simp add: MoveToFront_def)

lemma set_MoveToFront [simp]: "set (nodes (MoveToFront i l)) = set (nodes l)"
  by (auto simp: MoveToFront_def)

lemma nextid_simps [simp]:
  "nextid (list_Remove i l) = nextid l" "nextid (MoveToFront i l) = nextid l"
  "nextid (snd (PushFront k l)) = Suc (nextid l)"
  by (simp_all add: list_Remove_def MoveToFront_def PushFront_def)

subsection \<open>The ring and the entry map agree\<close>

definition ring_ok :: "('e \<Rightarrow> nat) \<Rightarrow> 'e gomap \<Rightarrow> golist \<Rightarrow> bool" where
  "ring_ok el items l \<longleftrightarrow>
     distinct (map fst items) \<and> distinct (map fst (nodes l)) \<and>
     (\<forall>n \<in> set (nodes l). fst n < nextid l) \<and>
     set (nodes l) = (\<lambda>p. (el (snd p), fst p)) ` set items"

lemma ring_ok_distinct: "ring_ok el items l \<Longrightarrow> distinct (map fst items)"
  by (simp add: ring_ok_def)

lemma ring_ok_New: "ring_ok el [] list_New"
  by (simp add: ring_ok_def list_New_def)

lemma ring_ok_node:
  assumes "ring_ok el items l" and "(i, k) \<in> set (nodes l)"
  obtains e where "map_of items k = Some e" and "el e = i"
proof -
  from assms obtain p where "p \<in> set items" and "el (snd p) = i" and "fst p = k"
    by (auto simp: ring_ok_def)
  moreover from this assms(1) have "map_of items k = Some (snd p)"
    using in_set_map_of [of items "fst p" "snd p"] unfolding ring_ok_def by (metis prod.collapse)
  ultimately show ?thesis using that by blast
qed

lemma ring_ok_Back:
  assumes "ring_ok el items l" and "list_Back l = Some (i, k)"
  obtains e where "map_of items k = Some e" and "el e = i"
  using ring_ok_node [OF assms(1) list_Back_in [OF assms(2)]] by blast

lemma ring_ok_empty_nodes: "ring_ok el items l \<Longrightarrow> nodes l = [] \<Longrightarrow> items = []"
  by (simp add: ring_ok_def)

lemma ring_ok_entry:
  assumes "ring_ok el items l" and "map_of items k = Some e"
  shows "(el e, k) \<in> set (nodes l)"
proof -
  have "(el (snd (k, e)), fst (k, e)) \<in> (\<lambda>p. (el (snd p), fst p)) ` set items"
    using map_of_SomeD [OF assms(2)] by (rule imageI)
  with assms(1) show ?thesis by (simp add: ring_ok_def)
qed

lemma ring_ok_el_inj:
  assumes "ring_ok el items l" and "map_of items k = Some e" and "map_of items k' = Some e'"
    and "el e = el e'"
  shows "k = k'"
proof -
  have "(el e, k) \<in> set (nodes l)" and "(el e, k') \<in> set (nodes l)"
    using ring_ok_entry [OF assms(1,2)] ring_ok_entry [OF assms(1,3)] assms(4) by simp_all
  moreover have "distinct (map fst (nodes l))" using assms(1) by (simp add: ring_ok_def)
  ultimately show ?thesis by (meson eq_key_imp_eq_value)
qed

lemma ring_ok_delete:
  assumes ok: "ring_ok el items l" and k: "map_of items k = Some e"
  shows "ring_ok el (AList.delete k items) (list_Remove (el e) l)"
proof -
  have "set (nodes (list_Remove (el e) l)) = {n \<in> set (nodes l). fst n \<noteq> el e}"
    by (auto simp: list_Remove_def)
  also have "\<dots> = (\<lambda>p. (el (snd p), fst p)) ` {p \<in> set items. fst p \<noteq> k}"
  proof -
    have "el (snd p) \<noteq> el e \<longleftrightarrow> fst p \<noteq> k" if "p \<in> set items" for p
    proof -
      from that ok have "map_of items (fst p) = Some (snd p)"
        by (simp add: ring_ok_def)
      with ring_ok_el_inj [OF ok this k] k show ?thesis by auto
    qed
    with ok show ?thesis by (auto simp: ring_ok_def)
  qed
  also have "\<dots> = (\<lambda>p. (el (snd p), fst p)) ` set (AList.delete k items)"
    by (simp add: set_delete)
  finally have nodes: "set (nodes (list_Remove (el e) l)) = \<dots>" .
  moreover have "set (nodes (list_Remove (el e) l)) \<subseteq> set (nodes l)"
    by (auto simp: list_Remove_def)
  moreover have "distinct (map fst (nodes (list_Remove (el e) l)))"
    using ok by (simp add: ring_ok_def list_Remove_def distinct_map_filter)
  ultimately show ?thesis
    using ok unfolding ring_ok_def by (metis distinct_fst_delete nextid_simps(1) subsetD)
qed

lemma ring_ok_push:
  assumes ok: "ring_ok el items l" and k: "map_of items k = None" and el: "el e = nextid l"
  shows "ring_ok el (AList.update k e items) (snd (PushFront k l))"
proof -
  from k have "{p \<in> set items. fst p \<noteq> k} = set items"
    by (force simp: map_of_eq_None_iff)
  with ok have "set (AList.update k e items) = insert (k, e) (set items)"
    by (simp add: ring_ok_def set_update_distinct)
  moreover have "el e \<notin> fst ` set (nodes l)"
    using ok unfolding el ring_ok_def by (metis (no_types, lifting) imageE order_less_irrefl)
  ultimately show ?thesis
    using ok el by (auto simp: ring_ok_def PushFront_def less_Suc_eq)
qed

lemma ring_ok_move:
  assumes "ring_ok el items l"
  shows "ring_ok el items (MoveToFront i l)"
proof -
  have "distinct (map fst (nodes (MoveToFront i l)))"
    using assms by (auto simp: ring_ok_def MoveToFront_def distinct_map_filter)
  with assms show ?thesis by (simp add: ring_ok_def)
qed

lemma ring_ok_upd:
  assumes ok: "ring_ok el items l" and k: "map_of items k = Some e" and el: "el e' = el e"
  shows "ring_ok el (AList.update k e' items) l"
proof -
  have d: "distinct (map fst items)" using ok by (simp add: ring_ok_def)
  have "set items = insert (k, e) {p \<in> set items. fst p \<noteq> k}"
  proof (rule set_eqI)
    fix p
    show "p \<in> set items \<longleftrightarrow> p \<in> insert (k, e) {p \<in> set items. fst p \<noteq> k}"
      using map_of_SomeD [OF k] eq_key_imp_eq_value [OF d, of k "snd p" e] by (cases p) auto
  qed
  then have "(\<lambda>p. (el (snd p), fst p)) ` set items =
      insert (el e, k) ((\<lambda>p. (el (snd p), fst p)) ` {p \<in> set items. fst p \<noteq> k})"
    by (metis (no_types, lifting) fst_conv image_insert snd_conv)
  then show ?thesis
    using ok el d by (simp add: ring_ok_def set_update_distinct)
qed

lemma ring_ok_same_key:
  assumes "ring_ok el items l" and "(i, k) \<in> set (nodes l)" and "(j, k) \<in> set (nodes l)"
  shows "i = j"
  using ring_ok_node [OF assms(1,2)] ring_ok_node [OF assms(1,3)] by (metis option.inject)

lemma ring_ok_keys_distinct:
  assumes "ring_ok el items l"
  shows "distinct (map snd (nodes l))"
proof -
  have "distinct (nodes l)" using assms by (simp add: ring_ok_def distinct_map)
  moreover have "inj_on snd (set (nodes l))"
    using ring_ok_same_key [OF assms] by (intro inj_onI) (metis prod.collapse)
  ultimately show ?thesis by (simp add: distinct_map)
qed

end
