(* ===== verification/Shard.thy ===== *)
theory Shard
  imports Prelude
begin

unbundle bit_operations_syntax

text \<open>
  The partition of a tier into shards, \<open>internal/cache/shard.go\<close>: how many shards a byte budget
  gets, which shard owns a key (FNV-1a of the key modulo the shard count) and how the budget is
  split. The FNV-1a hash itself is written out in \<open>internal/server/freshness.go\<close>, which shards
  its index the same way.

  The lemmas show that the caps of the shards add up to the budget exactly, that no shard of a
  split tier is smaller than \<open>minShardBytes\<close>, and that every key has one owner among the shards.
\<close>

definition fnv32 :: "string \<Rightarrow> 32 word" where
  "fnv32 key = fold (\<lambda>c h. (h XOR of_char c) * 16777619) key 2166136261"

definition defaultShards :: nat where
  "defaultShards = 64"

definition minShardBytes :: int where
  "minShardBytes = 2 ^ 20"

definition shardCount :: "int \<Rightarrow> nat" where
  "shardCount maxBytes =
     (if maxBytes \<le> 0 then 1
      else
        let n = nat (maxBytes div minShardBytes);
            n = (if n < 1 then 1 else n)
        in if n > defaultShards then defaultShards else n)"

definition shardIndex :: "string \<Rightarrow> nat \<Rightarrow> nat" where
  "shardIndex key n = unat (fnv32 key mod word_of_nat n)"

definition shardCaps :: "int \<Rightarrow> nat \<Rightarrow> int list" where
  "shardCaps maxBytes n =
     (if maxBytes \<le> 0 then replicate n maxBytes
      else
        let base = maxBytes div int n; rem = maxBytes mod int n
        in map (\<lambda>i. if int i < rem then base + 1 else base) [0..<n])"

lemma shardCount_pos [simp]: "0 < shardCount m"
  by (simp add: shardCount_def Let_def defaultShards_def)

lemma shardCount_le: "shardCount m \<le> defaultShards"
  by (auto simp: shardCount_def Let_def defaultShards_def)

lemma length_shardCaps [simp]: "length (shardCaps m n) = n"
  by (simp add: shardCaps_def Let_def)

lemma shardIndex_less:
  assumes "0 < n" and "n < 2 ^ 32"
  shows "shardIndex key n < n"
proof -
  have "unat (word_of_nat n :: 32 word) = n"
    using assms by (simp add: unat_of_nat)
  then have "unat (fnv32 key mod word_of_nat n) = unat (fnv32 key) mod n"
    by (simp add: unat_mod)
  then show ?thesis using assms by (simp add: shardIndex_def)
qed

lemma shardIndex_tier [simp]: "shardIndex key (shardCount m) < shardCount m"
  using shardCount_le [of m] by (intro shardIndex_less) (auto simp: defaultShards_def)

lemma sum_list_if_less:
  fixes b r :: int
  shows "(\<Sum>i\<leftarrow>[0..<n]. if int i < r then b + 1 else b) = int n * b + max 0 (min r (int n))"
  by (induction n) (auto simp: algebra_simps)

lemma sum_shardCaps:
  assumes "0 < n" and "0 < m"
  shows "sum_list (shardCaps m n) = m"
proof -
  have "0 \<le> m mod int n" and "m mod int n < int n"
    using assms by simp_all
  then have "sum_list (shardCaps m n) = int n * (m div int n) + m mod int n"
    using assms by (simp add: shardCaps_def Let_def sum_list_if_less)
  then show ?thesis by simp
qed

lemma nth_shardCaps:
  assumes "i < n" and "0 < m"
  shows "m div int n \<le> shardCaps m n ! i" and "shardCaps m n ! i \<le> m div int n + 1"
  using assms by (simp_all add: shardCaps_def Let_def)

lemma shardCount_cap:
  assumes "1 < shardCount m"
  shows "minShardBytes \<le> m div int (shardCount m)"
proof -
  let ?q = "m div minShardBytes"
  from assms have m: "0 < m" by (auto simp: shardCount_def split: if_splits)
  with assms have "int (shardCount m) \<le> ?q" and "0 < ?q"
    by (auto simp: shardCount_def Let_def defaultShards_def split: if_splits)
  then have "minShardBytes * int (shardCount m) \<le> minShardBytes * ?q"
    by (simp add: minShardBytes_def)
  also have "\<dots> \<le> m"
    by (simp add: minShardBytes_def minus_mod_eq_mult_div [symmetric])
  finally have "minShardBytes * int (shardCount m) div int (shardCount m) \<le> m div int (shardCount m)"
    by (rule zdiv_mono1) simp
  then show ?thesis by simp
qed

lemma sum_shardCaps_max: "sum_list (map (max 0) (shardCaps m (shardCount m))) = max 0 m"
proof (cases "0 < m")
  case True
  let ?caps = "shardCaps m (shardCount m)"
  have "0 \<le> m div int (shardCount m)" using True by (simp add: pos_imp_zdiv_nonneg_iff)
  then have "map (max 0) ?caps = ?caps"
    using True nth_shardCaps(1) [of _ "shardCount m" m]
    by (intro nth_equalityI) (auto simp: max_def intro: order_trans)
  with True show ?thesis by (simp add: sum_shardCaps)
next
  case False
  then show ?thesis by (simp add: shardCaps_def shardCount_def)
qed

text \<open>The shard caps of a tier are an exact partition of its byte budget: as many caps as
  shards, adding up to the budget for every budget (none of it is lost to rounding and none is
  handed out twice), each at least one mebibyte when the tier is split at all.\<close>

theorem shardCaps_partition:
  "length (shardCaps m (shardCount m)) = shardCount m \<and>
   sum_list (shardCaps m (shardCount m)) = m \<and>
   (shardCount m = 1 \<or> list_all (\<lambda>c. minShardBytes \<le> c) (shardCaps m (shardCount m)))"
proof (intro conjI)
  show "sum_list (shardCaps m (shardCount m)) = m"
  proof (cases "0 < m")
    case True
    then show ?thesis by (simp add: sum_shardCaps)
  next
    case False
    then show ?thesis by (simp add: shardCaps_def shardCount_def)
  qed
  show "shardCount m = 1 \<or> list_all (\<lambda>c. minShardBytes \<le> c) (shardCaps m (shardCount m))"
  proof (cases "1 < shardCount m")
    case True
    then have "0 < m" by (auto simp: shardCount_def split: if_splits)
    with shardCount_cap [OF True] nth_shardCaps(1) show ?thesis
      by (simp add: list_all_length) (meson order_trans)
  next
    case False
    then have "shardCount m = 1" using shardCount_pos [of m] by linarith
    then show ?thesis ..
  qed
qed simp

end
