(* ===== verification/RamTier.thy ===== *)
theory RamTier
  imports CacheTypes GoList Shard
begin

text \<open>
  The in-memory tier, \<open>internal/cache/ram.go\<close>: sharded CLOCK (second-chance) eviction, and the
  bounded writer that keeps the buffering of concurrent writes under a per-object cap and a
  process-wide in-flight budget.

  A shard is a record of its map, its ring and its byte counters; each operation runs under the
  shard's lock in the source and is one function of the model. \<open>Get\<close> only sets the reference bit.
  The \<open>sync.Pool\<close>s that recycle buffers and readers have no effect on results and are left out,
  as is the copy \<open>Commit\<close> makes of a small body: bodies are values here.
\<close>

subsection \<open>State\<close>

record ramEntry =
  re_meta :: ObjectMeta
  re_data :: bytes
  re_el :: nat
  re_ref :: bool

record ramShard =
  rs_maxBytes :: int
  rs_curBytes :: int
  rs_atomicBytes :: int
  rs_items :: "ramEntry gomap"
  rs_lru :: golist

record RAMTier =
  rt_maxBytes :: int
  rt_shards :: "ramShard list"
  rt_maxObjectBytes :: int
  rt_inflightBytes :: int
  rt_inflightBudget :: int

definition newRamShard :: "int \<Rightarrow> ramShard" where
  "newRamShard cap = \<lparr>rs_maxBytes = cap, rs_curBytes = 0, rs_atomicBytes = 0, rs_items = [], rs_lru = list_New\<rparr>"

definition NewRAMTier :: "int \<Rightarrow> int \<Rightarrow> int \<Rightarrow> RAMTier" where
  "NewRAMTier maxBytes maxObjectBytes inflightBudget =
     (let n = shardCount maxBytes; caps = shardCaps maxBytes n
      in \<lparr>rt_maxBytes = maxBytes, rt_shards = map newRamShard caps,
          rt_maxObjectBytes = maxObjectBytes, rt_inflightBytes = 0, rt_inflightBudget = inflightBudget\<rparr>)"

abbreviation ram_index :: "RAMTier \<Rightarrow> string \<Rightarrow> nat" where
  "ram_index r key \<equiv> shardIndex key (length (rt_shards r))"

definition ram_shard :: "RAMTier \<Rightarrow> string \<Rightarrow> ramShard" where
  "ram_shard r key = rt_shards r ! ram_index r key"

definition put_ram_shard :: "RAMTier \<Rightarrow> string \<Rightarrow> ramShard \<Rightarrow> RAMTier" where
  "put_ram_shard r key s = r\<lparr>rt_shards := (rt_shards r)[ram_index r key := s]\<rparr>"

subsection \<open>Reading\<close>

definition shard_Get :: "string \<Rightarrow> ramShard \<Rightarrow> obj option \<times> ramShard" where
  "shard_Get key s =
     (case map_of (rs_items s) key of
        None \<Rightarrow> (None, s)
      | Some e \<Rightarrow>
          (Some (re_meta e, re_data e),
           s\<lparr>rs_items := AList.update key (e\<lparr>re_ref := True\<rparr>) (rs_items s)\<rparr>))"

definition ram_Get :: "string \<Rightarrow> RAMTier \<Rightarrow> obj option \<times> RAMTier" where
  "ram_Get key r = (let (res, s) = shard_Get key (ram_shard r key) in (res, put_ram_shard r key s))"

subsection \<open>The in-flight budget\<close>

definition reserve :: "int \<Rightarrow> RAMTier \<Rightarrow> bool \<times> RAMTier" where
  "reserve delta r =
     (if rt_inflightBudget r \<le> 0 then (True, r)
      else if rt_inflightBytes r + delta > rt_inflightBudget r then (False, r)
      else (True, r\<lparr>rt_inflightBytes := rt_inflightBytes r + delta\<rparr>))"

definition release :: "int \<Rightarrow> RAMTier \<Rightarrow> RAMTier" where
  "release n r = (if n > 0 then r\<lparr>rt_inflightBytes := rt_inflightBytes r - n\<rparr> else r)"

subsection \<open>Removal\<close>

definition ram_Reset :: "RAMTier \<Rightarrow> RAMTier" where
  "ram_Reset r =
     r\<lparr>rt_shards := map (\<lambda>s. s\<lparr>rs_items := [], rs_lru := (rs_lru s)\<lparr>nodes := []\<rparr>,
                                 rs_curBytes := 0, rs_atomicBytes := 0\<rparr>) (rt_shards r)\<rparr>"

definition shard_Delete :: "string \<Rightarrow> ramShard \<Rightarrow> ramShard" where
  "shard_Delete key s =
     (case map_of (rs_items s) key of
        None \<Rightarrow> s
      | Some old \<Rightarrow>
          (let cur = rs_curBytes s - int (length (re_data old))
           in s\<lparr>rs_curBytes := cur, rs_lru := list_Remove (re_el old) (rs_lru s),
                rs_items := AList.delete key (rs_items s), rs_atomicBytes := cur\<rparr>))"

definition ram_Delete :: "string \<Rightarrow> RAMTier \<Rightarrow> RAMTier" where
  "ram_Delete key r = put_ram_shard r key (shard_Delete key (ram_shard r key))"

definition ram_Len :: "RAMTier \<Rightarrow> nat" where
  "ram_Len r = sum_list (map (\<lambda>s. length (rs_items s)) (rt_shards r))"

definition ram_Bytes :: "RAMTier \<Rightarrow> int" where
  "ram_Bytes r = sum_list (map rs_atomicBytes (rt_shards r))"

subsection \<open>Commit and CLOCK eviction\<close>

text \<open>The eviction loop. The back of the ring is looked at again and again: a referenced entry
  loses its bit and goes to the front, an unreferenced one is evicted, a node without an entry is
  dropped. Every step either shortens the ring or clears a bit, which is the measure.\<close>

function clockEvict :: "int \<Rightarrow> ramShard \<Rightarrow> ramShard" where
  "clockEvict sz s =
     (if rs_curBytes s + sz > rs_maxBytes s then
        (case list_Back (rs_lru s) of
           None \<Rightarrow> s
         | Some (i, ek) \<Rightarrow>
             (case map_of (rs_items s) ek of
                None \<Rightarrow> clockEvict sz (s\<lparr>rs_lru := list_Remove i (rs_lru s)\<rparr>)
              | Some ev \<Rightarrow>
                  if re_ref ev then
                    clockEvict sz
                      (s\<lparr>rs_items := AList.update ek (ev\<lparr>re_ref := False\<rparr>) (rs_items s),
                         rs_lru := MoveToFront (re_el ev) (rs_lru s)\<rparr>)
                  else
                    clockEvict sz
                      (s\<lparr>rs_curBytes := rs_curBytes s - int (length (re_data ev)),
                         rs_items := AList.delete ek (rs_items s),
                         rs_lru := list_Remove i (rs_lru s)\<rparr>)))
      else s)"
  by pat_completeness auto
termination
proof (relation "measure (\<lambda>(sz, s). length (nodes (rs_lru s)) + length (filter (\<lambda>p. re_ref (snd p)) (rs_items s)))",
    goal_cases)
  case 1
  then show ?case by simp
next
  case (2 sz s x i ek)
  then show ?case using length_Remove_less [OF list_Back_in, of "rs_lru s" i ek] by simp
next
  case (3 sz s x i ek ev)
  then show ?case
    using filter_update_length [of "rs_items s" ek ev re_ref "ev\<lparr>re_ref := False\<rparr>"] by simp
next
  case (4 sz s x i ek ev)
  then show ?case
    using length_Remove_less [OF list_Back_in, of "rs_lru s" i ek]
      filter_delete_length [of "\<lambda>p. re_ref (snd p)" ek "rs_items s"] by simp
qed

declare clockEvict.simps [simp del]

definition shard_commit :: "ObjectMeta \<Rightarrow> bytes \<Rightarrow> ramShard \<Rightarrow> bool \<times> ramShard" where
  "shard_commit meta data s =
     (let sz = int (length data); meta = meta\<lparr>Size := sz\<rparr>
      in if sz > rs_maxBytes s then (False, s)
         else
           let s = (case map_of (rs_items s) (Key meta) of
                      None \<Rightarrow> s
                    | Some old \<Rightarrow>
                        s\<lparr>rs_curBytes := rs_curBytes s - int (length (re_data old)),
                          rs_items := AList.delete (Key meta) (rs_items s),
                          rs_lru := list_Remove (re_el old) (rs_lru s)\<rparr>);
               s = clockEvict sz s;
               (el, lru) = PushFront (Key meta) (rs_lru s);
               e = \<lparr>re_meta = meta, re_data = data, re_el = el, re_ref = False\<rparr>;
               cur = rs_curBytes s + sz
           in (True, s\<lparr>rs_lru := lru, rs_items := AList.update (Key meta) e (rs_items s),
                       rs_curBytes := cur, rs_atomicBytes := cur\<rparr>))"

definition ram_commit :: "ObjectMeta \<Rightarrow> bytes \<Rightarrow> RAMTier \<Rightarrow> bool \<times> RAMTier" where
  "ram_commit meta data r =
     (let (ok, s) = shard_commit meta data (ram_shard r (Key meta)) in (ok, put_ram_shard r (Key meta) s))"

subsection \<open>The bounded writer\<close>

text \<open>A \<open>nil\<close> buffer is \<^const>\<open>None\<close>. Writing to or committing a writer whose buffer is gone for
  another reason than overflow dereferences \<open>nil\<close> in the source: the result is \<^const>\<open>None\<close>. The
  first component of a result of \<open>ram_Write\<close> is the byte count reported to the caller.\<close>

record ramWriter =
  rw_meta :: ObjectMeta
  rw_buf :: "bytes option"
  rw_reserved :: int
  rw_overflow :: bool
  rw_stored :: bool

definition ram_Writer :: "ObjectMeta \<Rightarrow> ramWriter" where
  "ram_Writer meta =
     \<lparr>rw_meta = meta, rw_buf = Some [], rw_reserved = 0, rw_overflow = False, rw_stored = False\<rparr>"

definition dropBuffer :: "ramWriter \<Rightarrow> RAMTier \<Rightarrow> ramWriter \<times> RAMTier" where
  "dropBuffer w r =
     (w\<lparr>rw_overflow := True, rw_buf := None, rw_reserved := 0\<rparr>, release (rw_reserved w) r)"

definition ram_Write :: "bytes \<Rightarrow> ramWriter \<Rightarrow> RAMTier \<Rightarrow> (int \<times> ramWriter \<times> RAMTier) option" where
  "ram_Write p w r =
     (if rw_overflow w then Some (int (length p), w, r)
      else
        case rw_buf w of
          None \<Rightarrow> None
        | Some b \<Rightarrow>
            let need = int (length b) + int (length p)
            in if rt_maxObjectBytes r > 0 \<and> need > rt_maxObjectBytes r
               then Some (int (length p), dropBuffer w r)
               else
                 let delta = need - rw_reserved w
                 in if delta > 0 then
                      (case reserve delta r of
                         (False, r) \<Rightarrow> Some (int (length p), dropBuffer w r)
                       | (True, r) \<Rightarrow>
                           Some (int (length p),
                             w\<lparr>rw_reserved := rw_reserved w + delta, rw_buf := Some (b @ p)\<rparr>, r))
                    else Some (int (length p), w\<lparr>rw_buf := Some (b @ p)\<rparr>, r))"

definition ram_Commit :: "ramWriter \<Rightarrow> RAMTier \<Rightarrow> (ramWriter \<times> RAMTier) option" where
  "ram_Commit w r =
     (if rw_overflow w
      then Some (w\<lparr>rw_buf := None, rw_reserved := 0\<rparr>, release (rw_reserved w) r)
      else
        case rw_buf w of
          None \<Rightarrow> None
        | Some b \<Rightarrow>
            let (ok, r) = ram_commit (rw_meta w) b r
            in Some (w\<lparr>rw_stored := ok, rw_buf := None, rw_reserved := 0\<rparr>, release (rw_reserved w) r))"

definition ram_Abort :: "ramWriter \<Rightarrow> RAMTier \<Rightarrow> ramWriter \<times> RAMTier" where
  "ram_Abort w r = (w\<lparr>rw_buf := None, rw_reserved := 0\<rparr>, release (rw_reserved w) r)"

subsection \<open>The eviction loop: a proof rule\<close>

abbreviation over :: "int \<Rightarrow> ramShard \<Rightarrow> bool" where
  "over sz s \<equiv> rs_curBytes s + sz > rs_maxBytes s"

abbreviation clock_stale :: "nat \<Rightarrow> ramShard \<Rightarrow> ramShard" where
  "clock_stale i s \<equiv> s\<lparr>rs_lru := list_Remove i (rs_lru s)\<rparr>"

abbreviation clock_second :: "string \<Rightarrow> ramEntry \<Rightarrow> ramShard \<Rightarrow> ramShard" where
  "clock_second ek ev s \<equiv>
     s\<lparr>rs_items := AList.update ek (ev\<lparr>re_ref := False\<rparr>) (rs_items s),
       rs_lru := MoveToFront (re_el ev) (rs_lru s)\<rparr>"

abbreviation clock_victim :: "nat \<Rightarrow> string \<Rightarrow> ramEntry \<Rightarrow> ramShard \<Rightarrow> ramShard" where
  "clock_victim i ek ev s \<equiv>
     s\<lparr>rs_curBytes := rs_curBytes s - int (length (re_data ev)),
       rs_items := AList.delete ek (rs_items s), rs_lru := list_Remove i (rs_lru s)\<rparr>"

lemma clockEvict_done: "\<not> over sz s \<or> list_Back (rs_lru s) = None \<Longrightarrow> clockEvict sz s = s"
  by (subst clockEvict.simps) (auto simp del: list_Back_None)

lemma clockEvict_step:
  assumes "over sz s" and "list_Back (rs_lru s) = Some (i, ek)"
  shows "clockEvict sz s =
    (case map_of (rs_items s) ek of
       None \<Rightarrow> clockEvict sz (clock_stale i s)
     | Some ev \<Rightarrow> clockEvict sz (if re_ref ev then clock_second ek ev s else clock_victim i ek ev s))"
  using assms by (subst clockEvict.simps) (simp split: option.split)

lemma clockEvict_rule [consumes 1, case_names stale second_chance victim]:
  assumes "P s"
    and "\<And>s i ek. P s \<Longrightarrow> over sz s \<Longrightarrow> list_Back (rs_lru s) = Some (i, ek) \<Longrightarrow>
      map_of (rs_items s) ek = None \<Longrightarrow> P (clock_stale i s)"
    and "\<And>s i ek ev. P s \<Longrightarrow> over sz s \<Longrightarrow> list_Back (rs_lru s) = Some (i, ek) \<Longrightarrow>
      map_of (rs_items s) ek = Some ev \<Longrightarrow> re_ref ev \<Longrightarrow> P (clock_second ek ev s)"
    and "\<And>s i ek ev. P s \<Longrightarrow> over sz s \<Longrightarrow> list_Back (rs_lru s) = Some (i, ek) \<Longrightarrow>
      map_of (rs_items s) ek = Some ev \<Longrightarrow> \<not> re_ref ev \<Longrightarrow> P (clock_victim i ek ev s)"
  shows "P (clockEvict sz s)"
  using assms
proof (induction sz s rule: clockEvict.induct)
  case (1 sz s)
  show ?case
  proof (cases "over sz s \<and> list_Back (rs_lru s) \<noteq> None")
    case False
    then have "clockEvict sz s = s" by (intro clockEvict_done) blast
    with "1.prems"(1) show ?thesis by simp
  next
    case True
    then obtain i ek where bk: "list_Back (rs_lru s) = Some (i, ek)" by (metis option.exhaust surj_pair)
    note step = clockEvict_step [OF conjunct1 [OF True] bk]
    show ?thesis
    proof (cases "map_of (rs_items s) ek")
      case None
      have "P (clockEvict sz (clock_stale i s))"
        by (rule "1.IH"(1) [OF conjunct1 [OF True] bk refl None])
          (use "1.prems" True bk None in blast)+
      with step None show ?thesis by simp
    next
      case (Some ev)
      show ?thesis
      proof (cases "re_ref ev")
        case True
        have "P (clockEvict sz (clock_second ek ev s))"
          by (rule "1.IH"(2) [OF _ bk refl Some True])
            (use "1.prems" \<open>over sz s \<and> _\<close> bk Some True in blast)+
        with step Some True show ?thesis by simp
      next
        case False
        have "P (clockEvict sz (clock_victim i ek ev s))"
          by (rule "1.IH"(3) [OF _ bk refl Some False])
            (use "1.prems" \<open>over sz s \<and> _\<close> bk Some False in blast)+
        with step Some False show ?thesis by simp
      qed
    qed
  qed
qed

lemma clockEvict_exit: "\<not> over sz (clockEvict sz s) \<or> nodes (rs_lru (clockEvict sz s)) = []"
proof (induction sz s rule: clockEvict.induct)
  case (1 sz s)
  show ?case
  proof (cases "over sz s \<and> list_Back (rs_lru s) \<noteq> None")
    case False
    then have "clockEvict sz s = s" by (intro clockEvict_done) blast
    with False show ?thesis by auto
  next
    case True
    then obtain i ek where bk: "list_Back (rs_lru s) = Some (i, ek)" by (metis option.exhaust surj_pair)
    with True "1.IH" show ?thesis
      using clockEvict_step [OF conjunct1 [OF True] bk] by (auto split: option.split)
  qed
qed

subsection \<open>The shard invariant\<close>

definition shard_view :: "ramShard \<Rightarrow> string \<Rightarrow> obj option" where
  "shard_view s k = map_option (\<lambda>e. (re_meta e, re_data e)) (map_of (rs_items s) k)"

definition shard_bytes :: "ramShard \<Rightarrow> int" where
  "shard_bytes s = msum (\<lambda>e. int (length (re_data e))) (rs_items s)"

text \<open>The part of the invariant that holds in the middle of a commit, while the byte counter is
  being brought down: map and ring agree, the counter is the sum of the bodies, the stored
  metadata describes the body.\<close>

definition ram_core :: "ramShard \<Rightarrow> bool" where
  "ram_core s \<longleftrightarrow>
     ring_ok re_el (rs_items s) (rs_lru s) \<and> rs_curBytes s = shard_bytes s \<and>
     (\<forall>(k, e) \<in> set (rs_items s). Key (re_meta e) = k \<and> Size (re_meta e) = int (length (re_data e)))"

definition ram_shard_ok :: "ramShard \<Rightarrow> bool" where
  "ram_shard_ok s \<longleftrightarrow>
     ram_core s \<and> rs_atomicBytes s = rs_curBytes s \<and> rs_curBytes s \<le> max 0 (rs_maxBytes s)"

lemma shard_bytes_nonneg: "0 \<le> shard_bytes s"
  unfolding shard_bytes_def by (rule msum_nonneg) simp

lemma ram_core_second:
  assumes "ram_core s" and "map_of (rs_items s) ek = Some ev"
  shows "ram_core (clock_second ek ev s)"
proof -
  have d: "distinct (map fst (rs_items s))" using assms(1) by (simp add: ram_core_def ring_ok_def)
  have "ring_ok re_el (AList.update ek (ev\<lparr>re_ref := False\<rparr>) (rs_items s)) (MoveToFront (re_el ev) (rs_lru s))"
    using assms by (intro ring_ok_move ring_ok_upd) (auto simp: ram_core_def)
  moreover have "Key (re_meta ev) = ek \<and> Size (re_meta ev) = int (length (re_data ev))"
    using assms map_of_SomeD by (fastforce simp: ram_core_def)
  ultimately show ?thesis
    using assms d by (auto simp: ram_core_def shard_bytes_def msum_update set_update_distinct)
qed

lemma ram_core_remove:
  assumes "ram_core s" and "map_of (rs_items s) k = Some e"
  shows "ram_core (clock_victim (re_el e) k e s)"
  using assms ring_ok_delete [of re_el "rs_items s" "rs_lru s" k e]
  by (auto simp: ram_core_def shard_bytes_def msum_delete ring_ok_distinct set_delete)

lemma clockEvict_core:
  assumes "ram_core s"
  shows "ram_core (clockEvict sz s)"
  using assms
proof (rule clockEvict_rule)
  fix s i ek
  assume "ram_core s" "list_Back (rs_lru s) = Some (i, ek)" "map_of (rs_items s) ek = None"
  then show "ram_core (clock_stale i s)"
    by (auto simp: ram_core_def elim: ring_ok_Back)
next
  fix s i ek ev
  assume "ram_core s" "list_Back (rs_lru s) = Some (i, ek)" "map_of (rs_items s) ek = Some ev"
  moreover from this have "re_el ev = i"
    by (auto simp: ram_core_def elim: ring_ok_Back)
  ultimately show "ram_core (clock_victim i ek ev s)"
    using ram_core_remove by blast
qed (rule ram_core_second)

lemma clockEvict_maxBytes [simp]: "rs_maxBytes (clockEvict sz s) = rs_maxBytes s"
  by (rule clockEvict_rule [where P = "\<lambda>t. rs_maxBytes t = rs_maxBytes s"]) auto

lemma clockEvict_view: "shard_view (clockEvict sz s) k = None \<or> shard_view (clockEvict sz s) k = shard_view s k"
  by (rule clockEvict_rule [where P = "\<lambda>t. shard_view t k = None \<or> shard_view t k = shard_view s k"])
    (auto simp: shard_view_def)

lemma clockEvict_fits:
  assumes "ram_core s" and "sz \<le> rs_maxBytes s"
  shows "\<not> over sz (clockEvict sz s)"
proof (rule ccontr)
  assume *: "\<not> \<not> over sz (clockEvict sz s)"
  with clockEvict_exit have "nodes (rs_lru (clockEvict sz s)) = []" by blast
  moreover have core: "ram_core (clockEvict sz s)" using assms(1) by (rule clockEvict_core)
  ultimately have "rs_curBytes (clockEvict sz s) = 0"
    by (auto simp: ram_core_def shard_bytes_def dest: ring_ok_empty_nodes)
  with * assms(2) show False by simp
qed

lemma clockEvict_noop: "\<not> over sz s \<Longrightarrow> clockEvict sz s = s"
  by (rule clockEvict_done) simp

subsection \<open>Operations keep the shard invariant\<close>

lemma newRamShard_ok [shard_inv]: "ram_shard_ok (newRamShard cap)"
  by (simp add: ram_shard_ok_def ram_core_def newRamShard_def shard_bytes_def ring_ok_New)

lemma shard_Get_ok [shard_inv]:
  assumes "ram_shard_ok s"
  shows "ram_shard_ok (snd (shard_Get k s))"
proof (cases "map_of (rs_items s) k")
  case None
  with assms show ?thesis by (simp add: shard_Get_def)
next
  case (Some e)
  have "Key (re_meta e) = k \<and> Size (re_meta e) = int (length (re_data e))"
    using assms Some map_of_SomeD by (fastforce simp: ram_shard_ok_def ram_core_def)
  moreover have "ring_ok re_el (AList.update k (e\<lparr>re_ref := True\<rparr>) (rs_items s)) (rs_lru s)"
    using assms Some by (intro ring_ok_upd) (auto simp: ram_shard_ok_def ram_core_def)
  ultimately show ?thesis
    using assms Some
    by (auto simp: shard_Get_def ram_shard_ok_def ram_core_def shard_bytes_def msum_update
        set_update_distinct ring_ok_distinct)
qed

lemma shard_Get_view:
  "fst (shard_Get k s) = shard_view s k" "shard_view (snd (shard_Get k s)) k' = shard_view s k'"
  by (auto simp: shard_Get_def shard_view_def split: option.split)

lemma shard_Get_maxBytes [simp]: "rs_maxBytes (snd (shard_Get k s)) = rs_maxBytes s"
  by (simp add: shard_Get_def split: option.split)

lemma shard_Delete_ok [shard_inv]:
  assumes "ram_shard_ok s"
  shows "ram_shard_ok (shard_Delete k s)"
proof (cases "map_of (rs_items s) k")
  case None
  with assms show ?thesis by (simp add: shard_Delete_def)
next
  case (Some e)
  have "ram_core (clock_victim (re_el e) k e s)"
    using assms Some by (intro ram_core_remove) (auto simp: ram_shard_ok_def)
  with assms Some show ?thesis
    by (simp add: shard_Delete_def ram_shard_ok_def ram_core_def shard_bytes_def Let_def)
qed

lemma shard_Delete_view: "shard_view (shard_Delete k s) k' = (if k' = k then None else shard_view s k')"
  by (auto simp: shard_Delete_def shard_view_def Let_def split: option.split)

lemma shard_Delete_maxBytes [simp]: "rs_maxBytes (shard_Delete k s) = rs_maxBytes s"
  by (simp add: shard_Delete_def Let_def split: option.split)

text \<open>A commit in three phases: the old copy is dropped, the loop makes room, the new entry goes in.\<close>

definition commit_room :: "string \<Rightarrow> int \<Rightarrow> ramShard \<Rightarrow> ramShard" where
  "commit_room k sz s =
     clockEvict sz
       (case map_of (rs_items s) k of None \<Rightarrow> s | Some old \<Rightarrow> clock_victim (re_el old) k old s)"

lemma shard_commit_eq:
  "shard_commit m d s =
     (if int (length d) > rs_maxBytes s then (False, s)
      else
        let s' = commit_room (Key m) (int (length d)) s; cur = rs_curBytes s' + int (length d)
        in (True, s'\<lparr>rs_lru := snd (PushFront (Key m) (rs_lru s')),
              rs_items := AList.update (Key m)
                \<lparr>re_meta = m\<lparr>Size := int (length d)\<rparr>, re_data = d, re_el = nextid (rs_lru s'), re_ref = False\<rparr>
                (rs_items s'),
              rs_curBytes := cur, rs_atomicBytes := cur\<rparr>))"
  by (cases "map_of (rs_items s) (Key m)") (simp_all add: shard_commit_def commit_room_def Let_def PushFront_def)

lemma commit_room_core:
  assumes "ram_core s"
  shows "ram_core (commit_room k sz s)"
  using assms by (auto simp: commit_room_def split: option.split intro!: clockEvict_core ram_core_remove)

lemma commit_room_gone: "map_of (rs_items (commit_room k sz s)) k = None"
proof -
  let ?s = "case map_of (rs_items s) k of None \<Rightarrow> s | Some old \<Rightarrow> clock_victim (re_el old) k old s"
  have "shard_view ?s k = None" by (simp add: shard_view_def split: option.split)
  with clockEvict_view [of sz ?s k] show ?thesis by (simp add: commit_room_def shard_view_def)
qed

lemma commit_room_view:
  "shard_view (commit_room k sz s) k' = None \<or> shard_view (commit_room k sz s) k' = shard_view s k'"
proof -
  let ?s = "case map_of (rs_items s) k of None \<Rightarrow> s | Some old \<Rightarrow> clock_victim (re_el old) k old s"
  have "shard_view ?s k' = None \<or> shard_view ?s k' = shard_view s k'"
    by (simp add: shard_view_def split: option.split)
  with clockEvict_view [of sz ?s k'] show ?thesis by (auto simp: commit_room_def)
qed

lemma commit_room_maxBytes [simp]: "rs_maxBytes (commit_room k sz s) = rs_maxBytes s"
  by (simp add: commit_room_def split: option.split)

lemma commit_room_fits:
  assumes "ram_core s" and "sz \<le> rs_maxBytes s"
  shows "rs_curBytes (commit_room k sz s) + sz \<le> rs_maxBytes s"
proof -
  let ?s = "case map_of (rs_items s) k of None \<Rightarrow> s | Some old \<Rightarrow> clock_victim (re_el old) k old s"
  have "ram_core ?s" using assms(1) by (auto split: option.split intro: ram_core_remove)
  moreover have "rs_maxBytes ?s = rs_maxBytes s" by (simp split: option.split)
  ultimately show ?thesis using clockEvict_fits [of ?s sz] assms(2) by (simp add: commit_room_def)
qed

lemma shard_commit_ok [shard_inv]:
  assumes "ram_shard_ok s"
  shows "ram_shard_ok (snd (shard_commit m d s))"
proof (cases "int (length d) > rs_maxBytes s")
  case True
  with assms show ?thesis by (simp add: shard_commit_eq)
next
  case False
  let ?s = "commit_room (Key m) (int (length d)) s"
  have core: "ram_core ?s" and fits: "rs_curBytes ?s + int (length d) \<le> rs_maxBytes s"
    using assms False commit_room_core commit_room_fits by (auto simp: ram_shard_ok_def)
  let ?e = "\<lparr>re_meta = m\<lparr>Size := int (length d)\<rparr>, re_data = d, re_el = nextid (rs_lru ?s), re_ref = False\<rparr>"
  have "ring_ok re_el (AList.update (Key m) ?e (rs_items ?s)) (snd (PushFront (Key m) (rs_lru ?s)))"
    using core commit_room_gone by (intro ring_ok_push) (auto simp: ram_core_def)
  with core fits False commit_room_gone [of "Key m" "int (length d)" s] show ?thesis
    by (auto simp: shard_commit_eq Let_def ram_shard_ok_def ram_core_def shard_bytes_def msum_update
        set_update_distinct ring_ok_distinct)
qed

lemma shard_commit_maxBytes [simp]: "rs_maxBytes (snd (shard_commit m d s)) = rs_maxBytes s"
  by (simp add: shard_commit_eq Let_def)

lemma shard_commit_stored: "fst (shard_commit m d s) \<longleftrightarrow> int (length d) \<le> rs_maxBytes s"
  by (auto simp: shard_commit_eq Let_def)

lemma shard_commit_view:
  assumes "fst (shard_commit m d s)"
  shows "shard_view (snd (shard_commit m d s)) (Key m) = Some (m\<lparr>Size := int (length d)\<rparr>, d)"
  using assms by (auto simp: shard_commit_eq Let_def shard_view_def split: if_splits)

lemma shard_commit_view_other:
  assumes "k \<noteq> Key m \<or> \<not> fst (shard_commit m d s)"
  shows "shard_view (snd (shard_commit m d s)) k = None \<or> shard_view (snd (shard_commit m d s)) k = shard_view s k"
  using assms commit_room_view [of "Key m" "int (length d)" s k]
  by (auto simp: shard_commit_eq Let_def shard_view_def)

subsection \<open>The tier invariant\<close>

text \<open>Every shard satisfies its invariant, has the cap the split gave it, and holds only keys that
  hash to it.\<close>

definition ram_ok :: "RAMTier \<Rightarrow> bool" where
  "ram_ok r \<longleftrightarrow>
     length (rt_shards r) = shardCount (rt_maxBytes r) \<and>
     (\<forall>i < length (rt_shards r).
        ram_shard_ok (rt_shards r ! i) \<and>
        rs_maxBytes (rt_shards r ! i) = shardCaps (rt_maxBytes r) (shardCount (rt_maxBytes r)) ! i \<and>
        (\<forall>k. shard_view (rt_shards r ! i) k \<noteq> None \<longrightarrow> ram_index r k = i))"

definition ram_view :: "RAMTier \<Rightarrow> string \<Rightarrow> obj option" where
  "ram_view r k = shard_view (ram_shard r k) k"

lemma ram_index_less: "ram_ok r \<Longrightarrow> ram_index r k < length (rt_shards r)"
  by (simp add: ram_ok_def)

lemma ram_shard_inv: "ram_ok r \<Longrightarrow> ram_shard_ok (ram_shard r k)"
  using ram_index_less by (simp add: ram_ok_def ram_shard_def)

lemma put_ram_shard_simps [simp]:
  "rt_maxBytes (put_ram_shard r k s) = rt_maxBytes r"
  "length (rt_shards (put_ram_shard r k s)) = length (rt_shards r)"
  "rt_maxObjectBytes (put_ram_shard r k s) = rt_maxObjectBytes r"
  "rt_inflightBytes (put_ram_shard r k s) = rt_inflightBytes r"
  "rt_inflightBudget (put_ram_shard r k s) = rt_inflightBudget r"
  by (simp_all add: put_ram_shard_def)

lemma ram_shard_put:
  assumes "ram_ok r"
  shows "ram_shard (put_ram_shard r k s) k' =
    (if ram_index r k' = ram_index r k then s else ram_shard r k')"
  using assms ram_index_less [OF assms, of k] by (simp add: ram_shard_def put_ram_shard_def)

text \<open>Replacing the owning shard by one that satisfies the invariant, with the same cap and no new
  key but \<open>k\<close>, keeps the tier's invariant and shows in the view of the tier.\<close>

lemma put_ram_shard_ok:
  assumes r: "ram_ok r" and s: "ram_shard_ok s" and m: "rs_maxBytes s = rs_maxBytes (ram_shard r k)"
    and v: "\<And>k'. k' \<noteq> k \<Longrightarrow> shard_view s k' \<noteq> None \<Longrightarrow> shard_view (ram_shard r k) k' \<noteq> None"
  shows "ram_ok (put_ram_shard r k s)"
proof -
  have i: "ram_index r k < length (rt_shards r)" using r by (rule ram_index_less)
  have "ram_index r k' = ram_index r k" if "shard_view s k' \<noteq> None" for k'
  proof (cases "k' = k")
    case False
    with that v have "shard_view (ram_shard r k) k' \<noteq> None" by blast
    with r i show ?thesis unfolding ram_ok_def ram_shard_def by blast
  qed simp
  with r s m i show ?thesis
    by (auto simp: ram_ok_def put_ram_shard_def ram_shard_def nth_list_update)
qed

lemma ram_view_put:
  assumes "ram_ok r" and "\<And>k'. k' \<noteq> k \<Longrightarrow> shard_view s k' = shard_view (ram_shard r k) k'"
  shows "ram_view (put_ram_shard r k s) = (ram_view r)(k := shard_view s k)"
proof
  fix k'
  have "ram_shard r k' = ram_shard r k" if "ram_index r k' = ram_index r k"
    using that by (simp add: ram_shard_def)
  with assms show "ram_view (put_ram_shard r k s) k' = ((ram_view r)(k := shard_view s k)) k'"
    by (simp add: ram_view_def ram_shard_put)
qed

lemma NewRAMTier_ok [tier_inv]: "ram_ok (NewRAMTier m ob bu)"
  using newRamShard_ok
  by (auto simp: ram_ok_def NewRAMTier_def Let_def newRamShard_def shard_view_def)

lemma ram_Get_ok [tier_inv]:
  assumes "ram_ok r"
  shows "ram_ok (snd (ram_Get k r))"
  using assms ram_shard_inv [OF assms, of k] shard_Get_ok
  by (auto simp: ram_Get_def case_prod_beta shard_Get_view intro!: put_ram_shard_ok)

lemma ram_Get_view:
  assumes "ram_ok r"
  shows "fst (ram_Get k r) = ram_view r k" "ram_view (snd (ram_Get k r)) = ram_view r"
  using assms
  by (auto simp: ram_Get_def case_prod_beta shard_Get_view ram_view_put ram_view_def)

lemma ram_Delete_ok [tier_inv]:
  assumes "ram_ok r"
  shows "ram_ok (ram_Delete k r)"
  using assms ram_shard_inv [OF assms, of k] shard_Delete_ok
  by (auto simp: ram_Delete_def shard_Delete_view intro!: put_ram_shard_ok)

lemma ram_Delete_view:
  assumes "ram_ok r"
  shows "ram_view (ram_Delete k r) = (ram_view r)(k := None)"
  using assms by (auto simp: ram_Delete_def shard_Delete_view ram_view_put)

lemma ram_Reset_ok [tier_inv]:
  assumes "ram_ok r"
  shows "ram_ok (ram_Reset r)"
  using assms
  by (auto simp: ram_ok_def ram_Reset_def ram_shard_ok_def ram_core_def ring_ok_def shard_bytes_def
      shard_view_def)

lemma ram_Reset_view:
  assumes "ram_ok r"
  shows "ram_view (ram_Reset r) = Map.empty"
proof
  fix k
  from assms have "ram_index r k < length (rt_shards r)" by (rule ram_index_less)
  then show "ram_view (ram_Reset r) k = None"
    by (simp add: ram_view_def ram_Reset_def ram_shard_def shard_view_def)
qed

lemma ram_commit_ok [tier_inv]:
  assumes "ram_ok r"
  shows "ram_ok (snd (ram_commit m d r))"
proof -
  have "ram_shard_ok (snd (shard_commit m d (ram_shard r (Key m))))"
    using assms by (intro shard_commit_ok ram_shard_inv)
  moreover have "shard_view (ram_shard r (Key m)) k \<noteq> None"
    if "k \<noteq> Key m" "shard_view (snd (shard_commit m d (ram_shard r (Key m)))) k \<noteq> None" for k
    using that shard_commit_view_other [of k m d "ram_shard r (Key m)"] by auto
  ultimately show ?thesis
    using assms by (auto simp: ram_commit_def case_prod_beta intro!: put_ram_shard_ok)
qed

lemma ram_commit_view:
  assumes "ram_ok r" and "fst (ram_commit m d r)"
  shows "ram_view (snd (ram_commit m d r)) (Key m) = Some (m\<lparr>Size := int (length d)\<rparr>, d)"
  using assms shard_commit_view
  by (auto simp: ram_commit_def case_prod_beta ram_view_def ram_shard_put)

lemma ram_commit_view_other:
  assumes "ram_ok r" and "k \<noteq> Key m \<or> \<not> fst (ram_commit m d r)"
  shows "ram_view (snd (ram_commit m d r)) k = None \<or> ram_view (snd (ram_commit m d r)) k = ram_view r k"
proof -
  have "ram_shard r k = ram_shard r (Key m)" if "ram_index r k = ram_index r (Key m)"
    using that by (simp add: ram_shard_def)
  with assms shard_commit_view_other [of k m d "ram_shard r (Key m)"] show ?thesis
    by (auto simp: ram_commit_def case_prod_beta ram_view_def ram_shard_put)
qed

lemma ram_Bytes_nonneg:
  assumes "ram_ok r"
  shows "0 \<le> ram_Bytes r"
  unfolding ram_Bytes_def
proof (rule sum_list_nonneg)
  fix x
  assume "x \<in> set (map rs_atomicBytes (rt_shards r))"
  then obtain i where "i < length (rt_shards r)" and x: "x = rs_atomicBytes (rt_shards r ! i)"
    by (auto simp: in_set_conv_nth)
  with assms have "ram_shard_ok (rt_shards r ! i)" by (simp add: ram_ok_def)
  then show "0 \<le> x" by (simp add: x ram_shard_ok_def ram_core_def shard_bytes_nonneg)
qed

lemma ram_Bytes_le:
  assumes "ram_ok r"
  shows "ram_Bytes r \<le> max 0 (rt_maxBytes r)"
proof -
  let ?m = "rt_maxBytes r"
  let ?caps = "shardCaps ?m (shardCount ?m)"
  have "ram_Bytes r \<le> sum_list (map (max 0) ?caps)"
    unfolding ram_Bytes_def
    using assms by (intro sum_list_mono_nth) (auto simp: ram_ok_def ram_shard_ok_def)
  also have "\<dots> = max 0 ?m" by (rule sum_shardCaps_max)
  finally show ?thesis .
qed

subsection \<open>The tier contract\<close>

text \<open>A committed writer, as the tier contract sees it: \<open>Commit\<close> needs a writer that has not been
  committed or aborted (one that overflowed has no buffer and stores nothing), and the object is
  the buffered body under the writer's metadata with the size filled in.\<close>

definition ram_writer_live :: "ramWriter \<Rightarrow> bool" where
  "ram_writer_live w \<longleftrightarrow> (if rw_overflow w then \<not> rw_stored w else rw_buf w \<noteq> None)"

definition ram_tier_commit :: "ramWriter \<Rightarrow> RAMTier \<Rightarrow> bool \<times> RAMTier" where
  "ram_tier_commit w r = (case ram_Commit w r of None \<Rightarrow> (False, r) | Some (w', r') \<Rightarrow> (rw_stored w', r'))"

definition ram_wobj :: "ramWriter \<Rightarrow> obj" where
  "ram_wobj w = (case rw_buf w of None \<Rightarrow> (rw_meta w, []) | Some b \<Rightarrow> ((rw_meta w)\<lparr>Size := int (length b)\<rparr>, b))"

lemma release_simps [simp]:
  "rt_maxBytes (release n r) = rt_maxBytes r" "rt_shards (release n r) = rt_shards r"
  "rt_maxObjectBytes (release n r) = rt_maxObjectBytes r" "rt_inflightBudget (release n r) = rt_inflightBudget r"
  by (simp_all add: release_def)

lemma reserve_simps [simp]:
  "rt_maxBytes (snd (reserve n r)) = rt_maxBytes r" "rt_shards (snd (reserve n r)) = rt_shards r"
  "rt_maxObjectBytes (snd (reserve n r)) = rt_maxObjectBytes r"
  "rt_inflightBudget (snd (reserve n r)) = rt_inflightBudget r"
  by (simp_all add: reserve_def)

lemma ram_ok_cong:
  assumes "rt_maxBytes r' = rt_maxBytes r" and "rt_shards r' = rt_shards r"
  shows "ram_ok r' = ram_ok r" "ram_view r' = ram_view r" "ram_Bytes r' = ram_Bytes r"
  using assms by (auto simp: ram_ok_def ram_view_def ram_shard_def ram_Bytes_def fun_eq_iff)

lemmas ram_release_cong [simp] =
  ram_ok_cong [OF release_simps(1,2)] ram_ok_cong [OF reserve_simps(1,2)]

lemma ram_tier_commit_cases:
  assumes "ram_writer_live w"
  obtains (overflow) "rw_overflow w" "ram_tier_commit w r = (False, release (rw_reserved w) r)"
  | (buffered) b where "\<not> rw_overflow w" "rw_buf w = Some b"
      "ram_tier_commit w r =
        (fst (ram_commit (rw_meta w) b r), release (rw_reserved w) (snd (ram_commit (rw_meta w) b r)))"
  using assms
  by (cases "rw_overflow w")
    (auto simp: ram_writer_live_def ram_tier_commit_def ram_Commit_def case_prod_beta)

interpretation ram: cache_tier ram_ok ram_view ram_Get ram_Delete ram_Reset ram_tier_commit
  "\<lambda>w _. ram_writer_live w" "\<lambda>w _. ram_wobj w" ram_Bytes rt_maxBytes
proof unfold_locales
  fix r k
  assume r: "ram_ok r"
  show "fst (ram_Get k r) = ram_view r k" "ram_view (snd (ram_Get k r)) = ram_view r"
    "ram_ok (snd (ram_Get k r))" "ram_view (ram_Delete k r) = (ram_view r)(k := None)"
    "ram_ok (ram_Delete k r)" "ram_view (ram_Reset r) = Map.empty" "ram_ok (ram_Reset r)"
    using r by (simp_all add: ram_Get_view ram_Delete_view ram_Reset_view tier_inv)
  show "0 \<le> ram_Bytes r \<and> ram_Bytes r \<le> max 0 (rt_maxBytes r)"
    using r ram_Bytes_nonneg ram_Bytes_le by blast
next
  fix r w k
  assume r: "ram_ok r" and w: "ram_writer_live w"
  show "ram_ok (snd (ram_tier_commit w r))"
    using w by (cases rule: ram_tier_commit_cases [where r = r]) (simp_all add: r ram_commit_ok)
  show "ram_view (snd (ram_tier_commit w r)) (Key (fst (ram_wobj w))) = Some (ram_wobj w)"
    if "fst (ram_tier_commit w r)"
    using w that ram_commit_view [OF r, of "rw_meta w"]
    by (cases rule: ram_tier_commit_cases [where r = r]) (simp_all add: ram_wobj_def)
  show "ram_view (snd (ram_tier_commit w r)) k = None \<or> ram_view (snd (ram_tier_commit w r)) k = ram_view r k"
    if "k \<noteq> Key (fst (ram_wobj w)) \<or> \<not> fst (ram_tier_commit w r)"
    using w that ram_commit_view_other [OF r, of k "rw_meta w"]
    by (cases rule: ram_tier_commit_cases [where r = r]) (simp_all add: ram_wobj_def)
qed

end
