(* ===== verification/RamWriters.thy ===== *)
theory RamWriters
  imports RamTier
begin

text \<open>
  The in-memory tier shared by any number of concurrent writers and readers
  (\<open>internal/cache/ram.go\<close>). A configuration is the tier with its writers; a step is one call of
  the tier's or a writer's interface. The lemmas show that the in-flight accounting is exact and bounds
  the bytes buffered by all writers together, what a writer session stores, and the second-chance
  guarantee of the eviction loop.
\<close>

subsection \<open>Writer sessions\<close>

primrec ram_Writes :: "bytes list \<Rightarrow> ramWriter \<Rightarrow> RAMTier \<Rightarrow> (ramWriter \<times> RAMTier) option" where
  "ram_Writes [] w r = Some (w, r)"
| "ram_Writes (p # ps) w r =
     (case ram_Write p w r of None \<Rightarrow> None | Some (_, w', r') \<Rightarrow> ram_Writes ps w' r')"

text \<open>How one write can turn out: the writer has overflowed before and discards; it overflows now,
  by the per-object cap or by the in-flight budget; or it buffers.\<close>

lemma ram_Write_cases [consumes 1, case_names discard overflow buffer]:
  assumes "ram_Write p w r = Some (n, w', r')"
  obtains "rw_overflow w" "w' = w" "r' = r" "n = int (length p)"
  | "\<not> rw_overflow w" "(w', r') = dropBuffer w r" "n = int (length p)"
  | b where "\<not> rw_overflow w" "rw_buf w = Some b" "n = int (length p)"
      "w' = w\<lparr>rw_reserved := max (rw_reserved w) (int (length b + length p)), rw_buf := Some (b @ p)\<rparr>"
      "rt_maxObjectBytes r \<le> 0 \<or> int (length b + length p) \<le> rt_maxObjectBytes r"
      "r' = (if int (length b + length p) - rw_reserved w > 0
             then snd (reserve (int (length b + length p) - rw_reserved w) r) else r)"
      "int (length b + length p) - rw_reserved w > 0 \<Longrightarrow>
         fst (reserve (int (length b + length p) - rw_reserved w) r)"
proof (cases "rw_overflow w")
  case True
  with assms have "w' = w \<and> r' = r \<and> n = int (length p)" by (auto simp: ram_Write_def)
  with True that(1) show ?thesis by blast
next
  case False
  then obtain b where b: "rw_buf w = Some b" using assms by (auto simp: ram_Write_def split: option.splits)
  let ?need = "int (length b + length p)"
  let ?d = "?need - rw_reserved w"
  have eq: "ram_Write p w r = Some (int (length p),
      if (rt_maxObjectBytes r > 0 \<and> ?need > rt_maxObjectBytes r) \<or> (?d > 0 \<and> \<not> fst (reserve ?d r))
      then dropBuffer w r
      else (w\<lparr>rw_reserved := max (rw_reserved w) ?need, rw_buf := Some (b @ p)\<rparr>,
            if ?d > 0 then snd (reserve ?d r) else r))"
    using False b by (auto simp: ram_Write_def Let_def max_def reserve_def)
  show ?thesis
  proof (cases "(rt_maxObjectBytes r > 0 \<and> ?need > rt_maxObjectBytes r) \<or> (?d > 0 \<and> \<not> fst (reserve ?d r))")
    case True
    from assms have "Some (n, w', r') = Some (int (length p), dropBuffer w r)"
      unfolding eq if_P [OF True] by (rule sym)
    then have "(w', r') = dropBuffer w r" "n = int (length p)" by simp_all
    with False that(2) show ?thesis by blast
  next
    case ok: False
    from assms have "n = int (length p)"
      "w' = w\<lparr>rw_reserved := max (rw_reserved w) ?need, rw_buf := Some (b @ p)\<rparr>"
      "r' = (if ?d > 0 then snd (reserve ?d r) else r)" 
      unfolding eq if_not_P [OF ok] option.inject prod.inject by blast+
    moreover from ok have "rt_maxObjectBytes r \<le> 0 \<or> ?need \<le> rt_maxObjectBytes r" by linarith
    moreover from ok have "fst (reserve ?d r)" if "?d > 0" using that by blast
    ultimately show ?thesis using that(3) False b by blast
  qed
qed

lemma ram_Write_meta: "ram_Write p w r = Some (n, w', r') \<Longrightarrow> rw_meta w' = rw_meta w \<and> rw_stored w' = rw_stored w"
  by (erule ram_Write_cases) (auto simp: dropBuffer_def)

lemma ram_Write_tier:
  assumes "ram_Write p w r = Some (n, w', r')"
  shows "rt_shards r' = rt_shards r" "rt_maxBytes r' = rt_maxBytes r"
    "rt_maxObjectBytes r' = rt_maxObjectBytes r" "rt_inflightBudget r' = rt_inflightBudget r"
  using assms by (auto elim!: ram_Write_cases simp: dropBuffer_def)

lemma ram_Write_returns: "rw_overflow w \<or> rw_buf w \<noteq> None \<Longrightarrow> ram_Write p w r \<noteq> None"
  by (auto simp: ram_Write_def Let_def split: prod.split bool.split)

lemma ram_Write_live:
  assumes "ram_Write p w r = Some (n, w', r')"
  shows "rw_overflow w' \<or> rw_buf w' \<noteq> None"
  using assms by (auto elim!: ram_Write_cases simp: dropBuffer_def)

lemma ram_Writes_total:
  assumes "rw_overflow w \<or> rw_buf w \<noteq> None"
  shows "\<exists>w' r'. ram_Writes ps w r = Some (w', r')"
  using assms
proof (induction ps arbitrary: w r)
  case (Cons p ps)
  then obtain n w1 r1 where w1: "ram_Write p w r = Some (n, w1, r1)"
    using ram_Write_returns [OF Cons.prems, of p r] by (metis option.exhaust surj_pair)
  with Cons.IH [OF ram_Write_live [OF w1], of r1] show ?case by simp
qed simp

lemma ram_Writes_result:
  assumes "ram_Writes ps w r = Some (w', r')" and "rw_buf w = Some b" and "\<not> rw_overflow w"
  shows "rw_meta w' = rw_meta w \<and> rw_stored w' = rw_stored w \<and> rt_shards r' = rt_shards r \<and>
    rt_maxBytes r' = rt_maxBytes r \<and> (rw_overflow w' \<or> rw_buf w' = Some (b @ concat ps))"
  using assms
proof (induction ps arbitrary: w r b)
  case (Cons p ps)
  obtain n w1 r1 where w1: "ram_Write p w r = Some (n, w1, r1)" and rest: "ram_Writes ps w1 r1 = Some (w', r')"
    using Cons.prems(1) by (auto split: option.splits)
  have over: "rw_overflow w' \<and> rw_meta w' = rw_meta w \<and> rw_stored w' = rw_stored w \<and>
      rt_shards r' = rt_shards r \<and> rt_maxBytes r' = rt_maxBytes r"
    if "rw_overflow w" "ram_Writes qs w r = Some (w', r')" for qs w r
    using that by (induction qs) (auto simp: ram_Write_def)
  note facts = ram_Write_meta [OF w1] ram_Write_tier [OF w1]
  show ?case
  proof (cases "rw_overflow w1")
    case True
    with over [OF True rest] facts show ?thesis by simp
  next
    case False
    then have "rw_buf w1 = Some (b @ p)"
      using w1 Cons.prems(2,3) by (auto elim!: ram_Write_cases simp: dropBuffer_def)
    from Cons.IH [OF rest this False] facts show ?thesis by simp
  qed
qed simp

subsection \<open>Concurrent sessions\<close>

inductive ram_step :: "RAMTier \<times> ramWriter list \<Rightarrow> RAMTier \<times> ramWriter list \<Rightarrow> bool" where
  Open: "ram_step (r, ws) (r, ws @ [ram_Writer m])"
| Write: "i < length ws \<Longrightarrow> ram_Write p (ws ! i) r = Some (n, w', r') \<Longrightarrow> ram_step (r, ws) (r', ws[i := w'])"
| Commit: "i < length ws \<Longrightarrow> ram_Commit (ws ! i) r = Some (w', r') \<Longrightarrow> ram_step (r, ws) (r', ws[i := w'])"
| Abort: "i < length ws \<Longrightarrow> ram_Abort (ws ! i) r = (w', r') \<Longrightarrow> ram_step (r, ws) (r', ws[i := w'])"
| Read: "ram_step (r, ws) (snd (ram_Get k r), ws)"
| Purge: "ram_step (r, ws) (ram_Delete k r, ws)"
| Reset: "ram_step (r, ws) (ram_Reset r, ws)"

inductive_cases ram_stepE: "ram_step (r, ws) (r', ws')"

definition ram_reachable :: "int \<Rightarrow> int \<Rightarrow> int \<Rightarrow> RAMTier \<Rightarrow> ramWriter list \<Rightarrow> bool" where
  "ram_reachable maxBytes maxObject budget r ws \<longleftrightarrow>
     ram_step\<^sup>*\<^sup>* (NewRAMTier maxBytes maxObject budget, []) (r, ws)"

lemma ram_commit_config [simp]:
  "rt_maxBytes (snd (ram_commit m d r)) = rt_maxBytes r"
  "rt_maxObjectBytes (snd (ram_commit m d r)) = rt_maxObjectBytes r"
  "rt_inflightBytes (snd (ram_commit m d r)) = rt_inflightBytes r"
  "rt_inflightBudget (snd (ram_commit m d r)) = rt_inflightBudget r"
  by (simp_all add: ram_commit_def case_prod_beta)

lemma ram_config [simp]:
  "rt_maxBytes (snd (ram_Get k r)) = rt_maxBytes r" "rt_maxBytes (ram_Delete k r) = rt_maxBytes r"
  "rt_maxBytes (ram_Reset r) = rt_maxBytes r"
  "rt_maxObjectBytes (snd (ram_Get k r)) = rt_maxObjectBytes r"
  "rt_maxObjectBytes (ram_Delete k r) = rt_maxObjectBytes r" "rt_maxObjectBytes (ram_Reset r) = rt_maxObjectBytes r"
  "rt_inflightBytes (snd (ram_Get k r)) = rt_inflightBytes r"
  "rt_inflightBytes (ram_Delete k r) = rt_inflightBytes r" "rt_inflightBytes (ram_Reset r) = rt_inflightBytes r"
  "rt_inflightBudget (snd (ram_Get k r)) = rt_inflightBudget r"
  "rt_inflightBudget (ram_Delete k r) = rt_inflightBudget r" "rt_inflightBudget (ram_Reset r) = rt_inflightBudget r"
  by (simp_all add: ram_Get_def ram_Delete_def ram_Reset_def case_prod_beta)

lemma ram_Commit_cases [consumes 1, case_names overflow buffered]:
  assumes "ram_Commit w r = Some (w', r')"
  obtains "rw_overflow w" "w' = w\<lparr>rw_buf := None, rw_reserved := 0\<rparr>" "r' = release (rw_reserved w) r"
  | b where "\<not> rw_overflow w" "rw_buf w = Some b"
      "w' = w\<lparr>rw_stored := fst (ram_commit (rw_meta w) b r), rw_buf := None, rw_reserved := 0\<rparr>"
      "r' = release (rw_reserved w) (snd (ram_commit (rw_meta w) b r))"
  using assms by (auto simp: ram_Commit_def case_prod_beta split: if_splits option.splits)

subsection \<open>The in-flight accounting\<close>

definition buffered :: "ramWriter \<Rightarrow> int" where
  "buffered w = (case rw_buf w of None \<Rightarrow> 0 | Some b \<Rightarrow> int (length b))"

text \<open>With a positive budget the counter is the sum of the reservations, every reservation is
  exactly the bytes its writer buffers, the sum stays within the budget, and no writer buffers more
  than the per-object cap.\<close>

definition inflight_ok :: "RAMTier \<times> ramWriter list \<Rightarrow> bool" where
  "inflight_ok c \<longleftrightarrow>
     (case c of (r, ws) \<Rightarrow>
        (\<forall>w \<in> set ws. rw_reserved w = buffered w \<and> (rt_maxObjectBytes r > 0 \<longrightarrow> buffered w \<le> rt_maxObjectBytes r)) \<and>
        (rt_inflightBudget r > 0 \<longrightarrow>
           rt_inflightBytes r = sum_list (map rw_reserved ws) \<and> rt_inflightBytes r \<le> rt_inflightBudget r))"

lemma buffered_nonneg: "0 \<le> buffered w"
  by (simp add: buffered_def split: option.split)

lemma sum_list_map_update:
  fixes f :: "'a \<Rightarrow> int"
  assumes "i < length ws"
  shows "sum_list (map f (ws[i := w])) = sum_list (map f ws) - f (ws ! i) + f w"
  using assms
proof (induction ws arbitrary: i)
  case (Cons x xs)
  then show ?case by (cases i) auto
qed simp

lemma set_update_cases: "w \<in> set (ws[i := w']) \<Longrightarrow> w = w' \<or> w \<in> set ws"
  using set_update_subset_insert [of ws i w'] by blast

text \<open>Replacing one writer, with the counter moved by the change of its reservation.\<close>

lemma inflight_replace:
  assumes ok: "inflight_ok (r, ws)" and i: "i < length ws"
    and conf: "rt_maxObjectBytes r' = rt_maxObjectBytes r" "rt_inflightBudget r' = rt_inflightBudget r"
    and w': "rw_reserved w' = buffered w'" "rt_maxObjectBytes r > 0 \<Longrightarrow> buffered w' \<le> rt_maxObjectBytes r"
    and cnt: "rt_inflightBudget r > 0 \<Longrightarrow>
      rt_inflightBytes r' = rt_inflightBytes r - rw_reserved (ws ! i) + rw_reserved w' \<and>
      rt_inflightBytes r' \<le> rt_inflightBudget r"
  shows "inflight_ok (r', ws[i := w'])"
  using assms by (auto simp: inflight_ok_def sum_list_map_update dest!: set_update_cases)

lemma inflight_gone:
  assumes "inflight_ok (r, ws)" and "i < length ws" and "rw_reserved w' = 0" and "buffered w' = 0"
    and "rt_maxObjectBytes r1 = rt_maxObjectBytes r" "rt_inflightBudget r1 = rt_inflightBudget r"
      "rt_inflightBytes r1 = rt_inflightBytes r"
  shows "inflight_ok (release (rw_reserved (ws ! i)) r1, ws[i := w'])"
proof (rule inflight_replace [OF assms(1,2)])
  have res: "rw_reserved (ws ! i) = buffered (ws ! i)" using assms(1,2) by (auto simp: inflight_ok_def)
  assume "rt_inflightBudget r > 0"
  with assms res buffered_nonneg [of "ws ! i"]
  show "rt_inflightBytes (release (rw_reserved (ws ! i)) r1) = rt_inflightBytes r - rw_reserved (ws ! i) + rw_reserved w' \<and>
      rt_inflightBytes (release (rw_reserved (ws ! i)) r1) \<le> rt_inflightBudget r"
    by (auto simp: release_def inflight_ok_def)
qed (use assms in auto)

lemma ram_Write_inflight:
  assumes ok: "inflight_ok (r, ws)" and i: "i < length ws" and w: "ram_Write p (ws ! i) r = Some (n, w', r')"
  shows "inflight_ok (r', ws[i := w'])"
  using w
proof (cases rule: ram_Write_cases)
  case discard
  with ok show ?thesis by (simp add: list_update_id)
next
  case overflow
  with ok i show ?thesis by (auto simp: dropBuffer_def buffered_def intro!: inflight_gone)
next
  case (buffer b)
  have res: "rw_reserved (ws ! i) = int (length b)"
    using ok i buffer by (auto simp: inflight_ok_def buffered_def dest!: bspec [where x = "ws ! i"])
  let ?need = "int (length b + length p)" and ?d = "int (length b + length p) - rw_reserved (ws ! i)"
  have d: "?d = int (length p)" using res by simp
  have cap: "rt_inflightBytes r \<le> rt_inflightBudget r" if "rt_inflightBudget r > 0"
    using ok that by (simp add: inflight_ok_def)
  have bd: "rw_reserved w' = ?need" "buffered w' = ?need" using buffer(4) res by (simp_all add: buffered_def)
  show ?thesis
  proof (rule inflight_replace [OF ok i])
    show "rt_maxObjectBytes r' = rt_maxObjectBytes r" "rt_inflightBudget r' = rt_inflightBudget r"
      using ram_Write_tier [OF w] by simp_all
    show "rw_reserved w' = buffered w'" using bd by simp
    show "buffered w' \<le> rt_maxObjectBytes r" if "rt_maxObjectBytes r > 0" using bd buffer(5) that by linarith
  next
    assume pos: "rt_inflightBudget r > 0"
    show "rt_inflightBytes r' = rt_inflightBytes r - rw_reserved (ws ! i) + rw_reserved w' \<and>
        rt_inflightBytes r' \<le> rt_inflightBudget r"
    proof (cases "p = []")
      case True
      then have "r' = r" using buffer(6) d by simp
      with True pos cap bd res show ?thesis by simp
    next
      case False
      then have "fst (reserve (int (length p)) r)" and r': "r' = snd (reserve (int (length p)) r)"
        using buffer(6,7) unfolding d by simp_all
      with pos show ?thesis unfolding r' using bd res by (auto simp: reserve_def split: if_splits)
    qed
  qed
qed

lemma ram_step_inflight:
  assumes "ram_step c c'" and "inflight_ok c"
  shows "inflight_ok c'"
  using assms
proof (induction rule: ram_step.induct)
  case (Open r ws m)
  then show ?case by (auto simp: inflight_ok_def ram_Writer_def buffered_def)
next
  case (Write i ws p r n w' r')
  then show ?case by (blast intro: ram_Write_inflight)
next
  case (Commit i ws r w' r')
  then show ?case by (auto elim!: ram_Commit_cases intro!: inflight_gone simp: buffered_def)
next
  case (Abort i ws r w' r')
  then show ?case by (auto simp: ram_Abort_def buffered_def intro!: inflight_gone)
qed (auto simp: inflight_ok_def)

lemma ram_step_ok:
  assumes "ram_step c c'" and "ram_ok (fst c)"
  shows "ram_ok (fst c') \<and> rt_maxBytes (fst c') = rt_maxBytes (fst c) \<and>
    rt_maxObjectBytes (fst c') = rt_maxObjectBytes (fst c) \<and> rt_inflightBudget (fst c') = rt_inflightBudget (fst c)"
  using assms
proof (induction rule: ram_step.induct)
  case (Write i ws p r n w' r')
  note t = ram_Write_tier [OF Write.hyps(2)]
  with Write.prems ram_ok_cong(1) [OF t(2,1)] show ?case by simp
next
  case (Commit i ws r w' r')
  then show ?case by (auto elim!: ram_Commit_cases simp: ram_commit_ok)
qed (auto simp: ram_Abort_def tier_inv)

lemma ram_reachable_inv:
  assumes "ram_reachable m ob bu r ws"
  shows "ram_ok r \<and> inflight_ok (r, ws) \<and> rt_maxBytes r = m \<and> rt_maxObjectBytes r = ob \<and> rt_inflightBudget r = bu"
proof -
  have "ram_ok (fst c) \<and> inflight_ok c \<and> rt_maxBytes (fst c) = m \<and> rt_maxObjectBytes (fst c) = ob \<and>
      rt_inflightBudget (fst c) = bu"
    if "ram_step\<^sup>*\<^sup>* (NewRAMTier m ob bu, []) c" for c
    using that
  proof induction
    case base
    then show ?case
      using NewRAMTier_ok by (simp add: inflight_ok_def) (simp add: NewRAMTier_def Let_def)
  next
    case (step c c')
    then show ?case using ram_step_ok ram_step_inflight by metis
  qed
  with assms show ?thesis by (fastforce simp: ram_reachable_def)
qed

subsection \<open>Second chance\<close>

text \<open>Started on a shard \<open>s\<close>, the eviction loop first walks the ring once: the ring is then the
  entries that were passed over, followed by the part not looked at yet. While that part is not
  used up no entry that was referenced at the start is lost; when it is, every entry that was not
  referenced is gone.\<close>

definition unreferenced_gone :: "ramShard \<Rightarrow> ramShard \<Rightarrow> bool" where
  "unreferenced_gone s t \<longleftrightarrow>
     (\<forall>k e. map_of (rs_items s) k = Some e \<longrightarrow> \<not> re_ref e \<longrightarrow> map_of (rs_items t) k = None)"

definition first_sweep :: "ramShard \<Rightarrow> ramShard \<Rightarrow> bool" where
  "first_sweep s t \<longleftrightarrow>
     (\<exists>moved rest seen. nodes (rs_lru s) = rest @ seen \<and> nodes (rs_lru t) = moved @ rest \<and>
        (\<forall>n \<in> set rest. map_of (rs_items t) (snd n) = map_of (rs_items s) (snd n)) \<and>
        (\<forall>n \<in> set seen. \<forall>e. map_of (rs_items s) (snd n) = Some e \<longrightarrow>
           (re_ref e \<longleftrightarrow> map_of (rs_items t) (snd n) \<noteq> None)))"

lemma first_sweep_end:
  assumes "ram_core s" and "first_sweep s t" and "nodes (rs_lru s) = seen" and
    "\<forall>n \<in> set seen. \<forall>e. map_of (rs_items s) (snd n) = Some e \<longrightarrow> (re_ref e \<longleftrightarrow> map_of (rs_items t) (snd n) \<noteq> None)"
  shows "unreferenced_gone s t"
  using assms ring_ok_entry [of re_el "rs_items s" "rs_lru s"]
  by (fastforce simp: unreferenced_gone_def ram_core_def)

lemma filter_fst_last:
  assumes "distinct (map fst (xs @ [n]))"
  shows "filter (\<lambda>m. fst m \<noteq> fst n) (xs @ [n]) = xs" "filter (\<lambda>m. fst m = fst n) (xs @ [n]) = [n]"
  using assms by (auto simp: filter_id_conv filter_empty_conv image_iff)

text \<open>One step of the loop on the last node of the part not looked at yet.\<close>

lemma first_sweep_step:
  assumes s: "ram_core s" and t: "ram_core t"
    and split_s: "nodes (rs_lru s) = (rest @ [(i, ek)]) @ seen"
    and split_t: "nodes (rs_lru t) = moved @ rest @ [(i, ek)]"
    and same: "\<forall>n \<in> set (rest @ [(i, ek)]). map_of (rs_items t) (snd n) = map_of (rs_items s) (snd n)"
    and passed: "\<forall>n \<in> set seen. \<forall>e. map_of (rs_items s) (snd n) = Some e \<longrightarrow>
      (re_ref e \<longleftrightarrow> map_of (rs_items t) (snd n) \<noteq> None)"
    and ev: "map_of (rs_items t) ek = Some ev"
  shows "re_ref ev \<Longrightarrow> first_sweep s (clock_second ek ev t)"
    and "\<not> re_ref ev \<Longrightarrow> first_sweep s (clock_victim i ek ev t)"
proof -
  have "distinct (map snd (nodes (rs_lru s)))" and "distinct (map fst (nodes (rs_lru t)))"
    using s t ring_ok_keys_distinct [of re_el] by (auto simp: ram_core_def ring_ok_def)
  then have fresh: "\<forall>n \<in> set rest \<union> set seen. snd n \<noteq> ek" and dist: "distinct (map fst ((moved @ rest) @ [(i, ek)]))"
    by (auto simp: split_s split_t)
  have "re_el ev = i"
    using t ev ring_ok_node [of re_el "rs_items t" "rs_lru t" i ek] split_t by (auto simp: ram_core_def)
  then have mv: "nodes (MoveToFront (re_el ev) (rs_lru t)) = ((i, ek) # moved) @ rest"
    and rm: "nodes (list_Remove i (rs_lru t)) = moved @ rest"
    using filter_fst_last [OF dist] split_t by (simp_all add: MoveToFront_def list_Remove_def)
  show "first_sweep s (clock_second ek ev t)" if "re_ref ev"
    unfolding first_sweep_def
    by (rule exI [where x = "(i, ek) # moved"], rule exI [where x = rest], rule exI [where x = "(i, ek) # seen"])
      (use that mv split_s same passed fresh ev in auto)
  show "first_sweep s (clock_victim i ek ev t)" if "\<not> re_ref ev"
    unfolding first_sweep_def
    by (rule exI [where x = moved], rule exI [where x = rest], rule exI [where x = "(i, ek) # seen"])
      (use that rm split_s same passed fresh ev in auto)
qed

lemma clockEvict_sweep:
  assumes "ram_core s"
  shows "unreferenced_gone s (clockEvict sz s) \<or> first_sweep s (clockEvict sz s)"
proof -
  let ?P = "\<lambda>t. ram_core t \<and> (unreferenced_gone s t \<or> first_sweep s t)"
  have step: "(re_ref ev \<longrightarrow> ?P (clock_second ek ev t)) \<and> (\<not> re_ref ev \<longrightarrow> ?P (clock_victim i ek ev t))"
    if t: "?P t" and bk: "list_Back (rs_lru t) = Some (i, ek)" and ev: "map_of (rs_items t) ek = Some ev"
    for t i ek ev
  proof -
    have "re_el ev = i" using t bk ev by (auto simp: ram_core_def elim: ring_ok_Back)
    then have core: "ram_core (clock_second ek ev t)" "ram_core (clock_victim i ek ev t)"
      using t ev ram_core_second ram_core_remove by blast+
    have gone: "unreferenced_gone s (clock_second ek ev t)" "unreferenced_gone s (clock_victim i ek ev t)"
      if "unreferenced_gone s t"
      using that ev unfolding unreferenced_gone_def by (auto, metis option.distinct(1))
    show ?thesis
    proof (cases "unreferenced_gone s t")
      case False
      with t have fs: "first_sweep s t" by blast
      then obtain moved rest seen where *: "nodes (rs_lru s) = rest @ seen" "nodes (rs_lru t) = moved @ rest"
        "\<forall>n \<in> set rest. map_of (rs_items t) (snd n) = map_of (rs_items s) (snd n)"
        "\<forall>n \<in> set seen. \<forall>e. map_of (rs_items s) (snd n) = Some e \<longrightarrow> (re_ref e \<longleftrightarrow> map_of (rs_items t) (snd n) \<noteq> None)"
        unfolding first_sweep_def by blast
      from False first_sweep_end [OF assms fs] * have "rest \<noteq> []" by force
      then obtain rest' where rest: "rest = rest' @ [(i, ek)]"
        using bk *(2) by (cases rest rule: rev_cases) (auto simp: list_Back_def)
      note st = first_sweep_step [OF assms conjunct1 [OF t] *(1) [unfolded rest] *(2) [unfolded rest]
        *(3) [unfolded rest] *(4) ev]
      show ?thesis using st core by blast
    qed (use gone core in blast)
  qed
  have base: "?P s"
    using assms unfolding first_sweep_def
    by (intro conjI disjI2 exI [where x = "[]"] exI [where x = "nodes (rs_lru s)"]) auto
  have "?P (clockEvict sz s)"
    using base
  proof (rule clockEvict_rule)
    fix t i ek
    assume "?P t" "list_Back (rs_lru t) = Some (i, ek)" "map_of (rs_items t) ek = None"
    then show "?P (clock_stale i t)" by (auto simp: ram_core_def elim: ring_ok_Back)
  qed (use step in blast)+
  then show ?thesis by blast
qed

lemma clockEvict_second_chance:
  assumes "ram_core s" and "map_of (rs_items s) k = Some e" and "re_ref e"
    and "map_of (rs_items (clockEvict sz s)) k = None"
  shows "unreferenced_gone s (clockEvict sz s)"
proof -
  have "\<not> first_sweep s (clockEvict sz s)"
  proof
    assume "first_sweep s (clockEvict sz s)"
    then obtain moved rest seen where "nodes (rs_lru s) = rest @ seen"
      and "\<forall>n \<in> set rest. map_of (rs_items (clockEvict sz s)) (snd n) = map_of (rs_items s) (snd n)"
      and "\<forall>n \<in> set seen. \<forall>e. map_of (rs_items s) (snd n) = Some e \<longrightarrow>
        (re_ref e \<longleftrightarrow> map_of (rs_items (clockEvict sz s)) (snd n) \<noteq> None)"
      unfolding first_sweep_def by blast
    moreover have "(re_el e, k) \<in> set (nodes (rs_lru s))"
      using assms by (auto simp: ram_core_def intro: ring_ok_entry)
    ultimately show False using assms by fastforce
  qed
  with clockEvict_sweep [OF assms(1), of sz] show ?thesis by blast
qed

text \<open>A concrete run: a writer is opened on a small tier, writes three bytes and is committed.\<close>

lemma sample_run:
  obtains w r w' r' where
    "ram_reachable 100 50 80 r [w]" and "ram_reachable 100 50 80 r' [w']"
    and "buffered w = 3" and "ram_Bytes r' = 3" and "fst (ram_Get ''k'' r') \<noteq> None"
proof -
  let ?r0 = "NewRAMTier 100 50 80" and ?w0 = "ram_Writer (sample_meta ''k'')"
  let ?w1 = "?w0\<lparr>rw_reserved := 3, rw_buf := Some ''abc''\<rparr>" and ?r1 = "?r0\<lparr>rt_inflightBytes := 3\<rparr>"
  have w1: "ram_Write ''abc'' ?w0 ?r0 = Some (3, ?w1, ?r1)"
    by (simp add: ram_Write_def ram_Writer_def NewRAMTier_def Let_def reserve_def shardCount_def)
  have "map_option (\<lambda>(w, r). (ram_Bytes r, fst (ram_Get ''k'' r) = None)) (ram_Commit ?w1 ?r1) = Some (3, False)"
    by code_simp
  then obtain w2 r2 where w2: "ram_Commit ?w1 ?r1 = Some (w2, r2)" "ram_Bytes r2 = 3" "fst (ram_Get ''k'' r2) \<noteq> None"
    by auto
  have steps: "ram_step (?r0, []) (?r0, [?w0])" "ram_step (?r0, [?w0]) (?r1, [?w1])"
    "ram_step (?r1, [?w1]) (r2, [w2])"
    using ram_step.Open [of ?r0 "[]" "sample_meta ''k''"] ram_step.Write [of 0 "[?w0]" "''abc''" ?r0 3 ?w1 ?r1]
      ram_step.Commit [of 0 "[?w1]" ?r1 w2 r2] w1 w2(1) by simp_all
  have c1: "ram_step\<^sup>*\<^sup>* (?r0, []) (?r1, [?w1])"
    using steps(1,2) by (meson r_into_rtranclp rtranclp_trans)
  moreover have "ram_step\<^sup>*\<^sup>* (?r0, []) (r2, [w2])"
    using c1 steps(3) by (rule rtranclp.rtrancl_into_rtrancl)
  moreover have "buffered ?w1 = 3" by (simp add: buffered_def)
  ultimately show ?thesis using that [of ?r1 ?w1 r2 w2] w2 by (simp add: ram_reachable_def)
qed

subsection \<open>Properties\<close>

text \<open>C18: the memory guard. With a positive in-flight budget, in every reachable configuration the
  in-flight counter is exactly the number of bytes all writers buffer, that number is within the
  budget, and no writer buffers more than the per-object cap.\<close>

theorem ram_inflight_guard:
  assumes "ram_reachable maxBytes maxObject budget r ws" and "budget > 0"
  shows "rt_inflightBytes r = sum_list (map buffered ws) \<and> sum_list (map buffered ws) \<le> budget \<and>
    (maxObject > 0 \<longrightarrow> list_all (\<lambda>w. buffered w \<le> maxObject) ws)"
proof -
  have ok: "inflight_ok (r, ws)" and c: "rt_maxObjectBytes r = maxObject" "rt_inflightBudget r = budget"
    using ram_reachable_inv [OF assms(1)] by simp_all
  then have "map rw_reserved ws = map buffered ws" by (auto simp: inflight_ok_def)
  with ok c assms(2) show ?thesis by (simp add: inflight_ok_def list_all_iff)
qed

theorem ram_inflight_guard_witness:
  "\<exists>r w. ram_reachable 100 50 80 r [w] \<and> buffered w = 3 \<and> rt_inflightBytes r = 3 \<and> buffered w \<le> 50"
proof -
  obtain r w where rw: "ram_reachable 100 50 80 r [w]" "buffered w = 3" using sample_run by metis
  then have "rt_inflightBytes r = 3 \<and> buffered w \<le> 50" using ram_inflight_guard [OF rw(1)] by simp
  with rw show ?thesis by blast
qed

text \<open>a whole writer session on the tier. Opening a writer, writing any chunks and committing
  never fails; the session either overflowed, and then stores nothing and disturbs nothing, or it is
  stored exactly when the body fits the owning shard, and then a read of the key returns the
  concatenation of the chunks under the writer's metadata with the size filled in.\<close>

theorem ram_session_roundtrip:
  assumes "ram_ok r"
  shows "\<exists>w r1 w' r2. ram_Writes ps (ram_Writer m) r = Some (w, r1) \<and> ram_Commit w r1 = Some (w', r2) \<and> ram_ok r2 \<and>
    (rw_overflow w \<longrightarrow> \<not> rw_stored w' \<and> ram_view r2 = ram_view r) \<and>
    (\<not> rw_overflow w \<longrightarrow>
       (rw_stored w' \<longleftrightarrow> int (length (concat ps)) \<le> rs_maxBytes (ram_shard r (Key m))) \<and>
       (rw_stored w' \<longrightarrow>
          fst (ram_Get (Key m) r2) = Some (m\<lparr>Size := int (length (concat ps))\<rparr>, concat ps)))"
proof -
  obtain w r1 where wr: "ram_Writes ps (ram_Writer m) r = Some (w, r1)"
    using ram_Writes_total [of "ram_Writer m" ps r] by (auto simp: ram_Writer_def)
  have w: "rw_meta w = m" "\<not> rw_stored w" "rt_shards r1 = rt_shards r" "rt_maxBytes r1 = rt_maxBytes r"
    "rw_overflow w \<or> rw_buf w = Some (concat ps)"
    using ram_Writes_result [OF wr, of "[]"] by (auto simp: ram_Writer_def)
  note cong = ram_ok_cong [OF w(4,3)]
  have r1: "ram_ok r1" using assms cong by simp
  have sh: "ram_shard r1 (Key m) = ram_shard r (Key m)" using w by (simp add: ram_shard_def)
  show ?thesis
  proof (cases "rw_overflow w")
    case True
    with wr w r1 cong show ?thesis by (simp add: ram_Commit_def)
  next
    case False
    let ?b = "concat ps"
    let ?c = "ram_commit m ?b r1"
    have co: "ram_Commit w r1 = Some (w\<lparr>rw_stored := fst ?c, rw_buf := None, rw_reserved := 0\<rparr>,
        release (rw_reserved w) (snd ?c))"
      using False w by (simp add: ram_Commit_def case_prod_beta)
    have st: "fst ?c \<longleftrightarrow> int (length ?b) \<le> rs_maxBytes (ram_shard r (Key m))"
      using sh by (simp add: ram_commit_def case_prod_beta shard_commit_stored)
    have ok: "ram_ok (release (rw_reserved w) (snd ?c))" using ram_commit_ok [OF r1] by simp
    have "fst (ram_Get (Key m) (release (rw_reserved w) (snd ?c))) = Some (m\<lparr>Size := int (length ?b)\<rparr>, ?b)"
      if "fst ?c"
      using that ram.get_result [OF ok] ram_commit_view [OF r1] by simp
    with wr co st ok False show ?thesis by simp
  qed
qed

theorem ram_session_roundtrip_witness:
  "\<exists>w r1 w' r2. ram_Writes [''ab'', ''c''] (ram_Writer (sample_meta ''k'')) (NewRAMTier 100 50 80) = Some (w, r1) \<and>
    ram_Commit w r1 = Some (w', r2) \<and> rw_stored w' \<and>
    fst (ram_Get ''k'' r2) = Some ((sample_meta ''k'')\<lparr>Size := 3\<rparr>, ''abc'')"
proof -
  have ok: "ram_ok (NewRAMTier 100 50 80)" by (rule NewRAMTier_ok)
  have "map_option (\<lambda>(w, r). rw_overflow w)
      (ram_Writes [''ab'', ''c''] (ram_Writer (sample_meta ''k'')) (NewRAMTier 100 50 80)) = Some False"
    and "rs_maxBytes (ram_shard (NewRAMTier 100 50 80) ''k'') = 100"
    by code_simp+
  with ram_session_roundtrip [OF ok, of "[''ab'', ''c'']" "sample_meta ''k''"] show ?thesis
    by (auto simp: sample_meta_def)
qed

text \<open>second chance. Whatever a commit has to evict, it evicts an object that was read since it
  was stored or last passed over only if every object of the shard that was not is evicted too.\<close>

theorem ram_second_chance:
  assumes "ram_shard_ok s" and "fst (shard_commit m d s)"
    and "map_of (rs_items s) k = Some e" and "re_ref e" and "k \<noteq> Key m"
    and "shard_view (snd (shard_commit m d s)) k = None"
    and "map_of (rs_items s) k' = Some e'" and "\<not> re_ref e'" and "k' \<noteq> Key m"
  shows "shard_view (snd (shard_commit m d s)) k' = None"
proof -
  let ?s = "case map_of (rs_items s) (Key m) of None \<Rightarrow> s | Some old \<Rightarrow> clock_victim (re_el old) (Key m) old s"
  let ?t = "clockEvict (int (length d)) ?s"
  have core: "ram_core ?s"
    using assms(1) by (auto simp: ram_shard_ok_def split: option.split intro: ram_core_remove)
  have look: "map_of (rs_items ?s) j = map_of (rs_items s) j" if "j \<noteq> Key m" for j
    using that by (simp split: option.split)
  have res: "shard_view (snd (shard_commit m d s)) j = shard_view ?t j" if "j \<noteq> Key m" for j
    using that assms(2) by (auto simp: shard_commit_eq commit_room_def Let_def shard_view_def split: if_splits)
  have "unreferenced_gone ?s ?t"
    using clockEvict_second_chance [OF core, of k e "int (length d)"] assms res [of k] look [of k]
    by (simp add: shard_view_def)
  then show ?thesis
    using assms res [of k'] look [of k'] by (auto simp: unreferenced_gone_def shard_view_def)
qed

theorem ram_second_chance_witness:
  "let s0 = snd (shard_commit (sample_meta ''b'') ''yy'' (snd (shard_commit (sample_meta ''a'') ''xx'' (newRamShard 6))));
       s = snd (shard_Get ''a'' s0);
       s' = snd (shard_commit (sample_meta ''c'') ''zzzzzz'' s)
   in shard_view s ''a'' \<noteq> None \<and> shard_view s' ''a'' = None \<and> shard_view s ''b'' \<noteq> None \<and> shard_view s' ''b'' = None"
proof -
  let ?s0 = "snd (shard_commit (sample_meta ''b'') ''yy'' (snd (shard_commit (sample_meta ''a'') ''xx'' (newRamShard 6))))"
  let ?s = "snd (shard_Get ''a'' ?s0)"
  have ok: "ram_shard_ok ?s" by (intro shard_Get_ok shard_commit_ok newRamShard_ok)
  have "map_option re_ref (map_of (rs_items ?s) ''a'') = Some True"
    "map_option re_ref (map_of (rs_items ?s) ''b'') = Some False"
    "fst (shard_commit (sample_meta ''c'') ''zzzzzz'' ?s)"
    "shard_view (snd (shard_commit (sample_meta ''c'') ''zzzzzz'' ?s)) ''a'' = None"
    by code_simp+
  moreover have "''a'' \<noteq> Key (sample_meta ''c'')" "''b'' \<noteq> Key (sample_meta ''c'')" by (simp_all add: sample_meta_def)
  ultimately show ?thesis
    using ram_second_chance [OF ok, of "sample_meta ''c''" "''zzzzzz''" "''a''" _ "''b''"]
    by (auto simp: Let_def shard_view_def)
qed

end
