(* ===== verification/RamHistory.thy ===== *)
theory RamHistory
  imports RamWriters
begin

text \<open>
  What the in-memory tier (\<open>internal/cache/ram.go\<close>) returns, told from the calls made on it. A trace
  is the list of calls, the last one first, and fixes for every key the object that the last
  successful commit under it stored, unless it was purged since. The tier holds a part of this
  unbounded store, within its byte budget.
\<close>

subsection \<open>Traces\<close>

datatype ram_event =
    EOpen ObjectMeta | EWrite nat bytes | ECommit nat bool | EAbort nat | ERead string | EPurge string | EReset

text \<open>A commit is recorded with what \<open>Stored\<close> reports afterwards.\<close>

inductive ram_call :: "ram_event \<Rightarrow> RAMTier \<times> ramWriter list \<Rightarrow> RAMTier \<times> ramWriter list \<Rightarrow> bool" where
  Open: "ram_call (EOpen m) (r, ws) (r, ws @ [ram_Writer m])"
| Write: "i < length ws \<Longrightarrow> ram_Write p (ws ! i) r = Some (n, w', r') \<Longrightarrow> ram_call (EWrite i p) (r, ws) (r', ws[i := w'])"
| Commit: "i < length ws \<Longrightarrow> ram_Commit (ws ! i) r = Some (w', r') \<Longrightarrow> ram_call (ECommit i (rw_stored w')) (r, ws) (r', ws[i := w'])"
| Abort: "i < length ws \<Longrightarrow> ram_Abort (ws ! i) r = (w', r') \<Longrightarrow> ram_call (EAbort i) (r, ws) (r', ws[i := w'])"
| Read: "ram_call (ERead k) (r, ws) (snd (ram_Get k r), ws)"
| Purge: "ram_call (EPurge k) (r, ws) (ram_Delete k r, ws)"
| Reset: "ram_call EReset (r, ws) (ram_Reset r, ws)"

inductive ram_trace :: "int \<Rightarrow> int \<Rightarrow> int \<Rightarrow> ram_event list \<Rightarrow> RAMTier \<times> ramWriter list \<Rightarrow> bool"
  for maxBytes maxObject budget where
  Start: "ram_trace maxBytes maxObject budget [] (NewRAMTier maxBytes maxObject budget, [])"
| Call: "ram_trace maxBytes maxObject budget es c \<Longrightarrow> ram_call e c c' \<Longrightarrow> ram_trace maxBytes maxObject budget (e # es) c'"

text \<open>Traces and steps reach the same configurations.\<close>

lemma ram_call_step: "ram_step c c' \<longleftrightarrow> (\<exists>e. ram_call e c c')"
proof
  show "\<exists>e. ram_call e c c'" if "ram_step c c'"
    using that by cases (blast intro: ram_call.intros)+
  show "ram_step c c'" if "\<exists>e. ram_call e c c'"
    using that by (auto elim!: ram_call.cases intro: ram_step.intros)
qed

lemma ram_trace_reachable: "ram_reachable m ob bu r ws \<longleftrightarrow> (\<exists>es. ram_trace m ob bu es (r, ws))"
proof -
  have "ram_step\<^sup>*\<^sup>* (NewRAMTier m ob bu, []) c \<longleftrightarrow> (\<exists>es. ram_trace m ob bu es c)" for c
  proof
    show "\<exists>es. ram_trace m ob bu es c" if "ram_step\<^sup>*\<^sup>* (NewRAMTier m ob bu, []) c"
      using that by induction (auto simp: ram_call_step intro: ram_trace.intros)
    show "ram_step\<^sup>*\<^sup>* (NewRAMTier m ob bu, []) c" if "\<exists>es. ram_trace m ob bu es c"
    proof -
      from that obtain es where "ram_trace m ob bu es c" by blast
      then show ?thesis by induction (auto simp: ram_call_step intro: rtranclp.rtrancl_into_rtrancl)
    qed
  qed
  then show ?thesis by (simp add: ram_reachable_def)
qed

subsection \<open>The unbounded store\<close>

text \<open>The metadata the sessions were opened with, the bytes written in one, and the object last
  stored under a key.\<close>

fun opened :: "ram_event list \<Rightarrow> ObjectMeta list" where
  "opened [] = []"
| "opened (EOpen m # es) = opened es @ [m]"
| "opened (e # es) = opened es"

fun written :: "nat \<Rightarrow> ram_event list \<Rightarrow> bytes" where
  "written i [] = []"
| "written i (EWrite j p # es) = (if j = i then written i es @ p else written i es)"
| "written i (e # es) = written i es"

fun last_stored :: "ram_event list \<Rightarrow> string \<Rightarrow> obj option" where
  "last_stored [] k = None"
| "last_stored (ECommit i ok # es) k =
     (if ok \<and> Key (opened es ! i) = k
      then Some ((opened es ! i)\<lparr>Size := int (length (written i es))\<rparr>, written i es) else last_stored es k)"
| "last_stored (EPurge k' # es) k = (if k' = k then None else last_stored es k)"
| "last_stored (EReset # es) k = None"
| "last_stored (e # es) k = last_stored es k"

text \<open>A session that did not overflow has buffered what was written in it.\<close>

definition session_ok :: "ram_event list \<Rightarrow> nat \<Rightarrow> ramWriter \<Rightarrow> bool" where
  "session_ok es i w \<longleftrightarrow> rw_meta w = opened es ! i \<and>
     (if rw_overflow w then \<not> rw_stored w else rw_buf w = None \<or> rw_buf w = Some (written i es) \<and> \<not> rw_stored w)"

definition history_ok :: "ram_event list \<Rightarrow> RAMTier \<times> ramWriter list \<Rightarrow> bool" where
  "history_ok es c \<longleftrightarrow>
     (case c of (r, ws) \<Rightarrow>
        ram_ok r \<and> length ws = length (opened es) \<and> (\<forall>i < length ws. session_ok es i (ws ! i)) \<and>
        (\<forall>k. ram_view r k = None \<or> ram_view r k = last_stored es k) \<and>
        (\<forall>i. length (opened es) \<le> i \<longrightarrow> written i es = []))"

lemma ram_call_history:
  assumes "ram_call e c c'" and "history_ok es c"
  shows "history_ok (e # es) c'"
  using assms
proof (induction rule: ram_call.induct)
  case (Open m r ws)
  then show ?case by (auto simp: history_ok_def session_ok_def ram_Writer_def nth_append less_Suc_eq)
next
  case (Write i ws p r n w' r')
  note t = ram_Write_tier [OF Write.hyps(2)]
  have live: "rw_overflow (ws ! i) \<or> rw_buf (ws ! i) \<noteq> None" using Write.hyps(2) by (auto simp: ram_Write_def split: if_splits option.splits)
  have w: "session_ok es i (ws ! i)" using Write by (simp add: history_ok_def)
  have "session_ok (EWrite i p # es) i w'"
    using Write.hyps(2) w live by (cases rule: ram_Write_cases) (auto simp: session_ok_def dropBuffer_def split: if_splits)
  then show ?case using Write.prems Write.hyps(1) ram_ok_cong [OF t(2,1)]
    by (auto simp: history_ok_def session_ok_def nth_list_update)
next
  case (Commit i ws r w' r')
  then have h: "ram_ok r" "session_ok es i (ws ! i)" by (simp_all add: history_ok_def)
  have old: "ram_view r k = None \<or> ram_view r k = last_stored es k" for k using Commit.prems by (simp add: history_ok_def)
  have w': "session_ok (ECommit i (rw_stored w') # es) i w'"
    using Commit.hyps(2) h(2) by (cases rule: ram_Commit_cases) (auto simp: session_ok_def)
  have "ram_ok r' \<and> (\<forall>k. ram_view r' k = None \<or> ram_view r' k = last_stored (ECommit i (rw_stored w') # es) k)"
    using Commit.hyps(2)
  proof (cases rule: ram_Commit_cases)
    case overflow
    then show ?thesis using h Commit.prems by (auto simp: history_ok_def session_ok_def)
  next
    case (buffered b)
    then have b: "b = written i es" "rw_meta (ws ! i) = opened es ! i" using h(2) by (simp_all add: session_ok_def)
    let ?c = "ram_commit (opened es ! i) (written i es) r"
    have eq: "ram_view r' = ram_view (snd ?c)" "ram_ok r'" "rw_stored w' = fst ?c"
      using buffered b ram_commit_ok [OF h(1)] by simp_all
    have "ram_view (snd ?c) k = None \<or> ram_view (snd ?c) k = last_stored (ECommit i (fst ?c) # es) k" for k
      using ram_commit_view [OF h(1), of "opened es ! i" "written i es"]
        ram_commit_view_other [OF h(1), of k "opened es ! i" "written i es"] old [of k]
      by auto
    then show ?thesis using eq by simp
  qed
  then show ?case using Commit w' by (auto simp: history_ok_def session_ok_def nth_list_update)
next
  case (Abort i ws r w' r')
  then show ?case by (auto simp: history_ok_def session_ok_def ram_Abort_def nth_list_update)
next
  case (Read k r ws)
  then show ?case using ram_Get_ok ram_Get_view by (auto simp: history_ok_def session_ok_def)
next
  case (Purge k r ws)
  then show ?case using ram_Delete_ok ram_Delete_view by (auto simp: history_ok_def session_ok_def)
next
  case (Reset r ws)
  then show ?case using ram_Reset_ok ram_Reset_view by (auto simp: history_ok_def session_ok_def)
qed

lemma ram_trace_history: "ram_trace m ob bu es c \<Longrightarrow> history_ok es c"
proof (induction rule: ram_trace.induct)
  case Start
  have "ram_view (NewRAMTier m ob bu) k = None" for k
    using ram_index_less [OF NewRAMTier_ok [of m ob bu], of k]
    by (simp add: ram_view_def ram_shard_def NewRAMTier_def Let_def newRamShard_def shard_view_def)
  then show ?case by (simp add: history_ok_def NewRAMTier_ok)
qed (rule ram_call_history)

text \<open>C4: Whatever calls concurrent writers, readers, purges and resets make on the tier, it reports no
  more bytes than its budget, and a read returns nothing or exactly the object last stored under the
  key: the metadata its session was opened with and all bytes written in it, by the last session on
  the key that stored and with no purge since.\<close>

theorem ram_budget_safe:
  assumes "ram_trace maxBytes maxObject budget es (r, ws)"
  shows "0 \<le> ram_Bytes r \<and> ram_Bytes r \<le> max 0 maxBytes \<and>
    (\<forall>k. fst (ram_Get k r) = None \<or> fst (ram_Get k r) = last_stored es k)"
proof -
  have "ram_reachable maxBytes maxObject budget r ws" using assms ram_trace_reachable by blast
  then have r: "ram_ok r" and m: "rt_maxBytes r = maxBytes" using ram_reachable_inv by simp_all
  moreover have "history_ok es (r, ws)" using assms by (rule ram_trace_history)
  ultimately show ?thesis using ram.used_budget [OF r] by (simp add: history_ok_def ram_Get_view)
qed

theorem ram_budget_safe_witness:
  "\<exists>r ws. ram_trace 100 50 80 [ECommit 0 True, EWrite 0 ''c'', EWrite 0 ''ab'', EOpen (sample_meta ''k'')] (r, ws) \<and>
    ram_Bytes r = 3 \<and> ram_Bytes r \<le> 100 \<and> fst (ram_Get ''k'' r) = Some ((sample_meta ''k'')\<lparr>Size := 3\<rparr>, ''abc'')"
proof -
  let ?r0 = "NewRAMTier 100 50 80" and ?w0 = "ram_Writer (sample_meta ''k'')"
  let ?w1 = "?w0\<lparr>rw_reserved := 2, rw_buf := Some ''ab''\<rparr>" and ?r1 = "?r0\<lparr>rt_inflightBytes := 2\<rparr>"
  let ?w2 = "?w0\<lparr>rw_reserved := 3, rw_buf := Some ''abc''\<rparr>" and ?r2 = "?r0\<lparr>rt_inflightBytes := 3\<rparr>"
  have w1: "ram_Write ''ab'' ?w0 ?r0 = Some (2, ?w1, ?r1)" and w2: "ram_Write ''c'' ?w1 ?r1 = Some (1, ?w2, ?r2)"
    by (simp_all add: ram_Write_def ram_Writer_def NewRAMTier_def Let_def reserve_def shardCount_def)
  have "map_option (\<lambda>(w, r). (rw_stored w, ram_Bytes r, fst (ram_Get ''k'' r) = None)) (ram_Commit ?w2 ?r2) = Some (True, 3, False)"
    by code_simp
  then obtain w3 r3 where w3: "ram_Commit ?w2 ?r2 = Some (w3, r3)" "rw_stored w3" "ram_Bytes r3 = 3" "fst (ram_Get ''k'' r3) \<noteq> None"
    by auto
  have calls: "ram_call (EOpen (sample_meta ''k'')) (?r0, []) (?r0, [?w0])" "ram_call (EWrite 0 ''ab'') (?r0, [?w0]) (?r1, [?w1])"
    "ram_call (EWrite 0 ''c'') (?r1, [?w1]) (?r2, [?w2])" "ram_call (ECommit 0 True) (?r2, [?w2]) (r3, [w3])"
    using ram_call.Open [of "sample_meta ''k''" ?r0 "[]"] ram_call.Write [of 0 "[?w0]" "''ab''" ?r0 2 ?w1 ?r1]
      ram_call.Write [of 0 "[?w1]" "''c''" ?r1 1 ?w2 ?r2] ram_call.Commit [of 0 "[?w2]" ?r2 w3 r3] w1 w2 w3(1,2) by simp_all
  then have t: "ram_trace 100 50 80 [ECommit 0 True, EWrite 0 ''c'', EWrite 0 ''ab'', EOpen (sample_meta ''k'')] (r3, [w3])"
    by (intro ram_trace.Call [OF _ calls(4)] ram_trace.Call [OF _ calls(3)] ram_trace.Call [OF _ calls(2)] ram_trace.Call [OF _ calls(1)] ram_trace.Start)
  have stored: "last_stored [ECommit 0 True, EWrite 0 ''c'', EWrite 0 ''ab'', EOpen (sample_meta ''k'')] ''k'' = Some ((sample_meta ''k'')\<lparr>Size := 3\<rparr>, ''abc'')"
    by code_simp
  have "fst (ram_Get ''k'' r3) = Some ((sample_meta ''k'')\<lparr>Size := 3\<rparr>, ''abc'')"
    using ram_budget_safe [OF t] w3(4) stored by metis
  with t w3(3) show ?thesis by auto
qed

end
