(* ===== verification/GoStrings.thy ===== *)
theory GoStrings
  imports Prelude
begin

text \<open>
  The parts of Go's standard library on strings that the modelled code uses: \<open>strings\<close>,
  \<open>strconv\<close>, \<open>unicode/utf8\<close> and the string coding of \<open>encoding/json\<close>. A Go string is its list of
  bytes.
\<close>

subsection \<open>UTF-8\<close>

abbreviation byte :: "char \<Rightarrow> nat" where
  "byte c \<equiv> of_char c"

definition cont :: "char \<Rightarrow> bool" where
  "cont c \<longleftrightarrow> 128 \<le> byte c \<and> byte c < 192"

text \<open>The length in bytes of the well-formed sequence at the head of the string, 0 when there is
  none: overlong forms, surrogates and values above \<open>U+10FFFF\<close> are ill-formed.\<close>

definition lead_len :: "nat \<Rightarrow> nat" where
  "lead_len b =
     (if b < 128 then 1
      else if 194 \<le> b \<and> b < 224 then 2
      else if 224 \<le> b \<and> b < 240 then 3
      else if 240 \<le> b \<and> b < 245 then 4
      else 0)"

definition second_ok :: "nat \<Rightarrow> nat \<Rightarrow> bool" where
  "second_ok b b1 \<longleftrightarrow>
     (b = 224 \<longrightarrow> 160 \<le> b1) \<and> (b = 237 \<longrightarrow> b1 < 160) \<and> (b = 240 \<longrightarrow> 144 \<le> b1) \<and> (b = 244 \<longrightarrow> b1 < 144)"

definition rune_len :: "string \<Rightarrow> nat" where
  "rune_len s =
     (case s of
        [] \<Rightarrow> 0
      | c # cs \<Rightarrow>
          (let n = lead_len (byte c) in
           if n \<le> length s \<and> list_all cont (take (n - 1) cs) \<and> (n > 1 \<longrightarrow> second_ok (byte c) (byte (cs ! 0)))
           then n else 0))"

lemma rune_len_Nil [simp]: "rune_len [] = 0"
  by (simp add: rune_len_def)

lemma rune_len_le: "rune_len s \<le> length s"
  by (simp add: rune_len_def Let_def split: list.split)

lemma rune_len_append: "rune_len s > 0 \<Longrightarrow> rune_len (s @ t) = rune_len s"
  by (cases s) (auto simp: rune_len_def Let_def nth_append split: if_splits)

lemma rune_len_take: "rune_len (take (rune_len s) s) = rune_len s"
proof (cases "rune_len s")
  case (Suc n)
  then obtain c cs where s: "s = c # cs" by (cases s) auto
  with Suc show ?thesis by (auto simp: rune_len_def Let_def take_Cons' split: if_splits)
qed (simp add: rune_len_def)

function valid_utf8 :: "string \<Rightarrow> bool" where
  "valid_utf8 s =
     (if s = [] then True
      else if rune_len s = 0 then False
      else valid_utf8 (drop (rune_len s) s))"
  by pat_completeness auto
termination by (relation "measure length") auto

declare valid_utf8.simps [simp del]

text \<open>\<open>json.Marshal\<close> followed by \<open>json.Unmarshal\<close> on a string: every byte that does not belong to a
  well-formed sequence becomes \<open>U+FFFD\<close>.\<close>

definition replacement :: string where
  "replacement = [char_of (239::nat), char_of (191::nat), char_of (189::nat)]"

function json_string :: "string \<Rightarrow> string" where
  "json_string s =
     (if s = [] then []
      else if rune_len s = 0 then replacement @ json_string (tl s)
      else take (rune_len s) s @ json_string (drop (rune_len s) s))"
  by pat_completeness auto
termination by (relation "measure length") auto

declare json_string.simps [simp del]

lemma valid_utf8_Nil [simp]: "valid_utf8 []"
  by (simp add: valid_utf8.simps)

lemma valid_utf8_step: "s \<noteq> [] \<Longrightarrow> valid_utf8 s \<longleftrightarrow> rune_len s \<noteq> 0 \<and> valid_utf8 (drop (rune_len s) s)"
  by (subst valid_utf8.simps) simp

lemma json_string_Nil [simp]: "json_string [] = []"
  by (simp add: json_string.simps)

lemma json_string_valid: "valid_utf8 s \<Longrightarrow> json_string s = s"
proof (induction s rule: valid_utf8.induct)
  case (1 s)
  then show ?case
    by (cases "s = []") (simp_all add: json_string.simps [of s] valid_utf8_step)
qed

lemma valid_utf8_append: "valid_utf8 s \<Longrightarrow> valid_utf8 t \<Longrightarrow> valid_utf8 (s @ t)"
proof (induction s rule: valid_utf8.induct)
  case (1 s)
  show ?case
  proof (cases "s = []")
    case False
    with "1.prems" have r: "rune_len s > 0" "valid_utf8 (drop (rune_len s) s)"
      by (simp_all add: valid_utf8_step)
    with "1.IH" False "1.prems" have "valid_utf8 (drop (rune_len s) s @ t)" by blast
    with r rune_len_append [OF r(1), of t] rune_len_le [of s] show ?thesis
      using False by (simp add: valid_utf8_step [of "s @ t"])
  qed (use "1.prems" in simp)
qed

lemma json_string_is_valid: "valid_utf8 (json_string s)"
proof (induction s rule: json_string.induct)
  case (1 s)
  show ?case
  proof (cases "s = []")
    case False
    have "valid_utf8 replacement" by code_simp
    moreover have "valid_utf8 (take (rune_len s) s)" if "rune_len s \<noteq> 0"
      using that rune_len_take [of s] valid_utf8_step [of "take (rune_len s) s"] False by simp
    ultimately show ?thesis
      using 1 False by (auto simp: json_string.simps [of s] intro: valid_utf8_append)
  qed simp
qed

lemma json_string_idem [simp]: "json_string (json_string s) = json_string s"
  by (rule json_string_valid [OF json_string_is_valid])

subsection \<open>Searching and splitting\<close>

definition HasPrefix :: "string \<Rightarrow> string \<Rightarrow> bool" where
  "HasPrefix s p \<longleftrightarrow> take (length p) s = p"

definition HasSuffix :: "string \<Rightarrow> string \<Rightarrow> bool" where
  "HasSuffix s p \<longleftrightarrow> length p \<le> length s \<and> drop (length s - length p) s = p"

lemma HasPrefix_iff: "HasPrefix s p \<longleftrightarrow> (\<exists>t. s = p @ t)"
proof
  assume "HasPrefix s p"
  then have "s = p @ drop (length p) s" unfolding HasPrefix_def by (metis append_take_drop_id)
  then show "\<exists>t. s = p @ t" ..
qed (auto simp: HasPrefix_def)

lemma HasSuffix_iff: "HasSuffix s p \<longleftrightarrow> (\<exists>t. s = t @ p)"
proof
  assume "HasSuffix s p"
  then have p: "drop (length s - length p) s = p" by (simp add: HasSuffix_def)
  have "take (length s - length p) s @ drop (length s - length p) s = s" by (rule append_take_drop_id)
  then show "\<exists>t. s = t @ p" unfolding p by metis
qed (auto simp: HasSuffix_def)

subsection \<open>Case and white space\<close>

definition lower_byte :: "char \<Rightarrow> char" where
  "lower_byte c = (if 65 \<le> byte c \<and> byte c \<le> 90 then char_of (byte c + 32) else c)"

text \<open>\<open>strings.ToLower\<close>. An ASCII string is mapped byte by byte. Otherwise the string is mapped rune by
  rune, a byte outside any well-formed sequence becoming \<open>U+FFFD\<close>. The two runes outside ASCII whose
  lower case is an ASCII letter (\<open>U+0130\<close> and \<open>U+212A\<close>) are mapped to it; other letters outside ASCII keep
  their case in the model, which does not change any comparison with an ASCII string.\<close>

definition lower_rune :: "string \<Rightarrow> string" where
  "lower_rune r =
     (if map byte r = [196, 176] then ''i''
      else if map byte r = [226, 132, 170] then ''k''
      else map lower_byte r)"

function lower_runes :: "string \<Rightarrow> string" where
  "lower_runes s =
     (if s = [] then []
      else if rune_len s = 0 then replacement @ lower_runes (tl s)
      else lower_rune (take (rune_len s) s) @ lower_runes (drop (rune_len s) s))"
  by pat_completeness auto
termination by (relation "measure length") auto

declare lower_runes.simps [simp del]

definition is_ascii :: "string \<Rightarrow> bool" where
  "is_ascii s \<longleftrightarrow> list_all (\<lambda>c. byte c < 128) s"

definition ToLower :: "string \<Rightarrow> string" where
  "ToLower s = (if is_ascii s then map lower_byte s else lower_runes s)"

lemma lower_byte_idem [simp]: "lower_byte (lower_byte c) = lower_byte c"
  by (simp add: lower_byte_def)

lemma lower_byte_ascii: "byte c < 128 \<Longrightarrow> byte (lower_byte c) < 128"
  by (simp add: lower_byte_def)

lemma ToLower_idem_ascii: "is_ascii s \<Longrightarrow> ToLower (ToLower s) = ToLower s"
  by (simp add: ToLower_def is_ascii_def list_all_iff lower_byte_ascii)

text \<open>\<open>strings.TrimSpace\<close>: the encodings of the runes with the White Space property.\<close>

definition go_spaces :: "string list" where
  "go_spaces =
     map (map char_of)
       ([[9], [10], [11], [12], [13], [32], [194, 133], [194, 160], [225, 154, 128]] @
        map (\<lambda>b. [226, 128, b]) [128..<139] @
        [[226, 128, 168], [226, 128, 169], [226, 128, 175], [226, 129, 159], [227, 128, 128 :: nat]])"

function TrimLeft_sp :: "string \<Rightarrow> string" where
  "TrimLeft_sp s =
     (case find (\<lambda>w. w \<noteq> [] \<and> HasPrefix s w) go_spaces of
        None \<Rightarrow> s
      | Some w \<Rightarrow> TrimLeft_sp (drop (length w) s))"
  by pat_completeness auto
termination
proof (relation "measure length", goal_cases)
  case (2 s w)
  then have "w \<noteq> []" and "HasPrefix s w" using find_SomeD by fastforce+
  then show ?case by (auto simp: HasPrefix_iff)
qed simp

declare TrimLeft_sp.simps [simp del]

function TrimRight_sp :: "string \<Rightarrow> string" where
  "TrimRight_sp s =
     (case find (\<lambda>w. w \<noteq> [] \<and> HasSuffix s w) go_spaces of
        None \<Rightarrow> s
      | Some w \<Rightarrow> TrimRight_sp (take (length s - length w) s))"
  by pat_completeness auto
termination
proof (relation "measure length", goal_cases)
  case (2 s w)
  then have "w \<noteq> []" and "HasSuffix s w" using find_SomeD by fastforce+
  then show ?case by (auto simp: HasSuffix_iff)
qed simp

declare TrimRight_sp.simps [simp del]

definition TrimSpace :: "string \<Rightarrow> string" where
  "TrimSpace s = TrimRight_sp (TrimLeft_sp s)"

text \<open>Trimming a string that begins or ends with an ASCII byte looks at that byte only, which makes
  examples quick to evaluate.\<close>

definition ascii_space :: "char \<Rightarrow> bool" where
  "ascii_space c \<longleftrightarrow> byte c = 32 \<or> 9 \<le> byte c \<and> byte c \<le> 13"

definition wide_spaces :: "string list" where
  "wide_spaces =
     map (map char_of)
       ([[194, 133], [194, 160], [225, 154, 128]] @ map (\<lambda>b. [226, 128, b]) [128..<139] @
        [[226, 128, 168], [226, 128, 169], [226, 128, 175], [226, 129, 159], [227, 128, 128 :: nat]])"

lemma go_spaces_split: "go_spaces = map (\<lambda>n. [char_of n]) [9, 10, 11, 12, 13, 32 :: nat] @ wide_spaces"
  by (simp add: go_spaces_def wide_spaces_def)

lemma wide_spaces_bytes: "list_all (\<lambda>w. w \<noteq> [] \<and> 128 \<le> byte (hd w) \<and> 128 \<le> byte (last w)) wide_spaces"
  by (simp add: wide_spaces_def)

lemma find_append_None: "\<forall>x \<in> set ys. \<not> P x \<Longrightarrow> find P (xs @ ys) = find P xs"
proof (induction xs)
  case Nil
  then have "find P ys = None" by (auto simp: find_None_iff)
  then show ?case by simp
qed auto

lemma char_of_eq_byte: "n < 256 \<Longrightarrow> char_of n = c \<longleftrightarrow> byte c = n"
  by (auto simp: char_of_eq_iff take_bit_eq_mod)

lemma find_ascii:
  assumes "\<forall>w. P w \<longrightarrow> w \<noteq> [] \<longrightarrow> length w = 1 \<longrightarrow> w = [c]" and "P [c]" and "byte c < 128"
    and "\<forall>w \<in> set wide_spaces. \<not> P w"
  shows "find (\<lambda>w. w \<noteq> [] \<and> P w) go_spaces = (if ascii_space c then Some [c] else None)"
proof -
  have "find (\<lambda>w. w \<noteq> [] \<and> P w) go_spaces = find (\<lambda>w. w \<noteq> [] \<and> P w) (map (\<lambda>n. [char_of n]) [9, 10, 11, 12, 13, 32 :: nat])"
    unfolding go_spaces_split using assms(4) by (intro find_append_None) auto
  moreover have "P [char_of n] \<longleftrightarrow> byte c = n" if "n < 256" for n :: nat
    using assms(1,2) char_of_eq_byte [OF that, of c] by (metis One_nat_def length_Cons list.distinct(1) list.inject list.size(3))
  ultimately show ?thesis using assms(3) char_of_eq_byte [of _ c] by (auto simp: ascii_space_def)
qed

lemma TrimLeft_sp_code [code]:
  "TrimLeft_sp s =
     (case s of
        [] \<Rightarrow> []
      | c # t \<Rightarrow>
          if byte c < 128 then (if ascii_space c then TrimLeft_sp t else s)
          else case find (\<lambda>w. HasPrefix s w) wide_spaces of None \<Rightarrow> s | Some w \<Rightarrow> TrimLeft_sp (drop (length w) s))"
proof (cases s)
  case Nil
  have "find (\<lambda>w. w \<noteq> [] \<and> HasPrefix [] w) go_spaces = None" by (auto simp: find_None_iff HasPrefix_def)
  with Nil show ?thesis by (simp add: TrimLeft_sp.simps [of "[]"])
next
  case (Cons c t)
  show ?thesis
  proof (cases "byte c < 128")
    case True
    have "\<not> HasPrefix s w" if "w \<in> set wide_spaces" for w
      using that wide_spaces_bytes True Cons by (fastforce simp: list_all_iff HasPrefix_iff Cons_eq_append_conv)
    then have "find (\<lambda>w. w \<noteq> [] \<and> HasPrefix s w) go_spaces = (if ascii_space c then Some [c] else None)"
      by (intro find_ascii [OF _ _ True]) (auto simp: Cons HasPrefix_def length_Suc_conv)
    with True Cons show ?thesis by (simp add: TrimLeft_sp.simps [of "c # t"])
  next
    case False
    have "find (\<lambda>w. w \<noteq> [] \<and> HasPrefix s w) go_spaces = find (\<lambda>w. HasPrefix s w) wide_spaces"
    proof -
      have "find (\<lambda>w. w \<noteq> [] \<and> HasPrefix s w) wide_spaces = find (\<lambda>w. HasPrefix s w) wide_spaces"
        using wide_spaces_bytes by (intro find_cong) (auto simp: list_all_iff)
      with False show ?thesis by (auto simp: go_spaces_split Cons HasPrefix_def)
    qed
    with False Cons show ?thesis by (simp add: TrimLeft_sp.simps [of "c # t"] split: option.split)
  qed
qed

lemma TrimRight_sp_code [code]:
  "TrimRight_sp s =
     (if s = [] then []
      else if byte (last s) < 128 then (if ascii_space (last s) then TrimRight_sp (butlast s) else s)
      else case find (\<lambda>w. HasSuffix s w) wide_spaces of None \<Rightarrow> s | Some w \<Rightarrow> TrimRight_sp (take (length s - length w) s))"
proof (cases s rule: rev_cases)
  case Nil
  have "find (\<lambda>w. w \<noteq> [] \<and> HasSuffix [] w) go_spaces = None" by (auto simp: find_None_iff HasSuffix_def)
  with Nil show ?thesis by (simp add: TrimRight_sp.simps [of "[]"])
next
  case (snoc t c)
  show ?thesis
  proof (cases "byte c < 128")
    case True
    have "\<not> HasSuffix s w" if "w \<in> set wide_spaces" for w
    proof
      assume "HasSuffix s w"
      moreover have "w \<noteq> []" using that wide_spaces_bytes by (auto simp: list_all_iff)
      ultimately have "last w = c" by (auto simp: HasSuffix_iff snoc dest: arg_cong [of _ _ last])
      with that wide_spaces_bytes True show False by (auto simp: list_all_iff)
    qed
    then have "find (\<lambda>w. w \<noteq> [] \<and> HasSuffix s w) go_spaces = (if ascii_space c then Some [c] else None)"
      by (intro find_ascii [OF _ _ True]) (auto simp: snoc HasSuffix_def length_Suc_conv)
    with True snoc show ?thesis by (simp add: TrimRight_sp.simps [of "t @ [c]"])
  next
    case False
    have "find (\<lambda>w. w \<noteq> [] \<and> HasSuffix s w) go_spaces = find (\<lambda>w. HasSuffix s w) wide_spaces"
    proof -
      have "find (\<lambda>w. w \<noteq> [] \<and> HasSuffix s w) wide_spaces = find (\<lambda>w. HasSuffix s w) wide_spaces"
        using wide_spaces_bytes by (intro find_cong) (auto simp: list_all_iff)
      with False show ?thesis by (auto simp: go_spaces_split snoc HasSuffix_def)
    qed
    with False snoc show ?thesis by (simp add: TrimRight_sp.simps [of "t @ [c]"] split: option.split)
  qed
qed

subsection \<open>\<open>path.Ext\<close>\<close>

text \<open>The suffix from the last dot of the last path element.\<close>

definition path_Ext :: "string \<Rightarrow> string" where
  "path_Ext p =
     (let base = rev (takeWhile (\<lambda>c. c \<noteq> CHR ''/'') (rev p))
      in if CHR ''.'' \<in> set base then CHR ''.'' # rev (takeWhile (\<lambda>c. c \<noteq> CHR ''.'') (rev base)) else [])"

end
