(* ===== verification/DiskTier.thy ===== *)
theory DiskTier
  imports CacheTypes GoList Shard GoStrings
begin

text \<open>
  The disk tier, \<open>internal/cache/disk.go\<close>: blobs in a directory, an in-memory index sharded like
  the RAM tier's with exact LRU order per shard, and a persisted copy of the index.

  The directory is part of the state: \<open>blobs\<close> maps a file name under \<open>blobs/\<close> to its content, and
  \<open>index_file\<close> is what reading \<open>index.json\<close> gives. The name of a key's blob, the hexadecimal SHA-256
  of the key, is the parameter \<open>h\<close>; \<open>blob_names h\<close> says what is used of it. What the operating system
  answers during one call is the record \<open>os_env\<close>; every answer may be a failure. A loop that may not
  end is a \<open>partial_function\<close> on options, so that \<^const>\<open>None\<close> is the outcome of not returning.
\<close>

subsection \<open>State\<close>

type_synonym blobs = "string \<Rightarrow> bytes option"

datatype index_file = NoIndex | Unreadable | Corrupt | Entries "ObjectMeta list"

record os_env =
  os_access :: "string \<Rightarrow> bool"
  os_remove :: "string \<Rightarrow> bool"
  os_rename :: bool
  os_close :: bool
  os_index :: bool
  os_readdir :: bool
  os_mkdir :: bool
  os_now :: int

record diskEntry =
  de_meta :: ObjectMeta
  de_el :: nat

record diskShard =
  ds_maxBytes :: int
  ds_curBytes :: int
  ds_atomicBytes :: int
  ds_items :: "diskEntry gomap"
  ds_lru :: golist
  ds_dirty :: bool

record DiskTier =
  dt_maxBytes :: int
  dt_shards :: "diskShard list"
  dt_persistErrs :: int
  dt_closed :: bool
  dt_oversizeDiscards :: int
  dt_noTierDiscards :: int
  dt_log :: bool
  dt_nextOversizeLog :: int
  dt_nextNoTierLog :: int
  dt_blobs :: blobs
  dt_index :: index_file

definition oversizeLogInterval :: int where
  "oversizeLogInterval = 30 * 10 ^ 9"

definition blob_names :: "(string \<Rightarrow> string) \<Rightarrow> bool" where
  "blob_names h \<longleftrightarrow> inj h \<and> (\<forall>k. \<not> HasPrefix (h k) ''wip-'')"

definition Remove_file :: "os_env \<Rightarrow> string \<Rightarrow> blobs \<Rightarrow> blobs" where
  "Remove_file E f bl = (if os_remove E f then bl(f := None) else bl)"

definition newDiskShard :: "int \<Rightarrow> diskShard" where
  "newDiskShard cap =
     \<lparr>ds_maxBytes = cap, ds_curBytes = 0, ds_atomicBytes = 0, ds_items = [], ds_lru = list_New, ds_dirty = False\<rparr>"

abbreviation disk_index :: "DiskTier \<Rightarrow> string \<Rightarrow> nat" where
  "disk_index d key \<equiv> shardIndex key (length (dt_shards d))"

definition disk_shard :: "DiskTier \<Rightarrow> string \<Rightarrow> diskShard" where
  "disk_shard d key = dt_shards d ! disk_index d key"

definition put_disk_shard :: "string \<Rightarrow> diskShard \<times> blobs \<Rightarrow> DiskTier \<Rightarrow> DiskTier" where
  "put_disk_shard key sb d =
     d\<lparr>dt_shards := (dt_shards d)[disk_index d key := fst sb], dt_blobs := snd sb\<rparr>"

subsection \<open>Removal and eviction\<close>

text \<open>\<open>removeLocked\<close> works on a shard and the blob directory.\<close>

definition removeLocked :: "(string \<Rightarrow> string) \<Rightarrow> os_env \<Rightarrow> string \<Rightarrow> diskShard \<times> blobs \<Rightarrow> diskShard \<times> blobs" where
  "removeLocked h E k sb =
     (case sb of (s, bl) \<Rightarrow>
        (case map_of (ds_items s) k of
           None \<Rightarrow> (s, bl)
         | Some e \<Rightarrow>
             (let cur = ds_curBytes s - Size (de_meta e)
              in (s\<lparr>ds_curBytes := cur, ds_atomicBytes := cur, ds_lru := list_Remove (de_el e) (ds_lru s),
                    ds_items := AList.delete k (ds_items s), ds_dirty := True\<rparr>,
                  Remove_file E (h k) bl))))"

text \<open>The loop of \<open>commit\<close>, and with \<open>n = 0\<close> the one at the end of \<open>load\<close>: it removes the entry of
  the last node of the list until \<open>n\<close> more bytes fit. A last node whose key has no entry would be
  looked at forever.\<close>

partial_function (option) evictLRU ::
  "(string \<Rightarrow> string) \<Rightarrow> os_env \<Rightarrow> int \<Rightarrow> diskShard \<times> blobs \<Rightarrow> (diskShard \<times> blobs) option" where
  "evictLRU h E n sb =
     (if ds_curBytes (fst sb) + n > ds_maxBytes (fst sb) then
        (case list_Back (ds_lru (fst sb)) of
           None \<Rightarrow> Some sb
         | Some (_, k) \<Rightarrow> evictLRU h E n (removeLocked h E k sb))
      else Some sb)"

declare evictLRU.simps [code]

subsection \<open>The persisted index\<close>

text \<open>What a metadata record is after a round trip through the index file: the strings go through
  JSON, the tier hint is not written.\<close>

definition json_meta :: "ObjectMeta \<Rightarrow> ObjectMeta" where
  "json_meta m =
     m\<lparr>Key := json_string (Key m), ContentType := json_string (ContentType m), ETag := json_string (ETag m),
       LastModified := json_string (LastModified m), ContentEncoding := json_string (ContentEncoding m),
       Vary := json_string (Vary m), Tier := []\<rparr>"

definition snapshot_shard :: "diskShard \<Rightarrow> ObjectMeta list" where
  "snapshot_shard s =
     List.map_filter (\<lambda>(_, k). map_option de_meta (map_of (ds_items s) k)) (nodes (ds_lru s))"

definition snapshotIfDirty :: "DiskTier \<Rightarrow> (ObjectMeta list \<times> bool) \<times> DiskTier" where
  "snapshotIfDirty d =
     ((concat (map snapshot_shard (dt_shards d)), list_ex ds_dirty (dt_shards d)),
      d\<lparr>dt_shards := map (\<lambda>s. s\<lparr>ds_dirty := False\<rparr>) (dt_shards d)\<rparr>)"

text \<open>\<open>writeIndex\<close> replaces the file by a rename, so a failure leaves the old index. The first
  component says whether it failed.\<close>

definition writeIndex :: "os_env \<Rightarrow> ObjectMeta list \<Rightarrow> DiskTier \<Rightarrow> bool \<times> DiskTier" where
  "writeIndex E p d =
     (if os_index E then (False, d\<lparr>dt_index := Entries (map json_meta p)\<rparr>) else (True, d))"

definition flushIfDirty :: "os_env \<Rightarrow> DiskTier \<Rightarrow> DiskTier" where
  "flushIfDirty E d =
     (let ((p, anyDirty), d1) = snapshotIfDirty d
      in if \<not> anyDirty then d1
         else
           let (err, d2) = writeIndex E p d1
           in if err then
                d2\<lparr>dt_shards := map (\<lambda>s. s\<lparr>ds_dirty := True\<rparr>) (dt_shards d2),
                   dt_persistErrs := dt_persistErrs d2 + 1\<rparr>
              else d2)"

definition disk_Close :: "os_env \<Rightarrow> DiskTier \<Rightarrow> bool \<times> DiskTier" where
  "disk_Close E d =
     (if dt_closed d then (False, d)
      else
        let ((p, _), d1) = snapshotIfDirty (d\<lparr>dt_closed := True\<rparr>)
        in writeIndex E p d1)"

subsection \<open>Opening\<close>

definition load_entry :: "(string \<Rightarrow> string) \<Rightarrow> os_env \<Rightarrow> ObjectMeta \<Rightarrow> DiskTier \<Rightarrow> DiskTier" where
  "load_entry h E m d =
     (let bp = h (Key m) in
      case dt_blobs d bp of
        None \<Rightarrow> d\<lparr>dt_blobs := Remove_file E bp (dt_blobs d)\<rparr>
      | Some b \<Rightarrow>
          if \<not> os_access E bp \<or> int (length b) \<noteq> Size m
          then d\<lparr>dt_blobs := Remove_file E bp (dt_blobs d)\<rparr>
          else
            let s = disk_shard d (Key m) in
            if Size m > ds_maxBytes s
            then d\<lparr>dt_blobs := Remove_file E bp (dt_blobs d)\<rparr>
            else
              let (el, lru) = PushFront (Key m) (ds_lru s);
                  cur = ds_curBytes s + Size m
              in put_disk_shard (Key m)
                   (s\<lparr>ds_lru := lru, ds_items := AList.update (Key m) \<lparr>de_meta = m, de_el = el\<rparr> (ds_items s),
                      ds_curBytes := cur, ds_atomicBytes := cur\<rparr>, dt_blobs d) d)"

text \<open>The shards are brought under their caps one after the other.\<close>

fun trim_shards ::
  "(string \<Rightarrow> string) \<Rightarrow> os_env \<Rightarrow> diskShard list \<Rightarrow> blobs \<Rightarrow> (diskShard list \<times> blobs) option" where
  "trim_shards h E [] bl = Some ([], bl)"
| "trim_shards h E (s # ss) bl =
     (case evictLRU h E 0 (s, bl) of
        None \<Rightarrow> None
      | Some (s', bl') \<Rightarrow>
          (case trim_shards h E ss bl' of
             None \<Rightarrow> None
           | Some (ss', bl'') \<Rightarrow> Some (s' # ss', bl'')))"

text \<open>The outer option is whether the call returns, the inner one whether it returns without an
  error.\<close>

definition disk_load :: "(string \<Rightarrow> string) \<Rightarrow> os_env \<Rightarrow> DiskTier \<Rightarrow> DiskTier option option" where
  "disk_load h E d =
     (case dt_index d of
        NoIndex \<Rightarrow> Some (Some d)
      | Unreadable \<Rightarrow> Some None
      | Corrupt \<Rightarrow> Some (Some d)
      | Entries p \<Rightarrow>
          (let d1 = fold (load_entry h E) (rev p) d
           in case trim_shards h E (dt_shards d1) (dt_blobs d1) of
                None \<Rightarrow> None
              | Some (ss, bl) \<Rightarrow> Some (Some (d1\<lparr>dt_shards := ss, dt_blobs := bl\<rparr>))))"

definition reapTempBlobs :: "os_env \<Rightarrow> DiskTier \<Rightarrow> DiskTier" where
  "reapTempBlobs E d =
     (if os_readdir E
      then d\<lparr>dt_blobs := (\<lambda>f. if HasPrefix f ''wip-'' then Remove_file E f (dt_blobs d) f else dt_blobs d f)\<rparr>
      else d)"

definition NewDiskTier ::
  "(string \<Rightarrow> string) \<Rightarrow> os_env \<Rightarrow> int \<Rightarrow> blobs \<Rightarrow> index_file \<Rightarrow> DiskTier option option" where
  "NewDiskTier h E maxBytes bl ix =
     (if \<not> os_mkdir E then Some None
      else
        let n = shardCount maxBytes; caps = shardCaps maxBytes n;
            d = \<lparr>dt_maxBytes = maxBytes, dt_shards = map newDiskShard caps, dt_persistErrs = 0,
                 dt_closed = False, dt_oversizeDiscards = 0, dt_noTierDiscards = 0, dt_log = False,
                 dt_nextOversizeLog = 0, dt_nextNoTierLog = 0, dt_blobs = bl, dt_index = ix\<rparr>
        in disk_load h E (reapTempBlobs E d))"

subsection \<open>Reading, deleting, resetting\<close>

definition disk_Get :: "(string \<Rightarrow> string) \<Rightarrow> os_env \<Rightarrow> string \<Rightarrow> DiskTier \<Rightarrow> obj option \<times> DiskTier" where
  "disk_Get h E key d =
     (let s = disk_shard d key in
      case map_of (ds_items s) key of
        None \<Rightarrow> (None, d)
      | Some e \<Rightarrow>
          let s = s\<lparr>ds_lru := MoveToFront (de_el e) (ds_lru s)\<rparr> in
          case dt_blobs d (h key) of
            None \<Rightarrow> (None, put_disk_shard key (removeLocked h E key (s, dt_blobs d)) d)
          | Some b \<Rightarrow>
              if os_access E (h key) then (Some (de_meta e, b), put_disk_shard key (s, dt_blobs d) d)
              else (None, put_disk_shard key (removeLocked h E key (s, dt_blobs d)) d))"

definition disk_Delete :: "(string \<Rightarrow> string) \<Rightarrow> os_env \<Rightarrow> string \<Rightarrow> DiskTier \<Rightarrow> DiskTier" where
  "disk_Delete h E key d = put_disk_shard key (removeLocked h E key (disk_shard d key, dt_blobs d)) d"

definition reset_shard :: "(string \<Rightarrow> string) \<Rightarrow> os_env \<Rightarrow> diskShard \<Rightarrow> blobs \<Rightarrow> diskShard \<times> blobs" where
  "reset_shard h E s bl = fold (removeLocked h E) (map fst (ds_items s)) (s, bl)"

fun reset_shards :: "(string \<Rightarrow> string) \<Rightarrow> os_env \<Rightarrow> diskShard list \<Rightarrow> blobs \<Rightarrow> diskShard list \<times> blobs" where
  "reset_shards h E [] bl = ([], bl)"
| "reset_shards h E (s # ss) bl =
     (let (s', bl') = reset_shard h E s bl; (ss', bl'') = reset_shards h E ss bl' in (s' # ss', bl''))"

definition disk_Reset :: "(string \<Rightarrow> string) \<Rightarrow> os_env \<Rightarrow> DiskTier \<Rightarrow> DiskTier" where
  "disk_Reset h E d =
     (let (ss, bl) = reset_shards h E (dt_shards d) (dt_blobs d)
      in flushIfDirty E (d\<lparr>dt_shards := ss, dt_blobs := bl\<rparr>))"

definition disk_Len :: "DiskTier \<Rightarrow> nat" where
  "disk_Len d = sum_list (map (\<lambda>s. length (ds_items s)) (dt_shards d))"

definition disk_Bytes :: "DiskTier \<Rightarrow> int" where
  "disk_Bytes d = sum_list (map ds_atomicBytes (dt_shards d))"

subsection \<open>Rate-limited discard logs\<close>

text \<open>The first component says whether a line is written.\<close>

definition logOversizeDiscard :: "os_env \<Rightarrow> DiskTier \<Rightarrow> bool \<times> DiskTier" where
  "logOversizeDiscard E d =
     (if \<not> dt_log d then (False, d)
      else if os_now E < dt_nextOversizeLog d then (False, d)
      else (True, d\<lparr>dt_nextOversizeLog := os_now E + oversizeLogInterval\<rparr>))"

definition logNoTierDiscard :: "os_env \<Rightarrow> DiskTier \<Rightarrow> bool \<times> DiskTier" where
  "logNoTierDiscard E d =
     (if \<not> dt_log d then (False, d)
      else if os_now E < dt_nextNoTierLog d then (False, d)
      else (True, d\<lparr>dt_nextNoTierLog := os_now E + oversizeLogInterval\<rparr>))"

definition disk_SetLogger :: "bool \<Rightarrow> DiskTier \<Rightarrow> DiskTier" where
  "disk_SetLogger attached d = d\<lparr>dt_log := attached\<rparr>"

subsection \<open>Commit and the streaming writer\<close>

text \<open>The result of a commit that returns: was the object installed, was there an error, the tier.\<close>

definition disk_commit ::
  "(string \<Rightarrow> string) \<Rightarrow> os_env \<Rightarrow> ObjectMeta \<Rightarrow> string \<Rightarrow> int \<Rightarrow> DiskTier \<Rightarrow> (bool \<times> bool \<times> DiskTier) option" where
  "disk_commit h E meta tmp n d =
     (let meta = meta\<lparr>Size := n\<rparr>; s = disk_shard d (Key meta) in
      if n > ds_maxBytes s then
        let d = d\<lparr>dt_blobs := Remove_file E tmp (dt_blobs d)\<rparr>
        in if ds_maxBytes s \<le> 0
           then Some (False, False, snd (logNoTierDiscard E (d\<lparr>dt_noTierDiscards := dt_noTierDiscards d + 1\<rparr>)))
           else Some (False, False, snd (logOversizeDiscard E (d\<lparr>dt_oversizeDiscards := dt_oversizeDiscards d + 1\<rparr>)))
      else
        case evictLRU h E n (removeLocked h E (Key meta) (s, dt_blobs d)) of
          None \<Rightarrow> None
        | Some (s, bl) \<Rightarrow>
            (case bl tmp of
               None \<Rightarrow> Some (False, True, put_disk_shard (Key meta) (s, Remove_file E tmp bl) d)
             | Some b \<Rightarrow>
                 if \<not> os_rename E
                 then Some (False, True, put_disk_shard (Key meta) (s, Remove_file E tmp bl) d)
                 else
                   let (el, lru) = PushFront (Key meta) (ds_lru s); cur = ds_curBytes s + n
                   in Some (True, False,
                        put_disk_shard (Key meta)
                          (s\<lparr>ds_lru := lru,
                             ds_items := AList.update (Key meta) \<lparr>de_meta = meta, de_el = el\<rparr> (ds_items s),
                             ds_curBytes := cur, ds_atomicBytes := cur, ds_dirty := True\<rparr>,
                           bl(tmp := None, h (Key meta) := Some b)) d)))"

record diskWriter =
  dw_meta :: ObjectMeta
  dw_tmp :: string
  dw_n :: int
  dw_stored :: bool

text \<open>\<open>os.CreateTemp\<close> picks a name that is not in use: the argument \<open>tmp\<close>, or \<^const>\<open>None\<close> when
  the file cannot be created.\<close>

definition disk_Writer :: "ObjectMeta \<Rightarrow> string option \<Rightarrow> DiskTier \<Rightarrow> (diskWriter \<times> DiskTier) option" where
  "disk_Writer meta tmp d =
     (case tmp of
        None \<Rightarrow> None
      | Some t \<Rightarrow>
          Some (\<lparr>dw_meta = meta, dw_tmp = t, dw_n = 0, dw_stored = False\<rparr>, d\<lparr>dt_blobs := (dt_blobs d)(t := Some [])\<rparr>))"

text \<open>A write that the file system cuts short after \<open>k\<close> bytes reports an error. The result is the
  byte count, the error flag, and the new state. Writing to an unlinked file leaves no trace in the
  directory.\<close>

definition disk_Write :: "nat \<Rightarrow> bytes \<Rightarrow> diskWriter \<Rightarrow> DiskTier \<Rightarrow> (int \<times> bool) \<times> diskWriter \<times> DiskTier" where
  "disk_Write k p w d =
     (let q = take k p
      in ((int (length q), length q < length p),
          w\<lparr>dw_n := dw_n w + int (length q)\<rparr>,
          d\<lparr>dt_blobs := (dt_blobs d)(dw_tmp w := map_option (\<lambda>b. b @ q) (dt_blobs d (dw_tmp w)))\<rparr>))"

definition disk_Commit ::
  "(string \<Rightarrow> string) \<Rightarrow> os_env \<Rightarrow> diskWriter \<Rightarrow> DiskTier \<Rightarrow> (bool \<times> diskWriter \<times> DiskTier) option" where
  "disk_Commit h E w d =
     (if \<not> os_close E
      then Some (True, w, d\<lparr>dt_blobs := Remove_file E (dw_tmp w) (dt_blobs d)\<rparr>)
      else
        case disk_commit h E (dw_meta w) (dw_tmp w) (dw_n w) d of
          None \<Rightarrow> None
        | Some (stored, err, d') \<Rightarrow> Some (err, w\<lparr>dw_stored := stored\<rparr>, d'))"

definition disk_Abort :: "os_env \<Rightarrow> diskWriter \<Rightarrow> DiskTier \<Rightarrow> bool \<times> DiskTier" where
  "disk_Abort E w d =
     (\<not> os_remove E (dw_tmp w) \<or> dt_blobs d (dw_tmp w) = None,
      d\<lparr>dt_blobs := Remove_file E (dw_tmp w) (dt_blobs d)\<rparr>)"

end
