(* ===== verification/DiskInv.thy ===== *)
theory DiskInv
  imports DiskTier
begin

text \<open>
  The disk tier's invariant and the proof that it implements the tier contract. The invariant does
  not ask that a blob exists: a blob may vanish from the directory at any time. It says that a blob
  that is there has the size its metadata says.
\<close>

subsection \<open>One shard\<close>

definition disk_core :: "(string \<Rightarrow> string) \<Rightarrow> diskShard \<times> blobs \<Rightarrow> bool" where
  "disk_core h sb \<longleftrightarrow>
     (case sb of (s, bl) \<Rightarrow>
        ring_ok de_el (ds_items s) (ds_lru s) \<and>
        ds_curBytes s = msum (\<lambda>e. Size (de_meta e)) (ds_items s) \<and> ds_atomicBytes s = ds_curBytes s \<and>
        (\<forall>k e. map_of (ds_items s) k = Some e \<longrightarrow>
           Key (de_meta e) = k \<and> 0 \<le> Size (de_meta e) \<and>
           (\<forall>b. bl (h k) = Some b \<longrightarrow> int (length b) = Size (de_meta e))))"

definition disk_shard_ok :: "(string \<Rightarrow> string) \<Rightarrow> diskShard \<times> blobs \<Rightarrow> bool" where
  "disk_shard_ok h sb \<longleftrightarrow> disk_core h sb \<and> ds_curBytes (fst sb) \<le> max 0 (ds_maxBytes (fst sb))"

definition dshard_view :: "(string \<Rightarrow> string) \<Rightarrow> diskShard \<times> blobs \<Rightarrow> string \<Rightarrow> obj option" where
  "dshard_view h sb k =
     (case map_of (ds_items (fst sb)) k of
        None \<Rightarrow> None
      | Some e \<Rightarrow> map_option (\<lambda>b. (de_meta e, b)) (snd sb (h k)))"

lemma newDiskShard_core: "disk_core h (newDiskShard cap, bl)"
  by (simp add: disk_core_def newDiskShard_def ring_ok_New)

lemma disk_core_cur_nonneg: "disk_core h (s, bl) \<Longrightarrow> 0 \<le> ds_curBytes s"
proof -
  assume core: "disk_core h (s, bl)"
  have "0 \<le> Size (de_meta e)" if "e \<in> snd ` set (ds_items s)" for e
  proof -
    from that obtain k where "(k, e) \<in> set (ds_items s)" by auto
    with core have "map_of (ds_items s) k = Some e" by (simp add: disk_core_def ring_ok_def)
    with core show ?thesis by (simp add: disk_core_def)
  qed
  then have "0 \<le> msum (\<lambda>e. Size (de_meta e)) (ds_items s)"
    unfolding msum_def by (intro sum_list_nonneg) auto
  with core show ?thesis by (simp add: disk_core_def)
qed

text \<open>Blobs going away, or changing under names no entry of the shard uses.\<close>

lemma disk_core_blobs:
  assumes "disk_core h (s, bl)"
    and "\<And>k. map_of (ds_items s) k \<noteq> None \<Longrightarrow> bl' (h k) = None \<or> bl' (h k) = bl (h k)"
  shows "disk_core h (s, bl')"
proof -
  have "\<forall>b. bl' (h k) = Some b \<longrightarrow> int (length b) = Size (de_meta e)" if "map_of (ds_items s) k = Some e" for k e
    using assms(1) assms(2) [of k] that by (auto simp: disk_core_def)
  with assms(1) show ?thesis by (simp add: disk_core_def)
qed

subsection \<open>Removing an entry\<close>

lemma removeLocked_miss: "map_of (ds_items s) k = None \<Longrightarrow> removeLocked h E k (s, bl) = (s, bl)"
  by (simp add: removeLocked_def)

lemma removeLocked_items [simp]:
  "ds_items (fst (removeLocked h E k sb)) = AList.delete k (ds_items (fst sb))"
  by (cases sb) (auto simp: removeLocked_def Let_def delete_id map_of_eq_None_iff split: option.split)

lemma removeLocked_maxBytes [simp]: "ds_maxBytes (fst (removeLocked h E k sb)) = ds_maxBytes (fst sb)"
  by (cases sb) (simp add: removeLocked_def Let_def split: option.split)

lemma removeLocked_blobs:
  "snd (removeLocked h E k sb) f =
     (if f = h k \<and> map_of (ds_items (fst sb)) k \<noteq> None \<and> os_remove E (h k) then None else snd sb f)"
  by (cases sb) (simp add: removeLocked_def Let_def Remove_file_def split: option.split)

lemma removeLocked_core:
  assumes "disk_core h sb"
  shows "disk_core h (removeLocked h E k sb)"
proof (cases "map_of (ds_items (fst sb)) k")
  case None
  with assms show ?thesis by (cases sb) (simp add: removeLocked_miss)
next
  case (Some e)
  obtain s bl where sb: "sb = (s, bl)" by fastforce
  have "disk_core h (fst (removeLocked h E k sb), bl)"
    using assms Some ring_ok_delete [of de_el "ds_items s" "ds_lru s" k e]
    by (auto simp: sb disk_core_def removeLocked_def Let_def msum_delete ring_ok_distinct)
  then have "disk_core h (fst (removeLocked h E k sb), snd (removeLocked h E k sb))"
    by (rule disk_core_blobs) (simp add: sb removeLocked_blobs)
  then show ?thesis by simp
qed

lemma removeLocked_view:
  assumes "inj h"
  shows "dshard_view h (removeLocked h E k sb) k' = (if k' = k then None else dshard_view h sb k')"
  using assms by (auto simp: dshard_view_def removeLocked_blobs inj_eq split: option.split)

lemma removeLocked_cur:
  assumes "disk_core h sb" and "map_of (ds_items (fst sb)) k = Some e"
  shows "ds_curBytes (fst (removeLocked h E k sb)) = ds_curBytes (fst sb) - Size (de_meta e)"
  using assms by (cases sb) (simp add: removeLocked_def Let_def)

lemma removeLocked_cur_le:
  assumes "disk_core h sb"
  shows "ds_curBytes (fst (removeLocked h E k sb)) \<le> ds_curBytes (fst sb)"
proof (cases "map_of (ds_items (fst sb)) k")
  case None
  then show ?thesis by (cases sb) (simp add: removeLocked_miss)
next
  case (Some e)
  with assms have "0 \<le> Size (de_meta e)" by (cases sb) (auto simp: disk_core_def)
  with removeLocked_cur [OF assms Some] show ?thesis by simp
qed

lemma removeLocked_shard_ok:
  assumes "disk_shard_ok h sb"
  shows "disk_shard_ok h (removeLocked h E k sb)"
  using assms removeLocked_core removeLocked_cur_le [of h sb E k] by (auto simp: disk_shard_ok_def)

lemma removeLocked_nodes:
  assumes "disk_core h sb"
  shows "nodes (ds_lru (fst (removeLocked h E k sb))) = filter (\<lambda>n. snd n \<noteq> k) (nodes (ds_lru (fst sb)))"
proof -
  obtain s bl where sb: "sb = (s, bl)" by fastforce
  have ring: "ring_ok de_el (ds_items s) (ds_lru s)" using assms by (simp add: sb disk_core_def)
  show ?thesis
  proof (cases "map_of (ds_items s) k")
    case None
    have "snd n \<noteq> k" if "n \<in> set (nodes (ds_lru s))" for n
      using that None ring_ok_node [OF ring, of "fst n" "snd n"] by (metis option.distinct(1) prod.collapse)
    with None show ?thesis by (simp add: sb removeLocked_miss)
  next
    case (Some e)
    have "fst n \<noteq> de_el e \<longleftrightarrow> snd n \<noteq> k" if "n \<in> set (nodes (ds_lru s))" for n
    proof -
      have n: "(fst n, snd n) \<in> set (nodes (ds_lru s))" using that by simp
      obtain e' where "map_of (ds_items s) (snd n) = Some e'" "de_el e' = fst n"
        using ring_ok_node [OF ring n] by blast
      with Some ring_ok_el_inj [OF ring, of "snd n" e' k e] show ?thesis by auto
    qed
    with Some show ?thesis by (simp add: sb removeLocked_def Let_def list_Remove_def cong: filter_cong)
  qed
qed

subsection \<open>The eviction loop\<close>

abbreviation dover :: "int \<Rightarrow> diskShard \<times> blobs \<Rightarrow> bool" where
  "dover n sb \<equiv> ds_curBytes (fst sb) + n > ds_maxBytes (fst sb)"

lemma evictLRU_done: "\<not> dover n sb \<Longrightarrow> evictLRU h E n sb = Some sb"
  by (subst evictLRU.simps) simp

text \<open>The loop returns from every shard that satisfies the invariant, and what each round keeps
  holds of the result.\<close>

lemma evictLRU_rule:
  assumes "disk_core h sb" and "P sb"
    and step: "\<And>sb i k. P sb \<Longrightarrow> disk_core h sb \<Longrightarrow> dover n sb \<Longrightarrow>
      list_Back (ds_lru (fst sb)) = Some (i, k) \<Longrightarrow> P (removeLocked h E k sb)"
  shows "\<exists>sb'. evictLRU h E n sb = Some sb' \<and> disk_core h sb' \<and> P sb' \<and>
    (\<not> dover n sb' \<or> nodes (ds_lru (fst sb')) = [])"
  using assms(1,2)
proof (induction "length (nodes (ds_lru (fst sb)))" arbitrary: sb rule: less_induct)
  case less
  show ?case
  proof (cases "dover n sb \<and> nodes (ds_lru (fst sb)) \<noteq> []")
    case False
    have "evictLRU h E n sb = Some sb"
      by (subst evictLRU.simps) (use False in \<open>auto simp: list_Back_def\<close>)
    with False less.prems show ?thesis by blast
  next
    case True
    then obtain i k where bk: "list_Back (ds_lru (fst sb)) = Some (i, k)" by (metis list_Back_None option.exhaust surj_pair)
    let ?sb = "removeLocked h E k sb"
    have "length (nodes (ds_lru (fst ?sb))) < length (nodes (ds_lru (fst sb)))"
      using list_Back_in [OF bk] unfolding removeLocked_nodes [OF less.prems(1)]
      by (auto intro!: length_filter_less)
    then have "\<exists>sb'. evictLRU h E n ?sb = Some sb' \<and> disk_core h sb' \<and> P sb' \<and>
        (\<not> dover n sb' \<or> nodes (ds_lru (fst sb')) = [])"
      using less.hyps [of ?sb] removeLocked_core [OF less.prems(1)] step [OF less.prems(2,1) _ bk] True by blast
    moreover have "evictLRU h E n sb = evictLRU h E n ?sb"
      using True bk by (subst evictLRU.simps) simp
    ultimately show ?thesis by simp
  qed
qed

text \<open>What removing entries of a shard leaves unchanged.\<close>

definition shrunk :: "(string \<Rightarrow> string) \<Rightarrow> diskShard \<times> blobs \<Rightarrow> diskShard \<times> blobs \<Rightarrow> bool" where
  "shrunk h sb sb' \<longleftrightarrow>
     ds_maxBytes (fst sb') = ds_maxBytes (fst sb) \<and> ds_curBytes (fst sb') \<le> ds_curBytes (fst sb) \<and>
     (\<forall>k. map_of (ds_items (fst sb')) k = None \<or>
          map_of (ds_items (fst sb')) k = map_of (ds_items (fst sb)) k \<and> snd sb' (h k) = snd sb (h k)) \<and>
     (\<forall>f. snd sb' f = None \<or> snd sb' f = snd sb f) \<and>
     (\<forall>f. (\<forall>k. f = h k \<longrightarrow> map_of (ds_items (fst sb)) k = None) \<longrightarrow> snd sb' f = snd sb f)"

lemma shrunk_refl: "shrunk h sb sb"
  by (simp add: shrunk_def)

lemma shrunk_remove:
  assumes "inj h" and "disk_core h sb'" and "shrunk h sb sb'"
  shows "shrunk h sb (removeLocked h E k sb')"
proof -
  let ?r = "removeLocked h E k sb'"
  have items: "map_of (ds_items (fst ?r)) k' = None \<or>
      map_of (ds_items (fst ?r)) k' = map_of (ds_items (fst sb')) k' \<and> snd ?r (h k') = snd sb' (h k')" for k'
    by (simp add: removeLocked_blobs inj_eq [OF assms(1)])
  have le: "snd ?r f = None \<or> snd ?r f = snd sb' f" for f
    by (simp add: removeLocked_blobs)
  have same: "snd ?r f = snd sb' f" if "\<forall>k. f = h k \<longrightarrow> map_of (ds_items (fst sb)) k = None" for f
  proof -
    have "f \<noteq> h k \<or> map_of (ds_items (fst sb')) k = None"
      using that assms(3) unfolding shrunk_def by metis
    then show ?thesis by (auto simp: removeLocked_blobs)
  qed
  show ?thesis
    unfolding shrunk_def
  proof (intro conjI allI impI)
    show "ds_maxBytes (fst ?r) = ds_maxBytes (fst sb)" using assms(3) by (simp add: shrunk_def)
    show "ds_curBytes (fst ?r) \<le> ds_curBytes (fst sb)"
      using assms(3) removeLocked_cur_le [OF assms(2), of E k] by (simp add: shrunk_def)
    show "map_of (ds_items (fst ?r)) k = None \<or>
        map_of (ds_items (fst ?r)) k = map_of (ds_items (fst sb)) k \<and> snd ?r (h k) = snd sb (h k)" for k
      using items [of k] assms(3) unfolding shrunk_def by metis
    show "snd ?r f = None \<or> snd ?r f = snd sb f" for f
      using le [of f] assms(3) unfolding shrunk_def by metis
    show "snd ?r f = snd sb f" if "\<forall>k. f = h k \<longrightarrow> map_of (ds_items (fst sb)) k = None" for f
      using same [OF that] assms(3) that unfolding shrunk_def by metis
  qed
qed

lemma shrunk_view:
  assumes "shrunk h sb sb'"
  shows "dshard_view h sb' k = None \<or> dshard_view h sb' k = dshard_view h sb k"
proof (cases "map_of (ds_items (fst sb')) k")
  case (Some e)
  with assms have "map_of (ds_items (fst sb)) k = Some e" "snd sb' (h k) = snd sb (h k)"
    unfolding shrunk_def by (metis option.distinct(1))+
  with Some show ?thesis by (simp add: dshard_view_def)
qed (simp add: dshard_view_def)

lemma evictLRU_shrunk:
  assumes "inj h" and "disk_core h sb"
  shows "\<exists>sb'. evictLRU h E n sb = Some sb' \<and> disk_core h sb' \<and> shrunk h sb sb' \<and>
    (\<not> dover n sb' \<or> nodes (ds_lru (fst sb')) = [])"
  using assms by (intro evictLRU_rule shrunk_remove shrunk_refl)

lemma evictLRU_fits:
  assumes "inj h" and "disk_core h sb" and "n \<le> ds_maxBytes (fst sb)"
  shows "\<exists>sb'. evictLRU h E n sb = Some sb' \<and> disk_core h sb' \<and> shrunk h sb sb' \<and>
    ds_curBytes (fst sb') + n \<le> ds_maxBytes (fst sb)"
proof -
  obtain sb' where sb': "evictLRU h E n sb = Some sb'" "disk_core h sb'" "shrunk h sb sb'"
    "\<not> dover n sb' \<or> nodes (ds_lru (fst sb')) = []"
    using evictLRU_shrunk [OF assms(1,2)] by blast
  have "ds_curBytes (fst sb') = 0" if "nodes (ds_lru (fst sb')) = []"
    using that sb'(2) by (cases sb') (auto simp: disk_core_def dest: ring_ok_empty_nodes)
  with sb' assms(3) show ?thesis by (auto simp: shrunk_def)
qed

subsection \<open>The tier\<close>

text \<open>\<open>disk_pre\<close> is the invariant without the byte budget, which does not hold while the index is
  being loaded.\<close>

definition disk_pre :: "(string \<Rightarrow> string) \<Rightarrow> DiskTier \<Rightarrow> bool" where
  "disk_pre h d \<longleftrightarrow>
     length (dt_shards d) = shardCount (dt_maxBytes d) \<and>
     (\<forall>i < length (dt_shards d).
        disk_core h (dt_shards d ! i, dt_blobs d) \<and>
        ds_maxBytes (dt_shards d ! i) = shardCaps (dt_maxBytes d) (shardCount (dt_maxBytes d)) ! i \<and>
        (\<forall>k. map_of (ds_items (dt_shards d ! i)) k \<noteq> None \<longrightarrow> disk_index d k = i))"

definition disk_ok :: "(string \<Rightarrow> string) \<Rightarrow> DiskTier \<Rightarrow> bool" where
  "disk_ok h d \<longleftrightarrow> disk_pre h d \<and> (\<forall>s \<in> set (dt_shards d). ds_curBytes s \<le> max 0 (ds_maxBytes s))"

definition disk_view :: "(string \<Rightarrow> string) \<Rightarrow> DiskTier \<Rightarrow> string \<Rightarrow> obj option" where
  "disk_view h d k = dshard_view h (disk_shard d k, dt_blobs d) k"

lemma disk_index_less: "disk_pre h d \<Longrightarrow> disk_index d k < length (dt_shards d)"
  by (simp add: disk_pre_def)

lemma disk_shard_core: "disk_pre h d \<Longrightarrow> disk_core h (disk_shard d k, dt_blobs d)"
  using disk_index_less by (simp add: disk_pre_def disk_shard_def)

lemma disk_shard_inv: "disk_ok h d \<Longrightarrow> disk_shard_ok h (disk_shard d k, dt_blobs d)"
  using disk_index_less [of h d k] by (auto simp: disk_ok_def disk_shard_ok_def disk_shard_core) (simp add: disk_shard_def)

lemma disk_shard_routes:
  assumes "disk_pre h d" and "map_of (ds_items (disk_shard d k)) k' \<noteq> None"
  shows "disk_index d k' = disk_index d k"
  using assms disk_index_less [OF assms(1), of k] unfolding disk_pre_def disk_shard_def by blast

lemma put_disk_shard_simps [simp]:
  "dt_maxBytes (put_disk_shard k sb d) = dt_maxBytes d"
  "length (dt_shards (put_disk_shard k sb d)) = length (dt_shards d)"
  "dt_blobs (put_disk_shard k sb d) = snd sb"
  by (simp_all add: put_disk_shard_def)

lemma disk_shard_put:
  assumes "disk_pre h d"
  shows "disk_shard (put_disk_shard k sb d) k' =
    (if disk_index d k' = disk_index d k then fst sb else disk_shard d k')"
  using disk_index_less [OF assms, of k] by (simp add: disk_shard_def put_disk_shard_def)

text \<open>Replacing the owning shard and the blobs. The blobs of keys that other shards own are the
  same.\<close>

lemma put_disk_shard_pre:
  assumes d: "disk_pre h d" and s: "disk_core h sb" and m: "ds_maxBytes (fst sb) = ds_maxBytes (disk_shard d k)"
    and keys: "\<And>k'. map_of (ds_items (fst sb)) k' \<noteq> None \<Longrightarrow> k' = k \<or> map_of (ds_items (disk_shard d k)) k' \<noteq> None"
    and bl: "\<And>k'. disk_index d k' \<noteq> disk_index d k \<Longrightarrow> snd sb (h k') = dt_blobs d (h k')"
  shows "disk_pre h (put_disk_shard k sb d)"
proof -
  let ?i = "disk_index d k"
  have i: "?i < length (dt_shards d)" using d by (rule disk_index_less)
  have route: "disk_index d k' = ?i" if "map_of (ds_items (fst sb)) k' \<noteq> None" for k'
    using keys [OF that] disk_shard_routes [OF d] by blast
  have others: "disk_core h (dt_shards d ! j, snd sb)" if "j < length (dt_shards d)" "j \<noteq> ?i" for j
  proof (rule disk_core_blobs)
    show "disk_core h (dt_shards d ! j, dt_blobs d)" using d that(1) by (simp add: disk_pre_def)
    fix k'
    assume "map_of (ds_items (dt_shards d ! j)) k' \<noteq> None"
    then have "disk_index d k' = j" using d that(1) unfolding disk_pre_def by blast
    with bl that(2) show "snd sb (h k') = None \<or> snd sb (h k') = dt_blobs d (h k')" by simp
  qed
  show ?thesis
    unfolding disk_pre_def
  proof (intro conjI allI impI)
    show "length (dt_shards (put_disk_shard k sb d)) = shardCount (dt_maxBytes (put_disk_shard k sb d))"
      using d by (simp add: disk_pre_def)
    fix j
    assume j: "j < length (dt_shards (put_disk_shard k sb d))"
    show "disk_core h (dt_shards (put_disk_shard k sb d) ! j, dt_blobs (put_disk_shard k sb d))"
      using j i s others by (cases "j = ?i") (simp_all add: put_disk_shard_def)
    show "ds_maxBytes (dt_shards (put_disk_shard k sb d) ! j) =
        shardCaps (dt_maxBytes (put_disk_shard k sb d)) (shardCount (dt_maxBytes (put_disk_shard k sb d))) ! j"
      using j i m d by (cases "j = ?i") (simp_all add: put_disk_shard_def disk_pre_def disk_shard_def)
    show "disk_index (put_disk_shard k sb d) k' = j"
      if "map_of (ds_items (dt_shards (put_disk_shard k sb d) ! j)) k' \<noteq> None" for k'
    proof (cases "j = ?i")
      case True
      with that i route [of k'] show ?thesis by (simp add: put_disk_shard_def)
    next
      case False
      with that have "map_of (ds_items (dt_shards d ! j)) k' \<noteq> None" by (simp add: put_disk_shard_def)
      moreover have "j < length (dt_shards d)" using j by simp
      ultimately have "disk_index d k' = j" using d unfolding disk_pre_def by blast
      then show ?thesis by simp
    qed
  qed
qed

lemma put_disk_shard_ok:
  assumes "disk_ok h d" and "disk_shard_ok h sb" and "ds_maxBytes (fst sb) = ds_maxBytes (disk_shard d k)"
    and "\<And>k'. map_of (ds_items (fst sb)) k' \<noteq> None \<Longrightarrow> k' = k \<or> map_of (ds_items (disk_shard d k)) k' \<noteq> None"
    and "\<And>k'. disk_index d k' \<noteq> disk_index d k \<Longrightarrow> snd sb (h k') = dt_blobs d (h k')"
  shows "disk_ok h (put_disk_shard k sb d)"
proof -
  have "disk_pre h (put_disk_shard k sb d)"
    using assms by (intro put_disk_shard_pre) (auto simp: disk_ok_def disk_shard_ok_def)
  moreover have "ds_curBytes s \<le> max 0 (ds_maxBytes s)" if "s \<in> set (dt_shards (put_disk_shard k sb d))" for s
    using that assms(1,2) set_update_subset_insert [of "dt_shards d" "disk_index d k" "fst sb"]
    unfolding put_disk_shard_def disk_ok_def disk_shard_ok_def by auto
  ultimately show ?thesis by (simp add: disk_ok_def)
qed

lemma disk_view_put:
  assumes "disk_pre h d" and "\<And>k'. disk_index d k' \<noteq> disk_index d k \<Longrightarrow> snd sb (h k') = dt_blobs d (h k')"
  shows "disk_view h (put_disk_shard k sb d) k' =
    (if disk_index d k' = disk_index d k then dshard_view h sb k' else disk_view h d k')"
  using assms(2) [of k'] by (simp add: disk_view_def disk_shard_put [OF assms(1)] dshard_view_def split: option.split)

text \<open>Shrinking a shard leaves the blobs of the other shards' keys alone.\<close>

lemma shrunk_other_blobs:
  assumes "inj h" and "disk_pre h d" and "shrunk h (disk_shard d k, dt_blobs d) sb"
    and "disk_index d k' \<noteq> disk_index d k"
  shows "snd sb (h k') = dt_blobs d (h k')"
proof -
  have "map_of (ds_items (disk_shard d k)) k' = None"
    using disk_shard_routes [OF assms(2)] assms(4) by blast
  with assms(1,3) show ?thesis by (simp add: shrunk_def inj_eq)
qed

lemma shrunk_put_ok:
  assumes "inj h" and "disk_ok h d" and "disk_core h sb" and sh: "shrunk h (disk_shard d k, dt_blobs d) sb"
  shows "disk_ok h (put_disk_shard k sb d)"
proof (rule put_disk_shard_ok [OF assms(2)])
  have pre: "disk_pre h d" using assms(2) by (simp add: disk_ok_def)
  have "ds_curBytes (disk_shard d k) \<le> max 0 (ds_maxBytes (disk_shard d k))"
    using disk_shard_inv [OF assms(2), of k] by (simp add: disk_shard_ok_def)
  with assms(3) sh show "disk_shard_ok h sb" by (simp add: disk_shard_ok_def shrunk_def)
  show "ds_maxBytes (fst sb) = ds_maxBytes (disk_shard d k)" using sh by (simp add: shrunk_def)
  show "k' = k \<or> map_of (ds_items (disk_shard d k)) k' \<noteq> None" if "map_of (ds_items (fst sb)) k' \<noteq> None" for k'
    using that sh unfolding shrunk_def by (metis fst_conv)
  show "snd sb (h k') = dt_blobs d (h k')" if "disk_index d k' \<noteq> disk_index d k" for k'
    using shrunk_other_blobs [OF assms(1) pre sh that] .
qed

lemma shrunk_put_view:
  assumes "inj h" and "disk_ok h d" and "shrunk h (disk_shard d k, dt_blobs d) sb"
  shows "disk_view h (put_disk_shard k sb d) k' =
    (if disk_index d k' = disk_index d k then dshard_view h sb k' else disk_view h d k')"
  using assms shrunk_other_blobs [OF assms(1) _ assms(3)] by (intro disk_view_put) (auto simp: disk_ok_def)

lemma disk_view_same_shard: "disk_index d k' = disk_index d k \<Longrightarrow> disk_view h d k' = dshard_view h (disk_shard d k, dt_blobs d) k'"
  by (simp add: disk_view_def disk_shard_def)

subsection \<open>Operations keep the invariant\<close>

lemma disk_Delete_ok [tier_inv]:
  assumes "inj h" and "disk_ok h d"
  shows "disk_ok h (disk_Delete h E k d)"
  unfolding disk_Delete_def
  using assms disk_shard_core [of h d k]
  by (intro shrunk_put_ok shrunk_remove shrunk_refl removeLocked_core) (auto simp: disk_ok_def)

lemma disk_Delete_view:
  assumes "inj h" and "disk_ok h d"
  shows "disk_view h (disk_Delete h E k d) = (disk_view h d)(k := None)"
proof
  fix k'
  have core: "disk_core h (disk_shard d k, dt_blobs d)" using assms by (simp add: disk_ok_def disk_shard_core)
  show "disk_view h (disk_Delete h E k d) k' = ((disk_view h d)(k := None)) k'"
    unfolding disk_Delete_def shrunk_put_view [OF assms shrunk_remove [OF assms(1) core shrunk_refl]]
    using disk_view_same_shard [of k' d k h] by (auto simp: removeLocked_view [OF assms(1)])
qed

text \<open>A read: the blob is handed out when it can be opened, otherwise the entry is dropped.\<close>

lemma touch_shrunk:
  assumes "disk_core h (s, bl)"
  shows "disk_core h (s\<lparr>ds_lru := MoveToFront i (ds_lru s)\<rparr>, bl)"
    "shrunk h (s, bl) (s\<lparr>ds_lru := MoveToFront i (ds_lru s)\<rparr>, bl)"
  using assms by (simp_all add: disk_core_def shrunk_def ring_ok_move)

lemma disk_Get_cases:
  obtains (miss) "map_of (ds_items (disk_shard d k)) k = None" "disk_Get h E k d = (None, d)"
  | (hit) e b where "map_of (ds_items (disk_shard d k)) k = Some e" "dt_blobs d (h k) = Some b" "os_access E (h k)"
      "disk_Get h E k d = (Some (de_meta e, b),
         put_disk_shard k ((disk_shard d k)\<lparr>ds_lru := MoveToFront (de_el e) (ds_lru (disk_shard d k))\<rparr>, dt_blobs d) d)"
  | (gone) e where "map_of (ds_items (disk_shard d k)) k = Some e" "dt_blobs d (h k) = None \<or> \<not> os_access E (h k)"
      "disk_Get h E k d = (None,
         put_disk_shard k (removeLocked h E k
           ((disk_shard d k)\<lparr>ds_lru := MoveToFront (de_el e) (ds_lru (disk_shard d k))\<rparr>, dt_blobs d)) d)"
  by (cases "map_of (ds_items (disk_shard d k)) k"; cases "dt_blobs d (h k)"; cases "os_access E (h k)")
    (auto simp: disk_Get_def Let_def)

lemma disk_Get_ok [tier_inv]:
  assumes "inj h" and "disk_ok h d"
  shows "disk_ok h (snd (disk_Get h E k d))"
proof -
  have core: "disk_core h (disk_shard d k, dt_blobs d)" using assms by (simp add: disk_ok_def disk_shard_core)
  note t = touch_shrunk [OF core]
  show ?thesis
    by (cases rule: disk_Get_cases [of d k h E])
      (simp_all add: assms shrunk_put_ok t removeLocked_core shrunk_remove)
qed

lemma disk_Get_view:
  assumes "inj h" and "disk_ok h d"
  shows "fst (disk_Get h E k d) = (if os_access E (h k) then disk_view h d k else None)"
    and "disk_view h (snd (disk_Get h E k d)) =
      (if os_access E (h k) then disk_view h d else (disk_view h d)(k := None))"
proof -
  have core: "disk_core h (disk_shard d k, dt_blobs d)" using assms by (simp add: disk_ok_def disk_shard_core)
  note t = touch_shrunk [OF core]
  have touch: "dshard_view h (s\<lparr>ds_lru := l\<rparr>, bl) k' = dshard_view h (s, bl) k'" for s l bl k'
    by (simp add: dshard_view_def split: option.split)
  have k: "disk_view h d k = dshard_view h (disk_shard d k, dt_blobs d) k" by (simp add: disk_view_def)
  show "fst (disk_Get h E k d) = (if os_access E (h k) then disk_view h d k else None)"
    by (cases rule: disk_Get_cases [of d k h E]) (auto simp: k dshard_view_def)
  show "disk_view h (snd (disk_Get h E k d)) =
      (if os_access E (h k) then disk_view h d else (disk_view h d)(k := None))"
  proof
    fix k'
    note same = disk_view_same_shard [of k' d k h]
    show "disk_view h (snd (disk_Get h E k d)) k' =
        (if os_access E (h k) then disk_view h d else (disk_view h d)(k := None)) k'"
    proof (cases rule: disk_Get_cases [of d k h E])
      case miss
      then show ?thesis by (simp add: k dshard_view_def)
    next
      case (hit e b)
      then show ?thesis using same by (simp add: shrunk_put_view [OF assms t(2)] touch)
    next
      case (gone e)
      then have "disk_view h (snd (disk_Get h E k d)) k' = (if k' = k then None else disk_view h d k')"
        using same
        by (simp add: shrunk_put_view [OF assms shrunk_remove [OF assms(1) t]] removeLocked_view [OF assms(1)] touch)
      with gone show ?thesis by (auto simp: k dshard_view_def)
    qed
  qed
qed

text \<open>Files that are not the blob of any key come and go without effect.\<close>

lemma disk_ok_temp:
  assumes "disk_ok h d" and "\<And>k. bl (h k) = dt_blobs d (h k)"
  shows "disk_ok h (d\<lparr>dt_blobs := bl\<rparr>)" "disk_view h (d\<lparr>dt_blobs := bl\<rparr>) = disk_view h d"
proof -
  have "disk_core h (s, bl)" if "disk_core h (s, dt_blobs d)" for s
    using that by (rule disk_core_blobs) (simp add: assms(2))
  with assms(1) show "disk_ok h (d\<lparr>dt_blobs := bl\<rparr>)" by (auto simp: disk_ok_def disk_pre_def)
  show "disk_view h (d\<lparr>dt_blobs := bl\<rparr>) = disk_view h d"
    by (simp add: disk_view_def disk_shard_def dshard_view_def assms(2) fun_eq_iff split: option.split)
qed

lemma temp_not_blob:
  assumes "blob_names h" and "HasPrefix f ''wip-''"
  shows "f \<noteq> h k"
  using assms unfolding blob_names_def by blast

text \<open>The log deadlines and counters are not part of the invariant.\<close>

lemma disk_ok_config:
  assumes "dt_maxBytes d' = dt_maxBytes d" and "dt_shards d' = dt_shards d" and "dt_blobs d' = dt_blobs d"
  shows "disk_ok h d' = disk_ok h d" "disk_view h d' = disk_view h d" "disk_Bytes d' = disk_Bytes d"
proof -
  show "disk_ok h d' = disk_ok h d" "disk_Bytes d' = disk_Bytes d"
    using assms by (simp_all add: disk_ok_def disk_pre_def disk_Bytes_def)
  show "disk_view h d' = disk_view h d"
    by (rule ext) (simp add: disk_view_def disk_shard_def assms)
qed

lemma log_simps [simp]:
  "dt_maxBytes (snd (logNoTierDiscard E d)) = dt_maxBytes d" "dt_shards (snd (logNoTierDiscard E d)) = dt_shards d"
  "dt_blobs (snd (logNoTierDiscard E d)) = dt_blobs d"
  "dt_maxBytes (snd (logOversizeDiscard E d)) = dt_maxBytes d" "dt_shards (snd (logOversizeDiscard E d)) = dt_shards d"
  "dt_blobs (snd (logOversizeDiscard E d)) = dt_blobs d"
  by (simp_all add: logNoTierDiscard_def logOversizeDiscard_def)

subsection \<open>Commit\<close>

text \<open>The room a commit makes: the old entry of the key goes, then the loop runs.\<close>

lemma commit_room_ex:
  assumes "inj h" and "disk_ok h d" and "n \<le> ds_maxBytes (disk_shard d k)"
  obtains sb where "evictLRU h E n (removeLocked h E k (disk_shard d k, dt_blobs d)) = Some sb"
    and "disk_core h sb" and "shrunk h (disk_shard d k, dt_blobs d) sb"
    and "map_of (ds_items (fst sb)) k = None" and "ds_curBytes (fst sb) + n \<le> ds_maxBytes (disk_shard d k)"
proof -
  let ?s0 = "(disk_shard d k, dt_blobs d)"
  let ?s1 = "removeLocked h E k ?s0"
  have core: "disk_core h ?s0" using assms by (simp add: disk_ok_def disk_shard_core)
  have sh1: "shrunk h ?s0 ?s1" using assms(1) core shrunk_refl by (rule shrunk_remove)
  have c1: "disk_core h ?s1" using core by (rule removeLocked_core)
  let ?P = "\<lambda>sb. shrunk h ?s0 sb \<and> map_of (ds_items (fst sb)) k = None"
  have step: "?P (removeLocked h E k' sb)" if "?P sb" "disk_core h sb" for sb k'
    using that shrunk_remove [OF assms(1) that(2)] by simp
  have "?P ?s1" using sh1 by simp
  from evictLRU_rule [OF c1, of ?P n E, OF this] step obtain sb where
    sb: "evictLRU h E n ?s1 = Some sb" "disk_core h sb" "?P sb" "\<not> dover n sb \<or> nodes (ds_lru (fst sb)) = []"
    by blast
  have "ds_curBytes (fst sb) = 0" if "nodes (ds_lru (fst sb)) = []"
    using that sb(2) by (cases sb) (auto simp: disk_core_def dest: ring_ok_empty_nodes)
  moreover have "ds_maxBytes (fst sb) = ds_maxBytes (disk_shard d k)" using sb(3) by (simp add: shrunk_def)
  ultimately have "ds_curBytes (fst sb) + n \<le> ds_maxBytes (disk_shard d k)" using sb(4) assms(3) by auto
  with sb that show ?thesis by blast
qed

text \<open>Installing the new entry in the room made.\<close>

lemma disk_install:
  assumes "disk_core h (s, bl)" and "map_of (ds_items s) (Key m) = None" and "int (length b) = Size m"
    and "ds_curBytes s + Size m \<le> ds_maxBytes s" and "inj h" and "t \<notin> range h"
  defines "s' \<equiv> s\<lparr>ds_lru := snd (PushFront (Key m) (ds_lru s)),
      ds_items := AList.update (Key m) \<lparr>de_meta = m, de_el = nextid (ds_lru s)\<rparr> (ds_items s),
      ds_curBytes := ds_curBytes s + Size m, ds_atomicBytes := ds_curBytes s + Size m, ds_dirty := True\<rparr>"
    and "bl' \<equiv> bl(t := None, h (Key m) := Some b)"
  shows "disk_shard_ok h (s', bl')" and "dshard_view h (s', bl') (Key m) = Some (m, b)"
    and "k \<noteq> Key m \<Longrightarrow> dshard_view h (s', bl') k = dshard_view h (s, bl) k"
proof -
  have ring: "ring_ok de_el (ds_items s') (ds_lru s')"
    using assms(1,2) unfolding s'_def by (auto simp: disk_core_def intro!: ring_ok_push)
  have t: "t \<noteq> h k" for k using assms(6) by blast
  have cur: "ds_curBytes s' = msum (\<lambda>e. Size (de_meta e)) (ds_items s')" "ds_atomicBytes s' = ds_curBytes s'"
    using assms(1,2) by (simp_all add: s'_def disk_core_def msum_update)
  have "Key (de_meta e) = k \<and> 0 \<le> Size (de_meta e) \<and> (\<forall>b. bl' (h k) = Some b \<longrightarrow> int (length b) = Size (de_meta e))"
    if "map_of (ds_items s') k = Some e" for k e
  proof (cases "k = Key m")
    case True
    with that assms(3) show ?thesis by (auto simp: s'_def bl'_def)
  next
    case False
    with that have "map_of (ds_items s) k = Some e" by (simp add: s'_def)
    with False assms(1) t [of k] show ?thesis by (simp add: disk_core_def bl'_def inj_eq [OF assms(5)])
  qed
  with ring cur have "disk_core h (s', bl')" by (simp add: disk_core_def)
  with assms(4) show "disk_shard_ok h (s', bl')" by (simp add: disk_shard_ok_def s'_def)
  show "dshard_view h (s', bl') (Key m) = Some (m, b)"
    by (simp add: dshard_view_def s'_def bl'_def)
  show "dshard_view h (s', bl') k = dshard_view h (s, bl) k" if "k \<noteq> Key m"
    using that t [of k] by (simp add: dshard_view_def s'_def bl'_def inj_eq [OF assms(5)] split: option.split)
qed

definition temp_ok :: "string \<Rightarrow> int \<Rightarrow> DiskTier \<Rightarrow> bool" where
  "temp_ok tmp n d \<longleftrightarrow> HasPrefix tmp ''wip-'' \<and> (\<exists>b. dt_blobs d tmp = Some b \<and> n = int (length b))"

text \<open>A commit of a finished temporary file returns, whatever the operating system answers. The three
  outcomes: the object is too big for the shard, it is installed, the rename fails.\<close>

definition commit_result ::
  "(string \<Rightarrow> string) \<Rightarrow> ObjectMeta \<Rightarrow> bytes \<Rightarrow> DiskTier \<Rightarrow> bool \<Rightarrow> DiskTier \<Rightarrow> bool" where
  "commit_result h m b d stored d' \<longleftrightarrow>
     disk_ok h d' \<and> dt_maxBytes d' = dt_maxBytes d \<and>
     (stored \<longrightarrow> disk_view h d' (Key m) = Some (m\<lparr>Size := int (length b)\<rparr>, b)) \<and>
     (\<forall>k. k \<noteq> Key m \<or> \<not> stored \<longrightarrow> disk_view h d' k = None \<or> disk_view h d' k = disk_view h d k)"

lemma disk_commit_too_big:
  assumes h: "blob_names h" and d: "disk_ok h d" and tmp: "HasPrefix tmp ''wip-''"
    and big: "int (length b) > ds_maxBytes (disk_shard d (Key m))"
  shows "\<exists>d'. disk_commit h E m tmp (int (length b)) d = Some (False, False, d') \<and> commit_result h m b d False d'"
proof -
  let ?d = "d\<lparr>dt_blobs := Remove_file E tmp (dt_blobs d)\<rparr>"
  have "Remove_file E tmp (dt_blobs d) (h k) = dt_blobs d (h k)" for k
    using temp_not_blob [OF h tmp, of k] by (simp add: Remove_file_def)
  note ok = disk_ok_temp [OF d this]
  define d' where "d' = (if ds_maxBytes (disk_shard d (Key m)) \<le> 0
    then snd (logNoTierDiscard E (?d\<lparr>dt_noTierDiscards := dt_noTierDiscards ?d + 1\<rparr>))
    else snd (logOversizeDiscard E (?d\<lparr>dt_oversizeDiscards := dt_oversizeDiscards ?d + 1\<rparr>)))"
  have "disk_commit h E m tmp (int (length b)) d = Some (False, False, d')"
    using big by (simp add: disk_commit_def d'_def)
  moreover have conf: "dt_maxBytes d' = dt_maxBytes ?d" "dt_shards d' = dt_shards ?d" "dt_blobs d' = dt_blobs ?d"
    by (simp_all add: d'_def)
  ultimately show ?thesis using ok disk_ok_config [OF conf] by (simp add: commit_result_def)
qed

text \<open>Putting back a shard that has been shrunk and then possibly given the new entry.\<close>

lemma commit_put_result:
  assumes inj: "inj h" and d: "disk_ok h d" and sh: "shrunk h (disk_shard d (Key m), dt_blobs d) sb"
    and ok: "disk_shard_ok h sb'" and cap: "ds_maxBytes (fst sb') = ds_maxBytes (fst sb)"
    and keys: "\<And>k. map_of (ds_items (fst sb')) k \<noteq> None \<Longrightarrow> k = Key m \<or> map_of (ds_items (fst sb)) k \<noteq> None"
    and blobs: "\<And>k. k \<noteq> Key m \<Longrightarrow> snd sb' (h k) = snd sb (h k)"
    and view: "\<And>k. k \<noteq> Key m \<or> \<not> stored \<Longrightarrow> dshard_view h sb' k = dshard_view h sb k"
    and new: "stored \<Longrightarrow> dshard_view h sb' (Key m) = Some (m\<lparr>Size := int (length b)\<rparr>, b)"
  shows "commit_result h m b d stored (put_disk_shard (Key m) sb' d)"
proof -
  let ?d = "put_disk_shard (Key m) sb' d"
  have pre: "disk_pre h d" using d by (simp add: disk_ok_def)
  have others: "snd sb' (h k) = dt_blobs d (h k)" if "disk_index d k \<noteq> disk_index d (Key m)" for k
    using shrunk_other_blobs [OF inj pre sh that] blobs [of k] that by auto
  have "disk_ok h ?d"
  proof (rule put_disk_shard_ok [OF d ok])
    show "ds_maxBytes (fst sb') = ds_maxBytes (disk_shard d (Key m))" using cap sh by (simp add: shrunk_def)
    show "k = Key m \<or> map_of (ds_items (disk_shard d (Key m))) k \<noteq> None"
      if "map_of (ds_items (fst sb')) k \<noteq> None" for k
      using keys [OF that] sh unfolding shrunk_def by (metis fst_conv)
  qed (rule others)
  moreover have v: "disk_view h ?d k =
      (if disk_index d k = disk_index d (Key m) then dshard_view h sb' k else disk_view h d k)" for k
    using pre others by (rule disk_view_put)
  have "disk_view h ?d k = None \<or> disk_view h ?d k = disk_view h d k" if "k \<noteq> Key m \<or> \<not> stored" for k
    unfolding v using view [OF that] shrunk_view [OF sh, of k] disk_view_same_shard [of k d "Key m" h] by auto
  moreover have "disk_view h ?d (Key m) = Some (m\<lparr>Size := int (length b)\<rparr>, b)" if stored
    unfolding v using new [OF that] by simp
  ultimately show ?thesis by (simp add: commit_result_def)
qed

lemma disk_commit_fits:
  assumes h: "blob_names h" and d: "disk_ok h d" and tmp: "HasPrefix tmp ''wip-''" "dt_blobs d tmp = Some b"
    and fit: "int (length b) \<le> ds_maxBytes (disk_shard d (Key m))"
  shows "\<exists>d'. disk_commit h E m tmp (int (length b)) d = Some (os_rename E, \<not> os_rename E, d') \<and>
    commit_result h m b d (os_rename E) d'"
proof -
  have inj: "inj h" using h by (simp add: blob_names_def)
  let ?n = "int (length b)"
  obtain s bl where ev: "evictLRU h E ?n (removeLocked h E (Key m) (disk_shard d (Key m), dt_blobs d)) = Some (s, bl)"
    and core: "disk_core h (s, bl)" and sh: "shrunk h (disk_shard d (Key m), dt_blobs d) (s, bl)"
    and gone: "map_of (ds_items s) (Key m) = None" and room: "ds_curBytes s + ?n \<le> ds_maxBytes (disk_shard d (Key m))"
    using commit_room_ex [OF inj d fit] by (metis fst_conv surj_pair)
  have t: "tmp \<noteq> h k" for k using temp_not_blob [OF h tmp(1)] by blast
  have bt: "bl tmp = Some b" using sh t tmp(2) unfolding shrunk_def by (metis snd_conv)
  have cap: "ds_maxBytes s = ds_maxBytes (disk_shard d (Key m))" using sh by (simp add: shrunk_def)
  show ?thesis
  proof (cases "os_rename E")
    case True
    let ?m = "m\<lparr>Size := ?n\<rparr>"
    let ?sb = "(s\<lparr>ds_lru := snd (PushFront (Key m) (ds_lru s)),
        ds_items := AList.update (Key m) \<lparr>de_meta = ?m, de_el = nextid (ds_lru s)\<rparr> (ds_items s),
        ds_curBytes := ds_curBytes s + ?n, ds_atomicBytes := ds_curBytes s + ?n, ds_dirty := True\<rparr>,
        bl(tmp := None, h (Key m) := Some b))"
    have "disk_commit h E m tmp ?n d = Some (True, False, put_disk_shard (Key m) ?sb d)"
      using fit True ev bt by (simp add: disk_commit_def Let_def PushFront_def)
    moreover have ins: "disk_shard_ok h ?sb" "dshard_view h ?sb (Key m) = Some (?m, b)"
      "k \<noteq> Key m \<Longrightarrow> dshard_view h ?sb k = dshard_view h (s, bl) k" for k
      using disk_install [OF core, of ?m b tmp] gone room cap inj t by auto
    have "commit_result h m b d True (put_disk_shard (Key m) ?sb d)"
      by (rule commit_put_result [OF inj d sh]) (use ins t in \<open>auto simp: inj_eq [OF inj]\<close>)
    ultimately show ?thesis using True by simp
  next
    case False
    let ?sb = "(s, Remove_file E tmp bl)"
    have same: "Remove_file E tmp bl (h k) = bl (h k)" for k using t [of k] by (simp add: Remove_file_def)
    have "disk_core h ?sb" using core by (rule disk_core_blobs) (simp add: same)
    then have "disk_shard_ok h ?sb" using room cap by (simp add: disk_shard_ok_def)
    then have "commit_result h m b d False (put_disk_shard (Key m) ?sb d)"
      by (intro commit_put_result [OF inj d sh]) (simp_all add: same dshard_view_def split: option.split)
    moreover have "disk_commit h E m tmp ?n d = Some (False, True, put_disk_shard (Key m) ?sb d)"
      using fit False ev bt by (simp add: disk_commit_def Let_def)
    ultimately show ?thesis using False by simp
  qed
qed

lemma disk_commit_spec:
  assumes "blob_names h" and "disk_ok h d" and "HasPrefix tmp ''wip-''" and "dt_blobs d tmp = Some b"
  shows "\<exists>stored err d'. disk_commit h E m tmp (int (length b)) d = Some (stored, err, d') \<and>
    (stored \<longleftrightarrow> int (length b) \<le> ds_maxBytes (disk_shard d (Key m)) \<and> os_rename E) \<and>
    commit_result h m b d stored d'"
proof (cases "int (length b) > ds_maxBytes (disk_shard d (Key m))")
  case True
  with disk_commit_too_big [OF assms(1-3) True, of E] show ?thesis by auto
next
  case False
  with disk_commit_fits [OF assms, of m E] show ?thesis by auto
qed

end
