(* ===== verification/DiskContract.thy ===== *)
theory DiskContract
  imports DiskInv
begin

text \<open>
  The disk tier implements the tier contract, for every injective blob naming and every operating
  system that lets existing blobs be opened.
\<close>

subsection \<open>Reset\<close>

lemma reset_shard_ex:
  assumes "inj h" and "disk_core h (s, bl)"
  shows "disk_core h (reset_shard h E s bl) \<and> shrunk h (s, bl) (reset_shard h E s bl) \<and>
    ds_items (fst (reset_shard h E s bl)) = []"
proof -
  have fold: "disk_core h (fold (removeLocked h E) ks sb) \<and> shrunk h sb0 (fold (removeLocked h E) ks sb) \<and>
      ds_items (fst (fold (removeLocked h E) ks sb)) = fold AList.delete ks (ds_items (fst sb))"
    if "disk_core h sb" "shrunk h sb0 sb" for ks sb0 sb
    using that by (induction ks arbitrary: sb) (simp_all add: removeLocked_core shrunk_remove [OF assms(1)])
  have "map_of (fold AList.delete ks xs) k = (if k \<in> set ks then None else map_of xs k)" for ks k and xs :: "diskEntry gomap"
    by (induction ks arbitrary: xs) auto
  then have "map_of (fold AList.delete (map fst (ds_items s)) (ds_items s)) k = None" for k
    by (auto simp: map_of_eq_None_iff)
  then have "fold AList.delete (map fst (ds_items s)) (ds_items s) = []"
    by (metis map_of_eq_None_iff neq_Nil_conv list.set_intros(1) imageI fst_conv list.simps(15))
  with fold [OF assms(2) shrunk_refl] show ?thesis by (simp add: reset_shard_def)
qed

lemma empty_core: "disk_core h (s, bl) \<Longrightarrow> ds_items s = [] \<Longrightarrow> disk_core h (s, bl')"
  by (simp add: disk_core_def)

lemma reset_shards_ex:
  assumes "inj h" and "\<forall>s \<in> set ss. disk_core h (s, bl)"
  shows "\<exists>ss' bl'. reset_shards h E ss bl = (ss', bl') \<and>
    list_all2 (\<lambda>s s'. disk_core h (s', bl') \<and> ds_items s' = [] \<and> ds_maxBytes s' = ds_maxBytes s) ss ss'"
  using assms(2)
proof (induction ss arbitrary: bl)
  case (Cons s ss)
  obtain s' bl1 where r: "reset_shard h E s bl = (s', bl1)" by fastforce
  have s': "disk_core h (s', bl1)" "shrunk h (s, bl) (s', bl1)" "ds_items s' = []"
    using reset_shard_ex [OF assms(1), of s bl E] Cons.prems r by simp_all
  have "\<forall>t \<in> set ss. disk_core h (t, bl1)"
    using Cons.prems s'(2) by (auto simp: shrunk_def intro: disk_core_blobs)
  from Cons.IH [OF this] obtain ss' bl' where "reset_shards h E ss bl1 = (ss', bl')"
    "list_all2 (\<lambda>s s'. disk_core h (s', bl') \<and> ds_items s' = [] \<and> ds_maxBytes s' = ds_maxBytes s) ss ss'" by blast
  with r s' empty_core [OF s'(1,3), of bl'] show ?case by (simp add: shrunk_def)
qed simp

text \<open>Flushing the index only touches the dirty flags, the error counter and the index file.\<close>

lemma dirty_core [simp]: "disk_core h (s\<lparr>ds_dirty := x\<rparr>, bl) = disk_core h (s, bl)"
  by (simp add: disk_core_def)

lemma disk_ok_dirty:
  assumes "disk_ok h d" and "dt_shards d' = map (\<lambda>s. s\<lparr>ds_dirty := x\<rparr>) (dt_shards d)"
    and "dt_maxBytes d' = dt_maxBytes d" and "dt_blobs d' = dt_blobs d"
  shows "disk_ok h d'" "disk_view h d' = disk_view h d"
proof -
  show "disk_ok h d'" using assms by (auto simp: disk_ok_def disk_pre_def)
  have "disk_shard d' k = (disk_shard d k)\<lparr>ds_dirty := x\<rparr>" for k
    using assms disk_index_less [of h d k] by (simp add: disk_shard_def disk_ok_def)
  with assms(4) show "disk_view h d' = disk_view h d"
    by (simp add: fun_eq_iff disk_view_def dshard_view_def split: option.split)
qed

lemma flushIfDirty_ok:
  assumes "disk_ok h d"
  shows "disk_ok h (flushIfDirty E d)" "disk_view h (flushIfDirty E d) = disk_view h d"
proof -
  have "\<exists>x. dt_shards (flushIfDirty E d) = map (\<lambda>s. s\<lparr>ds_dirty := x\<rparr>) (dt_shards d)"
    by (auto simp: flushIfDirty_def snapshotIfDirty_def writeIndex_def comp_def)
  moreover have "dt_maxBytes (flushIfDirty E d) = dt_maxBytes d" "dt_blobs (flushIfDirty E d) = dt_blobs d"
    by (simp_all add: flushIfDirty_def snapshotIfDirty_def writeIndex_def)
  ultimately show "disk_ok h (flushIfDirty E d)" "disk_view h (flushIfDirty E d) = disk_view h d"
    using disk_ok_dirty [OF assms] by blast+
qed

lemma disk_Reset_spec:
  assumes "inj h" and "disk_ok h d"
  shows "disk_ok h (disk_Reset h E d)" "disk_view h (disk_Reset h E d) = Map.empty"
proof -
  have pre: "disk_pre h d" using assms(2) by (simp add: disk_ok_def)
  have "\<forall>s \<in> set (dt_shards d). disk_core h (s, dt_blobs d)"
    using pre by (auto simp: disk_pre_def in_set_conv_nth)
  from reset_shards_ex [OF assms(1) this, of E] obtain ss bl where
    rs: "reset_shards h E (dt_shards d) (dt_blobs d) = (ss, bl)"
    and all: "list_all2 (\<lambda>s s'. disk_core h (s', bl) \<and> ds_items s' = [] \<and> ds_maxBytes s' = ds_maxBytes s) (dt_shards d) ss"
    by blast
  let ?d = "d\<lparr>dt_shards := ss, dt_blobs := bl\<rparr>"
  have len: "length ss = length (dt_shards d)" using all by (simp add: list_all2_lengthD)
  have nth: "disk_core h (ss ! i, bl)" "ds_items (ss ! i) = []" "ds_maxBytes (ss ! i) = ds_maxBytes (dt_shards d ! i)"
    if "i < length ss" for i
    using list_all2_nthD2 [OF all that] by simp_all
  have "ds_curBytes s \<le> max 0 (ds_maxBytes s)" if "s \<in> set ss" for s
    using that nth by (auto simp: in_set_conv_nth disk_core_def)
  then have ok: "disk_ok h ?d"
    using pre nth len by (auto simp: disk_ok_def disk_pre_def)
  have "disk_view h ?d k = None" for k
    using nth(2) [of "disk_index d k"] disk_index_less [OF pre, of k] len
    by (simp add: disk_view_def dshard_view_def disk_shard_def)
  with ok rs flushIfDirty_ok [OF ok, of E] show "disk_ok h (disk_Reset h E d)" "disk_view h (disk_Reset h E d) = Map.empty"
    by (simp_all add: disk_Reset_def fun_eq_iff)
qed

subsection \<open>The byte budget\<close>

lemma disk_Bytes_bounds:
  assumes "disk_ok h d"
  shows "0 \<le> disk_Bytes d" "disk_Bytes d \<le> max 0 (dt_maxBytes d)"
proof -
  have s: "ds_atomicBytes s = ds_curBytes s \<and> 0 \<le> ds_curBytes s \<and> ds_curBytes s \<le> max 0 (ds_maxBytes s)"
    if "s \<in> set (dt_shards d)" for s
  proof -
    from that obtain i where "i < length (dt_shards d)" "s = dt_shards d ! i" by (auto simp: in_set_conv_nth)
    then have core: "disk_core h (s, dt_blobs d)" using assms by (simp add: disk_ok_def disk_pre_def)
    then have "ds_atomicBytes s = ds_curBytes s" by (simp add: disk_core_def)
    moreover have "ds_curBytes s \<le> max 0 (ds_maxBytes s)" using that assms by (simp add: disk_ok_def)
    ultimately show ?thesis using disk_core_cur_nonneg [OF core] by simp
  qed
  show "0 \<le> disk_Bytes d" unfolding disk_Bytes_def using s by (auto intro!: sum_list_nonneg)
  let ?m = "dt_maxBytes d"
  have "disk_Bytes d \<le> sum_list (map (max 0) (shardCaps ?m (shardCount ?m)))"
    unfolding disk_Bytes_def
  proof (rule sum_list_mono_nth)
    show "length (map ds_atomicBytes (dt_shards d)) = length (map (max 0) (shardCaps ?m (shardCount ?m)))"
      using assms by (simp add: disk_ok_def disk_pre_def)
    fix i
    assume "i < length (map ds_atomicBytes (dt_shards d))"
    then have i: "i < length (dt_shards d)" by simp
    then have "ds_maxBytes (dt_shards d ! i) = shardCaps ?m (shardCount ?m) ! i"
      using assms by (simp add: disk_ok_def disk_pre_def)
    with i s [OF nth_mem [OF i]] assms
    show "map ds_atomicBytes (dt_shards d) ! i \<le> map (max 0) (shardCaps ?m (shardCount ?m)) ! i"
      by (simp add: disk_ok_def disk_pre_def)
  qed
  also have "\<dots> = max 0 ?m" by (rule sum_shardCaps_max)
  finally show "disk_Bytes d \<le> max 0 (dt_maxBytes d)" .
qed

subsection \<open>The tier contract\<close>

text \<open>A writer whose temporary file is in place and has the length counted so far.\<close>

definition disk_writer_live :: "diskWriter \<Rightarrow> DiskTier \<Rightarrow> bool" where
  "disk_writer_live w d \<longleftrightarrow>
     HasPrefix (dw_tmp w) ''wip-'' \<and> \<not> dw_stored w \<and>
     (\<exists>b. dt_blobs d (dw_tmp w) = Some b \<and> dw_n w = int (length b))"

definition disk_wobj :: "diskWriter \<Rightarrow> DiskTier \<Rightarrow> obj" where
  "disk_wobj w d = ((dw_meta w)\<lparr>Size := dw_n w\<rparr>, the (dt_blobs d (dw_tmp w)))"

definition disk_tier_commit :: "(string \<Rightarrow> string) \<Rightarrow> os_env \<Rightarrow> diskWriter \<Rightarrow> DiskTier \<Rightarrow> bool \<times> DiskTier" where
  "disk_tier_commit h E w d =
     (case disk_Commit h E w d of None \<Rightarrow> (False, d) | Some (_, w', d') \<Rightarrow> (dw_stored w', d'))"

lemma disk_tier_commit_result:
  assumes h: "blob_names h" and d: "disk_ok h d" and w: "disk_writer_live w d"
  shows "commit_result h (dw_meta w) (snd (disk_wobj w d)) d (fst (disk_tier_commit h E w d)) (snd (disk_tier_commit h E w d))"
proof -
  from w obtain b where tmp: "HasPrefix (dw_tmp w) ''wip-''" "dt_blobs d (dw_tmp w) = Some b" "dw_n w = int (length b)"
    and st: "\<not> dw_stored w" by (auto simp: disk_writer_live_def)
  show ?thesis
  proof (cases "os_close E")
    case True
    from disk_commit_spec [OF h d tmp(1,2), of E "dw_meta w"] True tmp show ?thesis
      by (auto simp: disk_tier_commit_def disk_Commit_def disk_wobj_def)
  next
    case False
    have "Remove_file E (dw_tmp w) (dt_blobs d) (h k) = dt_blobs d (h k)" for k
      using temp_not_blob [OF h tmp(1), of k] by (simp add: Remove_file_def)
    with disk_ok_temp [OF d this] False st show ?thesis
      by (simp add: disk_tier_commit_def disk_Commit_def commit_result_def)
  qed
qed

lemma disk_cache_tier:
  assumes h: "blob_names h" and E: "\<forall>f. os_access E f"
  shows "cache_tier (disk_ok h) (disk_view h) (disk_Get h E) (disk_Delete h E) (disk_Reset h E)
    (disk_tier_commit h E) disk_writer_live disk_wobj disk_Bytes dt_maxBytes"
proof -
  have inj: "inj h" using h by (simp add: blob_names_def)
  have wobj: "Key (fst (disk_wobj w d)) = Key (dw_meta w)" for w d by (simp add: disk_wobj_def)
  have size: "(dw_meta w)\<lparr>Size := int (length (snd (disk_wobj w d)))\<rparr> = fst (disk_wobj w d)" if "disk_writer_live w d" for w d
    using that by (auto simp: disk_wobj_def disk_writer_live_def)
  show ?thesis
    by unfold_locales
      (use E disk_tier_commit_result [OF h] size in
        \<open>auto simp: disk_Get_view [OF inj] disk_Get_ok [OF inj] disk_Delete_view [OF inj] disk_Delete_ok [OF inj]
          disk_Reset_spec [OF inj] disk_Bytes_bounds commit_result_def wobj\<close>)
qed

end
