(* ===== verification/DiskLoad.thy ===== *)
theory DiskLoad
  imports DiskContract
begin

text \<open>
  Opening the disk tier and what survives a restart. \<open>load\<close> is characterised as a function of the
  index file and the blob directory; from that follow the safety of opening any directory, the
  round trip through \<open>Close\<close>, and the restart properties.
\<close>

subsection \<open>Loading one entry\<close>

definition good_entry :: "(string \<Rightarrow> string) \<Rightarrow> os_env \<Rightarrow> DiskTier \<Rightarrow> ObjectMeta \<Rightarrow> bool" where
  "good_entry h E d m \<longleftrightarrow>
     (case dt_blobs d (h (Key m)) of
        None \<Rightarrow> False
      | Some b \<Rightarrow>
          os_access E (h (Key m)) \<and> int (length b) = Size m \<and> Size m \<le> ds_maxBytes (disk_shard d (Key m)))"

definition push_entry :: "ObjectMeta \<Rightarrow> diskShard \<Rightarrow> diskShard" where
  "push_entry m s =
     s\<lparr>ds_lru := snd (PushFront (Key m) (ds_lru s)),
       ds_items := AList.update (Key m) \<lparr>de_meta = m, de_el = nextid (ds_lru s)\<rparr> (ds_items s),
       ds_curBytes := ds_curBytes s + Size m, ds_atomicBytes := ds_curBytes s + Size m\<rparr>"

lemma load_entry_eq:
  "load_entry h E m d =
     (if good_entry h E d m then put_disk_shard (Key m) (push_entry m (disk_shard d (Key m)), dt_blobs d) d
      else d\<lparr>dt_blobs := Remove_file E (h (Key m)) (dt_blobs d)\<rparr>)"
  by (cases "dt_blobs d (h (Key m))")
    (auto simp: load_entry_def good_entry_def push_entry_def PushFront_def Let_def)

lemma push_entry_core:
  assumes "disk_core h (s, bl)" and "map_of (ds_items s) (Key m) = None"
    and "bl (h (Key m)) = Some b" and "int (length b) = Size m"
  shows "disk_core h (push_entry m s, bl)"
proof -
  have ring: "ring_ok de_el (ds_items (push_entry m s)) (ds_lru (push_entry m s))"
    using assms(1,2) unfolding push_entry_def by (auto simp: disk_core_def intro!: ring_ok_push)
  have cur: "ds_curBytes (push_entry m s) = msum (\<lambda>e. Size (de_meta e)) (ds_items (push_entry m s))"
    "ds_atomicBytes (push_entry m s) = ds_curBytes (push_entry m s)"
    using assms(1,2) by (simp_all add: push_entry_def disk_core_def msum_update)
  have "Key (de_meta e) = k \<and> 0 \<le> Size (de_meta e) \<and> (\<forall>b. bl (h k) = Some b \<longrightarrow> int (length b) = Size (de_meta e))"
    if "map_of (ds_items (push_entry m s)) k = Some e" for k e
  proof (cases "k = Key m")
    case True
    with that assms(3,4) show ?thesis by (auto simp: push_entry_def)
  next
    case False
    with that have "map_of (ds_items s) k = Some e" by (simp add: push_entry_def)
    with assms(1) show ?thesis by (simp add: disk_core_def)
  qed
  with ring cur show ?thesis by (simp add: disk_core_def)
qed

lemma snapshot_push:
  assumes "disk_core h (s, bl)" and "map_of (ds_items s) (Key m) = None"
  shows "snapshot_shard (push_entry m s) = m # snapshot_shard s"
proof -
  have "snd n \<noteq> Key m" if "n \<in> set (nodes (ds_lru s))" for n
  proof -
    have "ring_ok de_el (ds_items s) (ds_lru s)" using assms(1) by (simp add: disk_core_def)
    moreover have "(fst n, snd n) \<in> set (nodes (ds_lru s))" using that by simp
    ultimately obtain e where "map_of (ds_items s) (snd n) = Some e" by (rule ring_ok_node)
    with assms(2) show ?thesis by auto
  qed
  then have "List.map_filter (\<lambda>(_, k). map_option de_meta (map_of (ds_items (push_entry m s)) k)) (nodes (ds_lru s)) =
      snapshot_shard s"
    unfolding snapshot_shard_def by (intro map_filter_cong) (auto simp: push_entry_def)
  moreover have "nodes (ds_lru (push_entry m s)) = (nextid (ds_lru s), Key m) # nodes (ds_lru s)"
    and "map_of (ds_items (push_entry m s)) (Key m) = Some \<lparr>de_meta = m, de_el = nextid (ds_lru s)\<rparr>"
    by (simp_all add: push_entry_def PushFront_def)
  ultimately show ?thesis unfolding snapshot_shard_def [of "push_entry m s"] by simp
qed

subsection \<open>Loading the index\<close>

text \<open>\<open>loaded h E d0 q d\<close>: \<open>d\<close> is the tier \<open>d0\<close> with empty shards after the entries \<open>q\<close>, a final
  segment of the file, have been processed.\<close>

definition loaded :: "(string \<Rightarrow> string) \<Rightarrow> os_env \<Rightarrow> DiskTier \<Rightarrow> ObjectMeta list \<Rightarrow> DiskTier \<Rightarrow> bool" where
  "loaded h E d0 q d \<longleftrightarrow>
     disk_pre h d \<and> dt_maxBytes d = dt_maxBytes d0 \<and>
     (\<forall>i < length (dt_shards d). snapshot_shard (dt_shards d ! i) =
        filter (\<lambda>m. good_entry h E d0 m \<and> disk_index d0 (Key m) = i) q) \<and>
     (\<forall>k. map_option de_meta (map_of (ds_items (disk_shard d k)) k) =
        find (\<lambda>m. Key m = k) (filter (good_entry h E d0) q)) \<and>
     (\<forall>f. dt_blobs d f =
        (if \<exists>m \<in> set q. f = h (Key m) \<and> \<not> good_entry h E d0 m \<and> os_remove E f then None else dt_blobs d0 f))"

lemma disk_pre_cap:
  assumes "disk_pre h d"
  shows "ds_maxBytes (disk_shard d k) =
    shardCaps (dt_maxBytes d) (shardCount (dt_maxBytes d)) ! shardIndex k (shardCount (dt_maxBytes d))"
  using assms disk_index_less [OF assms, of k] unfolding disk_pre_def disk_shard_def by metis

lemma loaded_good:
  assumes "inj h" and "disk_pre h d0" and "loaded h E d0 q d" and "Key m \<notin> Key ` set q"
  shows "good_entry h E d m = good_entry h E d0 m"
proof -
  have "dt_blobs d (h (Key m)) = dt_blobs d0 (h (Key m))"
    using assms(1,3,4) by (auto simp: loaded_def inj_eq)
  moreover have "ds_maxBytes (disk_shard d (Key m)) = ds_maxBytes (disk_shard d0 (Key m))"
    using disk_pre_cap [OF assms(2)] disk_pre_cap [of h d] assms(3) by (simp add: loaded_def)
  ultimately show ?thesis by (simp add: good_entry_def split: option.split)
qed

lemma loaded_skip:
  assumes "loaded h E d0 q d" and "\<not> good_entry h E d0 m"
  shows "loaded h E d0 (m # q) (d\<lparr>dt_blobs := Remove_file E (h (Key m)) (dt_blobs d)\<rparr>)"
proof -
  let ?d = "d\<lparr>dt_blobs := Remove_file E (h (Key m)) (dt_blobs d)\<rparr>"
  have "disk_core h (s, dt_blobs ?d)" if "disk_core h (s, dt_blobs d)" for s
    using that by (rule disk_core_blobs) (simp add: Remove_file_def)
  then have "disk_pre h ?d" using assms(1) by (auto simp: loaded_def disk_pre_def)
  moreover have "disk_shard ?d k = disk_shard d k" for k by (simp add: disk_shard_def)
  moreover have "dt_blobs ?d f = (if \<exists>m' \<in> set (m # q). f = h (Key m') \<and> \<not> good_entry h E d0 m' \<and> os_remove E f
      then None else dt_blobs d0 f)" for f
    using assms by (auto simp: loaded_def Remove_file_def)
  ultimately show ?thesis using assms unfolding loaded_def by simp
qed

lemma loaded_push:
  assumes inj: "inj h" and d0: "disk_pre h d0" and l: "loaded h E d0 q d"
    and good: "good_entry h E d0 m" and new: "Key m \<notin> Key ` set q"
  shows "loaded h E d0 (m # q) (put_disk_shard (Key m) (push_entry m (disk_shard d (Key m)), dt_blobs d) d)"
proof -
  let ?s = "disk_shard d (Key m)"
  let ?d = "put_disk_shard (Key m) (push_entry m ?s, dt_blobs d) d"
  have pre: "disk_pre h d" using l by (simp add: loaded_def)
  have len: "length (dt_shards d) = length (dt_shards d0)" using l d0 by (simp add: loaded_def disk_pre_def)
  have "find (\<lambda>m'. Key m' = Key m) (filter (good_entry h E d0) q) = None"
    using new unfolding find_None_iff by (metis filter_is_subset image_eqI subsetD)
  then have gone: "map_of (ds_items ?s) (Key m) = None"
    using l unfolding loaded_def by (metis option.map_disc_iff)
  have "good_entry h E d m" using loaded_good [OF inj d0 l new] good by simp
  then obtain b where b: "dt_blobs d (h (Key m)) = Some b" "int (length b) = Size m"
    by (auto simp: good_entry_def split: option.splits)
  have core: "disk_core h (push_entry m ?s, dt_blobs d)"
    using push_entry_core [OF disk_shard_core [OF pre] gone b] .
  have pre': "disk_pre h ?d"
    using core by (intro put_disk_shard_pre [OF pre]) (auto simp: push_entry_def split: if_splits)
  have shard: "dt_shards ?d ! i = (if i = disk_index d (Key m) then push_entry m ?s else dt_shards d ! i)"
    if "i < length (dt_shards d)" for i
    using that by (simp add: put_disk_shard_def nth_list_update)
  have idx: "disk_index d (Key m) < length (dt_shards d)" using pre by (rule disk_index_less)
  have "snapshot_shard (dt_shards ?d ! i) =
      filter (\<lambda>m. good_entry h E d0 m \<and> disk_index d0 (Key m) = i) (m # q)"
    if "i < length (dt_shards d)" for i
    using that l good len idx snapshot_push [OF disk_shard_core [OF pre] gone]
    unfolding shard [OF that] loaded_def by (auto simp: disk_shard_def)
  moreover have "map_option de_meta (map_of (ds_items (disk_shard ?d k)) k) =
      find (\<lambda>m. Key m = k) (filter (good_entry h E d0) (m # q))" for k
  proof (cases "k = Key m")
    case True
    then show ?thesis using good by (simp add: disk_shard_put [OF pre] push_entry_def)
  next
    case False
    have "disk_shard d k = ?s" if "disk_index d k = disk_index d (Key m)"
      using that by (simp add: disk_shard_def)
    with False have "map_of (ds_items (disk_shard ?d k)) k = map_of (ds_items (disk_shard d k)) k"
      by (simp add: disk_shard_put [OF pre] push_entry_def)
    with False good l show ?thesis by (simp add: loaded_def)
  qed
  moreover have "dt_blobs ?d f = (if \<exists>m' \<in> set (m # q). f = h (Key m') \<and> \<not> good_entry h E d0 m' \<and> os_remove E f
      then None else dt_blobs d0 f)" for f
    using l good by (simp add: loaded_def)
  ultimately show ?thesis using pre' l by (simp add: loaded_def)
qed

lemma loaded_step:
  assumes "inj h" and "disk_pre h d0" and "loaded h E d0 q d" and "Key m \<notin> Key ` set q"
  shows "loaded h E d0 (m # q) (load_entry h E m d)"
  unfolding load_entry_eq loaded_good [OF assms]
  using loaded_skip [OF assms(3), of m] loaded_push [OF assms(1-3) _ assms(4)] by presburger

lemma loaded_all:
  assumes inj: "inj h" and d0: "disk_pre h d0" and empty: "\<forall>s \<in> set (dt_shards d0). ds_items s = []"
    and dist: "distinct (map Key p)"
  shows "loaded h E d0 p (fold (load_entry h E) (rev p) d0)"
  using dist
proof (induction p)
  case Nil
  have e: "ds_items (dt_shards d0 ! i) = []" "nodes (ds_lru (dt_shards d0 ! i)) = []" if "i < length (dt_shards d0)" for i
  proof -
    show "ds_items (dt_shards d0 ! i) = []" using that empty by simp
    with that d0 show "nodes (ds_lru (dt_shards d0 ! i)) = []"
      by (auto simp: disk_pre_def disk_core_def ring_ok_def)
  qed
  with d0 show ?case
    using disk_index_less [OF d0]
    by (simp add: loaded_def disk_shard_def snapshot_shard_def List.map_filter_simps)
next
  case (Cons m q)
  then show ?case using loaded_step [OF inj d0] by simp
qed

subsection \<open>Trimming the shards\<close>

definition disjoint_keys :: "diskShard list \<Rightarrow> bool" where
  "disjoint_keys ss \<longleftrightarrow> sorted_wrt (\<lambda>s t. \<forall>k. map_of (ds_items s) k = None \<or> map_of (ds_items t) k = None) ss"

definition trimmed :: "(string \<Rightarrow> string) \<Rightarrow> blobs \<Rightarrow> blobs \<Rightarrow> diskShard \<Rightarrow> diskShard \<Rightarrow> bool" where
  "trimmed h bl bl' s s' \<longleftrightarrow>
     disk_core h (s', bl') \<and> ds_maxBytes s' = ds_maxBytes s \<and> ds_curBytes s' \<le> max 0 (ds_maxBytes s') \<and>
     (\<forall>k. map_of (ds_items s') k = None \<or>
          map_of (ds_items s') k = map_of (ds_items s) k \<and> bl' (h k) = bl (h k))"

lemma evictLRU_trim:
  assumes "inj h" and "disk_core h (s, bl)"
  obtains s' bl' where "evictLRU h E 0 (s, bl) = Some (s', bl')" and "shrunk h (s, bl) (s', bl')"
    and "trimmed h bl bl' s s'"
proof -
  obtain s' bl' where ev: "evictLRU h E 0 (s, bl) = Some (s', bl')" "disk_core h (s', bl')" "shrunk h (s, bl) (s', bl')"
    and fin: "\<not> dover 0 (s', bl') \<or> nodes (ds_lru s') = []"
    using evictLRU_shrunk [OF assms, of E 0] by (metis fst_conv surj_pair)
  have "ds_curBytes s' = 0" if "nodes (ds_lru s') = []"
    using that ev(2) by (auto simp: disk_core_def dest: ring_ok_empty_nodes)
  with fin have "ds_curBytes s' \<le> max 0 (ds_maxBytes s')" by auto
  with ev(2,3) have "trimmed h bl bl' s s'" by (simp add: trimmed_def shrunk_def)
  with ev(1,3) that show ?thesis by blast
qed

lemma trimmed_later:
  assumes "trimmed h bl bl1 s s'"
    and "\<And>k. map_of (ds_items s') k \<noteq> None \<Longrightarrow> bl' (h k) = bl1 (h k)"
  shows "trimmed h bl bl' s s'"
proof -
  have "disk_core h (s', bl1)" using assms(1) by (simp add: trimmed_def)
  then have core: "disk_core h (s', bl')" by (rule disk_core_blobs) (blast intro: assms(2))
  have "map_of (ds_items s') k = None \<or>
      map_of (ds_items s') k = map_of (ds_items s) k \<and> bl' (h k) = bl (h k)" for k
    using assms(1) assms(2) [of k] unfolding trimmed_def by metis
  with core assms(1) show ?thesis unfolding trimmed_def by blast
qed

text \<open>Trimming returns; afterwards every shard is within its cap, and what it still holds is
  unchanged, blobs included.\<close>

lemma trim_shards_ex:
  assumes "inj h" and "\<forall>s \<in> set ss. disk_core h (s, bl)" and "disjoint_keys ss"
  shows "\<exists>ss' bl'. trim_shards h E ss bl = Some (ss', bl') \<and>
    (\<forall>f. (\<forall>k. f = h k \<longrightarrow> (\<forall>s \<in> set ss. map_of (ds_items s) k = None)) \<longrightarrow> bl' f = bl f) \<and>
    list_all2 (trimmed h bl bl') ss ss'"
  using assms(2,3)
proof (induction ss arbitrary: bl)
  case (Cons s ss)
  obtain s' bl1 where ev: "evictLRU h E 0 (s, bl) = Some (s', bl1)" and sh: "shrunk h (s, bl) (s', bl1)"
    and tr: "trimmed h bl bl1 s s'"
    using evictLRU_trim [OF assms(1)] Cons.prems(1) by (metis list.set_intros(1))
  have dj: "map_of (ds_items s) k = None \<or> map_of (ds_items t) k = None" if "t \<in> set ss" for t k
    using that Cons.prems(2) by (simp add: disjoint_keys_def)
  have same1: "bl1 (h k) = bl (h k)" if "map_of (ds_items s) k = None" for k
    using that sh by (simp add: shrunk_def inj_eq [OF assms(1)])
  have "\<forall>t \<in> set ss. disk_core h (t, bl1)"
    using Cons.prems(1) sh by (auto simp: shrunk_def intro: disk_core_blobs)
  moreover have "disjoint_keys ss" using Cons.prems(2) by (simp add: disjoint_keys_def)
  ultimately obtain ss' bl' where rest: "trim_shards h E ss bl1 = Some (ss', bl')"
    and same: "\<And>f. \<forall>k. f = h k \<longrightarrow> (\<forall>s \<in> set ss. map_of (ds_items s) k = None) \<Longrightarrow> bl' f = bl1 f"
    and all: "list_all2 (trimmed h bl1 bl') ss ss'"
    using Cons.IH by metis
  have "trimmed h bl bl' s s'"
  proof (rule trimmed_later [OF tr])
    fix k
    assume "map_of (ds_items s') k \<noteq> None"
    then have "map_of (ds_items s) k \<noteq> None" using tr unfolding trimmed_def by metis
    with dj have "\<forall>t \<in> set ss. map_of (ds_items t) k = None" by metis
    then show "bl' (h k) = bl1 (h k)" using same by (simp add: inj_eq [OF assms(1)])
  qed
  moreover have "list_all2 (trimmed h bl bl') ss ss'"
  proof (rule list.rel_mono_strong [OF all])
    fix t t'
    assume t: "t \<in> set ss" and "trimmed h bl1 bl' t t'"
    moreover have "bl1 (h k) = bl (h k)" if "map_of (ds_items t) k \<noteq> None" for k
      using dj [OF t, of k] that same1 by blast
    ultimately show "trimmed h bl bl' t t'" unfolding trimmed_def by metis
  qed
  moreover have "bl' f = bl f" if "\<forall>k. f = h k \<longrightarrow> (\<forall>t \<in> set (s # ss). map_of (ds_items t) k = None)" for f
  proof -
    have "bl' f = bl1 f" using same that by simp
    also have "\<dots> = bl f" using sh that by (simp add: shrunk_def)
    finally show ?thesis .
  qed
  ultimately show ?case using ev rest by simp
qed simp

lemma trim_shards_noop:
  assumes "\<forall>s \<in> set ss. ds_curBytes s \<le> ds_maxBytes s"
  shows "trim_shards h E ss bl = Some (ss, bl)"
  using assms by (induction ss) (simp_all add: evictLRU_done)

lemma disk_pre_disjoint:
  assumes "disk_pre h d"
  shows "disjoint_keys (dt_shards d)"
  unfolding disjoint_keys_def sorted_wrt_iff_nth_less
proof (intro allI impI)
  fix i j k
  assume "i < j" and "j < length (dt_shards d)"
  with assms show "map_of (ds_items (dt_shards d ! i)) k = None \<or> map_of (ds_items (dt_shards d ! j)) k = None"
    unfolding disk_pre_def by (metis order_less_trans nat_neq_iff)
qed

subsection \<open>Opening a directory\<close>

definition fresh_tier :: "int \<Rightarrow> blobs \<Rightarrow> index_file \<Rightarrow> DiskTier" where
  "fresh_tier maxBytes bl ix =
     \<lparr>dt_maxBytes = maxBytes, dt_shards = map newDiskShard (shardCaps maxBytes (shardCount maxBytes)),
      dt_persistErrs = 0, dt_closed = False, dt_oversizeDiscards = 0, dt_noTierDiscards = 0, dt_log = False,
      dt_nextOversizeLog = 0, dt_nextNoTierLog = 0, dt_blobs = bl, dt_index = ix\<rparr>"

lemma NewDiskTier_eq:
  "NewDiskTier h E m bl ix = (if os_mkdir E then disk_load h E (reapTempBlobs E (fresh_tier m bl ix)) else Some None)"
  by (simp add: NewDiskTier_def fresh_tier_def Let_def)

lemma reap_simps [simp]:
  "dt_shards (reapTempBlobs E d) = dt_shards d" "dt_maxBytes (reapTempBlobs E d) = dt_maxBytes d"
  "dt_index (reapTempBlobs E d) = dt_index d"
  by (simp_all add: reapTempBlobs_def)

lemma reap_blobs: "blob_names h \<Longrightarrow> dt_blobs (reapTempBlobs E d) (h k) = dt_blobs d (h k)"
  by (simp add: reapTempBlobs_def blob_names_def)

definition opened :: "os_env \<Rightarrow> int \<Rightarrow> blobs \<Rightarrow> index_file \<Rightarrow> DiskTier" where
  "opened E m bl ix = reapTempBlobs E (fresh_tier m bl ix)"

lemma opened_simps [simp]:
  "dt_maxBytes (opened E m bl ix) = m" "dt_index (opened E m bl ix) = ix"
  "length (dt_shards (opened E m bl ix)) = shardCount m"
  by (simp_all add: opened_def fresh_tier_def)

lemma opened_shards: "dt_shards (opened E m bl ix) = map newDiskShard (shardCaps m (shardCount m))"
  by (simp add: opened_def fresh_tier_def)

lemma newDiskShard_simps [simp]:
  "ds_items (newDiskShard c) = []" "ds_maxBytes (newDiskShard c) = c" "ds_curBytes (newDiskShard c) = 0"
  by (simp_all add: newDiskShard_def)

lemma opened_pre:
  "disk_pre h (opened E m bl ix)" "\<forall>s \<in> set (dt_shards (opened E m bl ix)). ds_items s = []"
  by (simp_all add: disk_pre_def opened_shards newDiskShard_core)

lemma opened_blobs: "blob_names h \<Longrightarrow> dt_blobs (opened E m bl ix) (h k) = bl (h k)"
  by (simp add: opened_def reap_blobs) (simp add: fresh_tier_def)

lemma opened_ok: "disk_ok h (opened E m bl ix)"
proof -
  have "ds_curBytes s \<le> max 0 (ds_maxBytes s)" if "s \<in> set (dt_shards (opened E m bl ix))" for s
    using that by (auto simp: opened_shards)
  with opened_pre show ?thesis by (simp add: disk_ok_def)
qed

lemma opened_view: "disk_view h (opened E m bl ix) k = None"
proof -
  have "disk_shard (opened E m bl ix) k \<in> set (dt_shards (opened E m bl ix))"
    unfolding disk_shard_def by (rule nth_mem) simp
  with opened_pre(2) show ?thesis by (simp add: disk_view_def dshard_view_def)
qed

text \<open>Loading an index without duplicate keys.\<close>

lemma disk_load_ex:
  assumes h: "blob_names h" and dist: "distinct (map Key p)"
  shows "\<exists>d1 d. loaded h E (opened E m bl (Entries p)) p d1 \<and>
    disk_load h E (opened E m bl (Entries p)) = Some (Some d) \<and> disk_ok h d \<and> dt_maxBytes d = m \<and>
    list_all2 (trimmed h (dt_blobs d1) (dt_blobs d)) (dt_shards d1) (dt_shards d)"
proof -
  have inj: "inj h" using h by (simp add: blob_names_def)
  let ?do = "opened E m bl (Entries p)"
  let ?dl = "fold (load_entry h E) (rev p) ?do"
  have l: "loaded h E ?do p ?dl" using loaded_all [OF inj opened_pre dist] .
  then have pre: "disk_pre h ?dl" and max: "dt_maxBytes ?dl = m" by (simp_all add: loaded_def)
  have "\<forall>s \<in> set (dt_shards ?dl). disk_core h (s, dt_blobs ?dl)"
    using pre by (auto simp: disk_pre_def in_set_conv_nth)
  from trim_shards_ex [OF inj this disk_pre_disjoint [OF pre], of E] obtain ss bl' where
    tr: "trim_shards h E (dt_shards ?dl) (dt_blobs ?dl) = Some (ss, bl')"
    and all: "list_all2 (trimmed h (dt_blobs ?dl) bl') (dt_shards ?dl) ss" by blast
  let ?dn = "?dl\<lparr>dt_shards := ss, dt_blobs := bl'\<rparr>"
  have len: "length ss = length (dt_shards ?dl)" using all by (simp add: list_all2_lengthD)
  have nth: "trimmed h (dt_blobs ?dl) bl' (dt_shards ?dl ! i) (ss ! i)" if "i < length ss" for i
    using all that len by (simp add: list_all2_conv_all_nth)
  have "disk_pre h ?dn"
    unfolding disk_pre_def
  proof (intro conjI allI impI)
    show "length (dt_shards ?dn) = shardCount (dt_maxBytes ?dn)" using len pre by (simp add: disk_pre_def)
    fix i
    assume "i < length (dt_shards ?dn)"
    then have i: "i < length ss" by simp
    show "disk_core h (dt_shards ?dn ! i, dt_blobs ?dn)" using nth [OF i] by (simp add: trimmed_def)
    show "ds_maxBytes (dt_shards ?dn ! i) = shardCaps (dt_maxBytes ?dn) (shardCount (dt_maxBytes ?dn)) ! i"
      using nth [OF i] i len pre by (simp add: trimmed_def disk_pre_def)
    show "disk_index ?dn k = i" if "map_of (ds_items (dt_shards ?dn ! i)) k \<noteq> None" for k
    proof -
      have "map_of (ds_items (ss ! i)) k \<noteq> None" using that by simp
      then have "map_of (ds_items (dt_shards ?dl ! i)) k \<noteq> None"
        using nth [OF i] unfolding trimmed_def by metis
      then have "disk_index ?dl k = i" using pre i unfolding disk_pre_def len [symmetric] by metis
      then show ?thesis using len by simp
    qed
  qed
  moreover have "ds_curBytes s \<le> max 0 (ds_maxBytes s)" if "s \<in> set ss" for s
    using that nth by (auto simp: in_set_conv_nth trimmed_def)
  ultimately have "disk_ok h ?dn" by (simp add: disk_ok_def)
  moreover have "disk_load h E ?do = Some (Some ?dn)" using tr by (simp add: disk_load_def Let_def)
  ultimately show ?thesis using l all max
    by (intro exI [where x = ?dl] exI [where x = ?dn]) simp
qed

end
