(* ===== verification/DiskRestart.thy ===== *)
theory DiskRestart
  imports DiskLoad
begin

text \<open>
  What survives a restart of the disk tier: after \<open>Close\<close> everything does, the recency order
  included; after a crash what is served is still consistent in size with the metadata. The
  properties of the tier are at the end.
\<close>

subsection \<open>The snapshot of the index\<close>

definition valid_meta :: "ObjectMeta \<Rightarrow> bool" where
  "valid_meta m \<longleftrightarrow>
     valid_utf8 (Key m) \<and> valid_utf8 (ContentType m) \<and> valid_utf8 (ETag m) \<and> valid_utf8 (LastModified m) \<and>
     valid_utf8 (ContentEncoding m) \<and> valid_utf8 (Vary m)"

lemma json_meta_valid: "valid_meta m \<Longrightarrow> json_meta m = m\<lparr>Tier := []\<rparr>"
  by (cases m) (simp add: valid_meta_def json_meta_def json_string_valid)

lemma snapshot_shard_eq:
  assumes "disk_core h (s, bl)"
  shows "snapshot_shard s = map (\<lambda>n. de_meta (the (map_of (ds_items s) (snd n)))) (nodes (ds_lru s))"
  unfolding snapshot_shard_def
proof (rule map_filter_total)
  fix n
  assume "n \<in> set (nodes (ds_lru s))"
  moreover have "ring_ok de_el (ds_items s) (ds_lru s)" using assms by (simp add: disk_core_def)
  ultimately obtain e where "map_of (ds_items s) (snd n) = Some e"
    using ring_ok_node [of de_el "ds_items s" "ds_lru s" "fst n" "snd n"] by (metis prod.collapse)
  then show "(case n of (_, k) \<Rightarrow> map_option de_meta (map_of (ds_items s) k)) =
      Some (de_meta (the (map_of (ds_items s) (snd n))))"
    by (simp add: case_prod_beta)
qed

lemma snapshot_keys:
  assumes "disk_core h (s, bl)"
  shows "map Key (snapshot_shard s) = map snd (nodes (ds_lru s))"
proof -
  have "Key (de_meta (the (map_of (ds_items s) (snd n)))) = snd n" if n: "n \<in> set (nodes (ds_lru s))" for n
  proof -
    have ring: "ring_ok de_el (ds_items s) (ds_lru s)" using assms by (simp add: disk_core_def)
    from n have "(fst n, snd n) \<in> set (nodes (ds_lru s))" by simp
    with ring obtain e where "map_of (ds_items s) (snd n) = Some e" by (rule ring_ok_node)
    with assms show ?thesis by (simp add: disk_core_def)
  qed
  then show ?thesis by (simp add: snapshot_shard_eq [OF assms])
qed

lemma snapshot_set:
  assumes "disk_core h (s, bl)"
  shows "m \<in> set (snapshot_shard s) \<longleftrightarrow> (\<exists>e. map_of (ds_items s) (Key m) = Some e \<and> de_meta e = m)"
proof
  assume "m \<in> set (snapshot_shard s)"
  then obtain n where n: "n \<in> set (nodes (ds_lru s))" "m = de_meta (the (map_of (ds_items s) (snd n)))"
    by (auto simp: snapshot_shard_eq [OF assms])
  have ring: "ring_ok de_el (ds_items s) (ds_lru s)" using assms by (simp add: disk_core_def)
  from n(1) have "(fst n, snd n) \<in> set (nodes (ds_lru s))" by simp
  with ring obtain e where e: "map_of (ds_items s) (snd n) = Some e" by (rule ring_ok_node)
  with assms have "Key (de_meta e) = snd n" by (simp add: disk_core_def)
  with e n(2) show "\<exists>e. map_of (ds_items s) (Key m) = Some e \<and> de_meta e = m" by auto
next
  assume "\<exists>e. map_of (ds_items s) (Key m) = Some e \<and> de_meta e = m"
  then obtain e where e: "map_of (ds_items s) (Key m) = Some e" "de_meta e = m" by blast
  have "ring_ok de_el (ds_items s) (ds_lru s)" using assms by (simp add: disk_core_def)
  from ring_ok_entry [OF this e(1)] show "m \<in> set (snapshot_shard s)"
    unfolding snapshot_shard_eq [OF assms] set_map by (rule rev_image_eqI) (simp add: e)
qed

lemma snapshot_sum:
  assumes "disk_core h (s, bl)"
  shows "ds_curBytes s = sum_list (map Size (snapshot_shard s))"
proof -
  let ?f = "\<lambda>k. Size (de_meta (the (map_of (ds_items s) k)))"
  have ring: "ring_ok de_el (ds_items s) (ds_lru s)" using assms by (simp add: disk_core_def)
  have keys: "set (map snd (nodes (ds_lru s))) = fst ` set (ds_items s)"
    using ring by (simp add: ring_ok_def image_image)
  have "ds_curBytes s = sum_list (map (\<lambda>p. Size (de_meta (snd p))) (ds_items s))"
    using assms by (simp add: disk_core_def msum_def)
  also have "\<dots> = sum_list (map ?f (map fst (ds_items s)))"
  proof -
    have "map_of (ds_items s) (fst p) = Some (snd p)" if "p \<in> set (ds_items s)" for p
      using that ring_ok_distinct [OF ring] by simp
    then show ?thesis unfolding map_map by (intro arg_cong [where f = sum_list] map_cong) simp_all
  qed
  also have "\<dots> = sum ?f (fst ` set (ds_items s))"
    using sum_list_distinct_conv_sum_set [OF ring_ok_distinct [OF ring], of ?f] by simp
  also have "\<dots> = sum_list (map ?f (map snd (nodes (ds_lru s))))"
    using sum_list_distinct_conv_sum_set [OF ring_ok_keys_distinct [OF ring], of ?f] keys by simp
  finally show ?thesis by (simp add: snapshot_shard_eq [OF assms] comp_def)
qed

lemma distinct_concat_wrt:
  "sorted_wrt (\<lambda>xs ys. set xs \<inter> set ys = {}) xss \<Longrightarrow> \<forall>xs \<in> set xss. distinct xs \<Longrightarrow> distinct (concat xss)"
  by (induction xss) auto

lemma snapshot_distinct:
  assumes "disk_pre h d"
  shows "distinct (map Key (concat (map snapshot_shard (dt_shards d))))"
proof -
  have core: "disk_core h (s, dt_blobs d)" if "s \<in> set (dt_shards d)" for s
    using that assms by (auto simp: disk_pre_def in_set_conv_nth)
  let ?ks = "\<lambda>s. map Key (snapshot_shard s)"
  have "distinct (?ks s)" if "s \<in> set (dt_shards d)" for s
    unfolding snapshot_keys [OF core [OF that]]
    using core [OF that] by (auto simp: disk_core_def intro: ring_ok_keys_distinct)
  moreover have "sorted_wrt (\<lambda>xs ys. set xs \<inter> set ys = {}) (map ?ks (dt_shards d))"
  proof -
    have "set (?ks s) \<inter> set (?ks t) = {}"
      if "s \<in> set (dt_shards d)" "t \<in> set (dt_shards d)"
        "\<forall>k. map_of (ds_items s) k = None \<or> map_of (ds_items t) k = None" for s t
    proof (rule ccontr)
      assume "set (?ks s) \<inter> set (?ks t) \<noteq> {}"
      then obtain m m' where m: "m \<in> set (snapshot_shard s)" "m' \<in> set (snapshot_shard t)" "Key m = Key m'"
        by fastforce
      then have "map_of (ds_items s) (Key m) \<noteq> None" "map_of (ds_items t) (Key m) \<noteq> None"
        using snapshot_set [OF core [OF that(1)], of m] snapshot_set [OF core [OF that(2)], of m'] by auto
      with that(3) show False by metis
    qed
    with disk_pre_disjoint [OF assms] show ?thesis
      unfolding sorted_wrt_map disjoint_keys_def by (rule sorted_wrt_mono_rel [rotated]) blast
  qed
  ultimately have "distinct (concat (map ?ks (dt_shards d)))"
    by (intro distinct_concat_wrt) auto
  then show ?thesis by (simp add: map_concat comp_def)
qed

lemma filter_shard_concat:
  assumes "i < length xss" and "\<And>j x. j < length xss \<Longrightarrow> x \<in> set (xss ! j) \<Longrightarrow> f x = j"
  shows "filter (\<lambda>x. P x \<and> f x = i) (concat xss) = filter P (xss ! i)"
  using assms
proof (induction xss arbitrary: i f)
  case (Cons xs xss)
  have xs: "f x = 0" if "x \<in> set xs" for x using Cons.prems(2) [of 0] that by simp
  have rest: "f x = Suc j" if "j < length xss" "x \<in> set (xss ! j)" for x j
    using Cons.prems(2) [of "Suc j"] that by simp
  show ?case
  proof (cases i)
    case 0
    have "f x \<noteq> 0" if "x \<in> set (concat xss)" for x
      using that rest by (fastforce simp: in_set_conv_nth)
    then have "filter (\<lambda>x. P x \<and> f x = 0) (concat xss) = []" by (simp add: filter_empty_conv)
    with 0 xs show ?thesis by (simp cong: filter_cong)
  next
    case (Suc i')
    have "filter (\<lambda>x. P x \<and> f x = i) xs = []" using xs Suc by (simp add: filter_empty_conv)
    moreover have "filter (\<lambda>x. P x \<and> f x - 1 = i') (concat xss) = filter P (xss ! i')"
      using Cons.prems(1) Suc rest by (intro Cons.IH) auto
    moreover have "filter (\<lambda>x. P x \<and> f x = i) (concat xss) = filter (\<lambda>x. P x \<and> f x - 1 = i') (concat xss)"
      using rest Suc by (intro filter_cong) (auto simp: in_set_conv_nth, fastforce)
    ultimately show ?thesis using Suc by simp
  qed
qed simp

subsection \<open>Reopening a closed tier\<close>

definition strip :: "ObjectMeta \<Rightarrow> ObjectMeta" where
  "strip m = m\<lparr>Tier := []\<rparr>"

lemma strip_simps [simp]: "Key (strip m) = Key m" "Size (strip m) = Size m"
  by (simp_all add: strip_def)

definition index_entries :: "DiskTier \<Rightarrow> ObjectMeta list" where
  "index_entries d = concat (map snapshot_shard (dt_shards d))"

lemma Close_result:
  assumes "\<not> dt_closed d" and "os_index E" and "list_all valid_meta (index_entries d)"
  shows "dt_blobs (snd (disk_Close E d)) = dt_blobs d"
    "dt_index (snd (disk_Close E d)) = Entries (map strip (index_entries d))"
proof -
  have "map json_meta (index_entries d) = map strip (index_entries d)"
    using assms(3) by (auto simp: list_all_iff strip_def json_meta_valid)
  with assms(1,2) show "dt_blobs (snd (disk_Close E d)) = dt_blobs d"
    "dt_index (snd (disk_Close E d)) = Entries (map strip (index_entries d))"
    by (simp_all add: disk_Close_def snapshotIfDirty_def writeIndex_def index_entries_def)
qed

lemma core_nth: "disk_pre h d \<Longrightarrow> i < length (dt_shards d) \<Longrightarrow> disk_core h (dt_shards d ! i, dt_blobs d)"
  by (simp add: disk_pre_def)

lemma index_entries_nth:
  assumes "disk_pre h d" and "m \<in> set (index_entries d)"
  shows "m \<in> set (snapshot_shard (disk_shard d (Key m)))"
proof -
  obtain s where "s \<in> set (dt_shards d)" "m \<in> set (snapshot_shard s)"
    using assms(2) by (auto simp: index_entries_def)
  then obtain i where i: "i < length (dt_shards d)" "m \<in> set (snapshot_shard (dt_shards d ! i))"
    by (metis in_set_conv_nth)
  then have "map_of (ds_items (dt_shards d ! i)) (Key m) \<noteq> None"
    using snapshot_set [OF core_nth [OF assms(1) i(1)], of m] by auto
  then have "disk_index d (Key m) = i" using assms(1) i(1) unfolding disk_pre_def by metis
  with i show ?thesis by (simp add: disk_shard_def)
qed

lemma member_le_sum_int: "(x :: int) \<in> set xs \<Longrightarrow> \<forall>y \<in> set xs. 0 \<le> y \<Longrightarrow> x \<le> sum_list xs"
  by (induction xs) (auto simp: sum_list_nonneg intro: add_increasing add_increasing2)

lemma sum_filter_le: "\<forall>x \<in> set xs. 0 \<le> (f x :: int) \<Longrightarrow> sum_list (map f (filter P xs)) \<le> sum_list (map f xs)"
  by (induction xs) auto

lemma snapshot_sizes:
  assumes "disk_core h (s, bl)"
  shows "\<forall>m \<in> set (snapshot_shard s). 0 \<le> Size m"
  using assms snapshot_set [OF assms] by (auto simp: disk_core_def)

text \<open>With a non-negative budget every shard's bytes are within its cap.\<close>

lemma cur_le_cap:
  assumes "disk_ok h d" and "0 \<le> dt_maxBytes d" and "i < length (dt_shards d)"
  shows "ds_curBytes (dt_shards d ! i) \<le> ds_maxBytes (dt_shards d ! i)"
proof -
  have n: "i < shardCount (dt_maxBytes d)" using assms(1,3) by (simp add: disk_ok_def disk_pre_def)
  have "ds_maxBytes (dt_shards d ! i) = shardCaps (dt_maxBytes d) (shardCount (dt_maxBytes d)) ! i"
    using assms(1,3) by (simp add: disk_ok_def disk_pre_def)
  moreover have "0 \<le> shardCaps (dt_maxBytes d) (shardCount (dt_maxBytes d)) ! i"
  proof (cases "dt_maxBytes d = 0")
    case True
    with n show ?thesis by (simp add: shardCaps_def)
  next
    case False
    with assms(2) have "0 \<le> dt_maxBytes d div int (shardCount (dt_maxBytes d))"
      by (simp add: pos_imp_zdiv_nonneg_iff)
    also have "\<dots> \<le> shardCaps (dt_maxBytes d) (shardCount (dt_maxBytes d)) ! i"
      using nth_shardCaps(1) [of i "shardCount (dt_maxBytes d)" "dt_maxBytes d"] n False assms(2) by simp
    finally show ?thesis .
  qed
  moreover have "ds_curBytes (dt_shards d ! i) \<le> max 0 (ds_maxBytes (dt_shards d ! i))"
    using assms(1,3) by (simp add: disk_ok_def)
  ultimately show ?thesis by simp
qed

text \<open>An entry of the snapshot is accepted on reopening exactly when its blob is still there.\<close>

lemma reopen_good:
  assumes h: "blob_names h" and d: "disk_ok h d" and nn: "0 \<le> dt_maxBytes d" and acc: "\<forall>f. os_access E f"
    and m: "m \<in> set (index_entries d)"
  shows "good_entry h E (opened E (dt_maxBytes d) (dt_blobs d) ix) (strip m) \<longleftrightarrow> dt_blobs d (h (Key m)) \<noteq> None"
proof -
  let ?o = "opened E (dt_maxBytes d) (dt_blobs d) ix"
  have pre: "disk_pre h d" using d by (simp add: disk_ok_def)
  let ?i = "disk_index d (Key m)"
  have i: "?i < length (dt_shards d)" using pre by (rule disk_index_less)
  have core: "disk_core h (disk_shard d (Key m), dt_blobs d)" using pre by (rule disk_shard_core)
  have ms: "m \<in> set (snapshot_shard (disk_shard d (Key m)))" using index_entries_nth [OF pre m] .
  have "Size m \<le> sum_list (map Size (snapshot_shard (disk_shard d (Key m))))"
    using ms snapshot_sizes [OF core] by (intro member_le_sum_int) auto
  also have "\<dots> = ds_curBytes (disk_shard d (Key m))" using snapshot_sum [OF core] by simp
  also have "\<dots> \<le> ds_maxBytes (disk_shard d (Key m))" using cur_le_cap [OF d nn i] by (simp add: disk_shard_def)
  also have "\<dots> = ds_maxBytes (disk_shard ?o (Key m))"
    using disk_pre_cap [OF pre] disk_pre_cap [OF opened_pre(1)] by simp
  finally have cap: "Size m \<le> ds_maxBytes (disk_shard ?o (Key m))" .
  obtain e where "map_of (ds_items (disk_shard d (Key m))) (Key m) = Some e" "de_meta e = m"
    using ms snapshot_set [OF core] by blast
  then have "int (length b) = Size m" if "dt_blobs d (h (Key m)) = Some b" for b
    using that core by (auto simp: disk_core_def)
  with cap acc show ?thesis
    by (simp add: good_entry_def opened_blobs [OF h] split: option.split)
qed

lemma reopen_snapshot:
  assumes h: "blob_names h" and d: "disk_ok h d" and nn: "0 \<le> dt_maxBytes d" and acc: "\<forall>f. os_access E f"
    and i: "i < length (dt_shards d)"
  defines "ix \<equiv> Entries (map strip (index_entries d))"
  defines "o1 \<equiv> opened E (dt_maxBytes d) (dt_blobs d) ix"
  shows "filter (\<lambda>m. good_entry h E o1 m \<and> disk_index o1 (Key m) = i) (map strip (index_entries d)) =
    map strip (filter (\<lambda>m. dt_blobs d (h (Key m)) \<noteq> None) (snapshot_shard (dt_shards d ! i)))"
proof -
  have pre: "disk_pre h d" using d by (simp add: disk_ok_def)
  have len: "length (dt_shards o1) = length (dt_shards d)" using pre by (simp add: o1_def disk_pre_def)
  have route: "disk_index d (Key m) = j" if "j < length (dt_shards d)" "m \<in> set (snapshot_shard (dt_shards d ! j))" for m j
    using that pre snapshot_set [OF core_nth [OF pre that(1)], of m] unfolding disk_pre_def by auto
  have "filter (\<lambda>m. good_entry h E o1 m \<and> disk_index o1 (Key m) = i) (map strip (index_entries d)) =
      map strip (filter (\<lambda>m. good_entry h E o1 (strip m) \<and> disk_index d (Key m) = i) (index_entries d))"
    unfolding filter_map len by (simp add: comp_def)
  also have "\<dots> = map strip (filter (\<lambda>m. dt_blobs d (h (Key m)) \<noteq> None \<and> disk_index d (Key m) = i) (index_entries d))"
    using reopen_good [OF h d nn acc] unfolding o1_def by (intro arg_cong [where f = "map strip"] filter_cong) auto
  also have "\<dots> = map strip (filter (\<lambda>m. dt_blobs d (h (Key m)) \<noteq> None) (snapshot_shard (dt_shards d ! i)))"
    unfolding index_entries_def using i route
    by (subst filter_shard_concat [where f = "\<lambda>m. disk_index d (Key m)"]) simp_all
  finally show ?thesis .
qed

text \<open>The tier that reopening the directory of a closed tier gives.\<close>

lemma reopen_ex:
  assumes h: "blob_names h" and d: "disk_ok h d" and nn: "0 \<le> dt_maxBytes d" and acc: "\<forall>f. os_access E f"
  defines "ix \<equiv> Entries (map strip (index_entries d))"
  defines "o1 \<equiv> opened E (dt_maxBytes d) (dt_blobs d) ix"
  shows "\<exists>d'. disk_load h E o1 = Some (Some d') \<and> disk_ok h d' \<and> loaded h E o1 (map strip (index_entries d)) d'"
proof -
  have inj: "inj h" using h by (simp add: blob_names_def)
  have pre: "disk_pre h d" using d by (simp add: disk_ok_def)
  let ?p = "map strip (index_entries d)"
  let ?dl = "fold (load_entry h E) (rev ?p) o1"
  have "distinct (map Key ?p)" using snapshot_distinct [OF pre] by (simp add: index_entries_def comp_def)
  then have l: "loaded h E o1 ?p ?dl"
    unfolding o1_def by (intro loaded_all [OF inj opened_pre])
  then have lpre: "disk_pre h ?dl" and max: "dt_maxBytes ?dl = dt_maxBytes d" by (simp_all add: loaded_def o1_def)
  have len: "length (dt_shards ?dl) = length (dt_shards d)" using lpre pre max by (simp add: disk_pre_def)
  have le: "ds_curBytes (dt_shards ?dl ! i) \<le> ds_maxBytes (dt_shards ?dl ! i)" if "i < length (dt_shards ?dl)" for i
  proof -
    have i: "i < length (dt_shards d)" using that len by simp
    have "snapshot_shard (dt_shards ?dl ! i) =
        map strip (filter (\<lambda>m. dt_blobs d (h (Key m)) \<noteq> None) (snapshot_shard (dt_shards d ! i)))"
      using l that reopen_snapshot [OF h d nn acc i] by (simp add: loaded_def o1_def ix_def)
    then have "ds_curBytes (dt_shards ?dl ! i) =
        sum_list (map Size (filter (\<lambda>m. dt_blobs d (h (Key m)) \<noteq> None) (snapshot_shard (dt_shards d ! i))))"
      using snapshot_sum [OF core_nth [OF lpre that]] by (simp add: comp_def)
    also have "\<dots> \<le> sum_list (map Size (snapshot_shard (dt_shards d ! i)))"
      using snapshot_sizes [OF core_nth [OF pre i]] by (rule sum_filter_le)
    also have "\<dots> = ds_curBytes (dt_shards d ! i)" using snapshot_sum [OF core_nth [OF pre i]] by simp
    also have "\<dots> \<le> ds_maxBytes (dt_shards d ! i)" using cur_le_cap [OF d nn i] .
    also have "\<dots> = ds_maxBytes (dt_shards ?dl ! i)" using pre lpre i that max by (simp add: disk_pre_def)
    finally show ?thesis .
  qed
  then have le': "\<forall>s \<in> set (dt_shards ?dl). ds_curBytes s \<le> ds_maxBytes s" by (metis in_set_conv_nth)
  have "dt_index o1 = Entries ?p" by (simp add: o1_def ix_def)
  then have "disk_load h E o1 = Some (Some ?dl)"
    using trim_shards_noop [OF le'] by (simp add: disk_load_def Let_def)
  moreover have "disk_ok h ?dl" using lpre le' by (force simp: disk_ok_def)
  ultimately show ?thesis using l by blast
qed

lemma index_entries_key:
  assumes "disk_pre h d"
  shows "m \<in> set (index_entries d) \<longleftrightarrow> (\<exists>e. map_of (ds_items (disk_shard d (Key m))) (Key m) = Some e \<and> de_meta e = m)"
proof -
  have "disk_shard d (Key m) \<in> set (dt_shards d)"
    unfolding disk_shard_def using disk_index_less [OF assms] by (rule nth_mem)
  then have "m \<in> set (index_entries d) \<longleftrightarrow> m \<in> set (snapshot_shard (disk_shard d (Key m)))"
    using index_entries_nth [OF assms, of m] unfolding index_entries_def by auto
  then show ?thesis unfolding snapshot_set [OF disk_shard_core [OF assms]] .
qed

lemma reopen_member:
  assumes h: "blob_names h" and d: "disk_ok h d" and nn: "0 \<le> dt_maxBytes d" and acc: "\<forall>f. os_access E f"
    and m: "m \<in> set (map strip (index_entries d))"
  obtains e where "map_of (ds_items (disk_shard d (Key m))) (Key m) = Some e" and "m = strip (de_meta e)"
    and "good_entry h E (opened E (dt_maxBytes d) (dt_blobs d) ix) m \<longleftrightarrow> dt_blobs d (h (Key m)) \<noteq> None"
proof -
  from m obtain m0 where m0: "m0 \<in> set (index_entries d)" "m = strip m0" unfolding set_map by blast
  have pre: "disk_pre h d" using d by (simp add: disk_ok_def)
  have k: "Key m = Key m0" using m0(2) by simp
  obtain e where "map_of (ds_items (disk_shard d (Key m0))) (Key m0) = Some e" "de_meta e = m0"
    using m0(1) unfolding index_entries_key [OF pre] by blast
  with that [of e] reopen_good [OF h d nn acc m0(1), of ix] m0(2) k show ?thesis by metis
qed

lemma reopen_entry:
  assumes h: "blob_names h" and d: "disk_ok h d" and nn: "0 \<le> dt_maxBytes d" and acc: "\<forall>f. os_access E f"
    and l: "loaded h E (opened E (dt_maxBytes d) (dt_blobs d) ix) (map strip (index_entries d)) d'"
  shows "map_option de_meta (map_of (ds_items (disk_shard d' k)) k) =
    (if dt_blobs d (h k) = None then None else map_option (strip \<circ> de_meta) (map_of (ds_items (disk_shard d k)) k))"
proof -
  let ?p = "map strip (index_entries d)"
  let ?good = "good_entry h E (opened E (dt_maxBytes d) (dt_blobs d) ix)"
  have pre: "disk_pre h d" using d by (simp add: disk_ok_def)
  note member = reopen_member [OF h d nn acc, of _ ix]
  have items: "map_option de_meta (map_of (ds_items (disk_shard d' k)) k) = find (\<lambda>m. Key m = k) (filter ?good ?p)"
    using l by (simp add: loaded_def)
  show ?thesis
  proof (cases "find (\<lambda>m. Key m = k) (filter ?good ?p)")
    case None
    have "dt_blobs d (h k) = None \<or> map_of (ds_items (disk_shard d k)) k = None"
    proof (rule ccontr)
      assume "\<not> ?thesis"
      then obtain e where e: "map_of (ds_items (disk_shard d k)) k = Some e" and b: "dt_blobs d (h k) \<noteq> None" by blast
      have key: "Key (de_meta e) = k" using disk_shard_core [OF pre, of k] e by (simp add: disk_core_def)
      then have "de_meta e \<in> set (index_entries d)" using e unfolding index_entries_key [OF pre] by simp
      then have "strip (de_meta e) \<in> set ?p" by simp
      moreover from member [OF this] b key have "?good (strip (de_meta e))" by (metis strip_simps(1))
      ultimately have "strip (de_meta e) \<in> set (filter ?good ?p)" by (simp del: set_map)
      with None key show False unfolding find_None_iff by (metis strip_simps(1))
    qed
    with items None show ?thesis by auto
  next
    case (Some m)
    then have m: "m \<in> set ?p" "?good m" "Key m = k"
      using find_SomeD [OF Some] by (simp_all del: set_map)
    obtain e where "map_of (ds_items (disk_shard d k)) k = Some e" "m = strip (de_meta e)" "dt_blobs d (h k) \<noteq> None"
      using member [OF m(1)] m(2,3) by metis
    with items Some show ?thesis by auto
  qed
qed

lemma reopen_view:
  assumes h: "blob_names h" and d: "disk_ok h d" and nn: "0 \<le> dt_maxBytes d" and acc: "\<forall>f. os_access E f"
    and l: "loaded h E (opened E (dt_maxBytes d) (dt_blobs d) ix) (map strip (index_entries d)) d'"
  shows "disk_view h d' k = map_option (\<lambda>(m, b). (strip m, b)) (disk_view h d k)"
proof -
  have inj: "inj h" using h by (simp add: blob_names_def)
  note entry = reopen_entry [OF assms, of k]
  have blob: "dt_blobs d' (h k) = dt_blobs d (h k)" if "dt_blobs d (h k) \<noteq> None"
  proof -
    have "good_entry h E (opened E (dt_maxBytes d) (dt_blobs d) ix) m"
      if "m \<in> set (map strip (index_entries d))" "h k = h (Key m)" for m
      using reopen_member [OF h d nn acc that(1), of ix] that(2) \<open>dt_blobs d (h k) \<noteq> None\<close> by metis
    then show ?thesis using l opened_blobs [OF h] unfolding loaded_def by auto
  qed
  show ?thesis
  proof (cases "dt_blobs d (h k)")
    case None
    with entry show ?thesis by (simp add: disk_view_def dshard_view_def split: option.split)
  next
    case (Some b)
    with entry blob show ?thesis
      by (cases "map_of (ds_items (disk_shard d k)) k") (auto simp: disk_view_def dshard_view_def)
  qed
qed

subsection \<open>Sessions of the streaming writer\<close>

primrec disk_Writes :: "bytes list \<Rightarrow> diskWriter \<Rightarrow> DiskTier \<Rightarrow> diskWriter \<times> DiskTier" where
  "disk_Writes [] w d = (w, d)"
| "disk_Writes (p # ps) w d = (let (_, w', d') = disk_Write (length p) p w d in disk_Writes ps w' d')"

lemma disk_Writes_result:
  assumes "disk_Writes ps w d = (w', d')" and "dt_blobs d (dw_tmp w) = Some b" and "dw_n w = int (length b)"
  shows "dw_tmp w' = dw_tmp w \<and> dw_meta w' = dw_meta w \<and> dw_stored w' = dw_stored w \<and>
    dw_n w' = int (length (b @ concat ps)) \<and> d' = d\<lparr>dt_blobs := (dt_blobs d)(dw_tmp w := Some (b @ concat ps))\<rparr>"
  using assms
proof (induction ps arbitrary: w d b)
  case Nil
  then have "(dt_blobs d)(dw_tmp w := Some b) = dt_blobs d" by (simp add: fun_upd_idem)
  with Nil show ?case by simp
next
  case (Cons p ps)
  let ?w = "w\<lparr>dw_n := dw_n w + int (length p)\<rparr>" and ?e = "d\<lparr>dt_blobs := (dt_blobs d)(dw_tmp w := Some (b @ p))\<rparr>"
  have "disk_Writes ps ?w ?e = (w', d')" using Cons.prems by (simp add: disk_Write_def)
  from Cons.IH [OF this, of "b @ p"] Cons.prems(3) show ?case by (simp cong: if_cong)
qed

definition disk_session ::
  "(string \<Rightarrow> string) \<Rightarrow> os_env \<Rightarrow> ObjectMeta \<Rightarrow> string \<Rightarrow> bytes list \<Rightarrow> DiskTier \<Rightarrow> (bool \<times> diskWriter \<times> DiskTier) option" where
  "disk_session h E m t ps d =
     (case disk_Writer m (Some t) d of
        None \<Rightarrow> None
      | Some (w, d) \<Rightarrow> (let (w, d) = disk_Writes ps w d in disk_Commit h E w d))"

lemma disk_Commit_spec:
  assumes h: "blob_names h" and d: "disk_ok h d" and t: "HasPrefix (dw_tmp w) ''wip-''"
    and b: "dt_blobs d (dw_tmp w) = Some b" "dw_n w = int (length b)" and st: "\<not> dw_stored w"
  shows "\<exists>err w' d'. disk_Commit h E w d = Some (err, w', d') \<and>
    (dw_stored w' \<longleftrightarrow> os_close E \<and> os_rename E \<and> int (length b) \<le> ds_maxBytes (disk_shard d (Key (dw_meta w)))) \<and>
    commit_result h (dw_meta w) b d (dw_stored w') d'"
proof (cases "os_close E")
  case True
  with disk_commit_spec [OF h d t b(1), of E "dw_meta w"] b(2) show ?thesis by (auto simp: disk_Commit_def)
next
  case False
  have "Remove_file E (dw_tmp w) (dt_blobs d) (h k) = dt_blobs d (h k)" for k
    using temp_not_blob [OF h t, of k] by (simp add: Remove_file_def)
  with disk_ok_temp [OF d this] False st show ?thesis by (auto simp: disk_Commit_def commit_result_def)
qed

lemma disk_session_result:
  assumes h: "blob_names h" and d: "disk_ok h d" and t: "HasPrefix t ''wip-''"
  shows "\<exists>err w d1 d'. disk_session h E m t ps d = Some (err, w, d') \<and> disk_view h d1 = disk_view h d \<and>
    (dw_stored w \<longleftrightarrow> os_close E \<and> os_rename E \<and> int (length (concat ps)) \<le> ds_maxBytes (disk_shard d (Key m))) \<and>
    commit_result h m (concat ps) d1 (dw_stored w) d'"
proof -
  let ?b = "concat ps"
  let ?w0 = "\<lparr>dw_meta = m, dw_tmp = t, dw_n = 0, dw_stored = False\<rparr>" and ?do = "d\<lparr>dt_blobs := (dt_blobs d)(t := Some [])\<rparr>"
  obtain w1 d1 where w1: "disk_Writes ps ?w0 ?do = (w1, d1)" by fastforce
  have w: "dw_tmp w1 = t" "dw_meta w1 = m" "\<not> dw_stored w1" "dw_n w1 = int (length ?b)"
    "d1 = d\<lparr>dt_blobs := (dt_blobs d)(t := Some ?b)\<rparr>"
    using disk_Writes_result [OF w1, of "[]"] by (simp_all cong: if_cong)
  have "((dt_blobs d)(t := Some ?b)) (h k) = dt_blobs d (h k)" for k using temp_not_blob [OF h t, of k] by simp
  then have d1: "disk_ok h d1" "disk_view h d1 = disk_view h d"
    unfolding w(5) by (rule disk_ok_temp [OF d])+
  have b: "dt_blobs d1 (dw_tmp w1) = Some ?b" "disk_shard d1 (Key m) = disk_shard d (Key m)"
    by (simp_all add: w(1,5) disk_shard_def)
  have "HasPrefix (dw_tmp w1) ''wip-''" using t w(1) by simp
  from disk_Commit_spec [OF h d1(1) this b(1) w(4,3), of E, unfolded w(2) b(2)]
  show ?thesis using w1 d1(2) by (simp add: disk_session_def disk_Writer_def) metis
qed

subsection \<open>Properties\<close>

text \<open>The hash used in the examples: a letter in front of the key.\<close>

definition sample_hash :: "string \<Rightarrow> string" where
  "sample_hash k = CHR ''b'' # k"

lemma sample_hash_ok: "blob_names sample_hash"
  by (simp add: blob_names_def sample_hash_def inj_def HasPrefix_def)

definition os_fine :: os_env where
  "os_fine = \<lparr>os_access = \<lambda>_. True, os_remove = \<lambda>_. True, os_rename = True, os_close = True, os_index = True,
     os_readdir = True, os_mkdir = True, os_now = 0\<rparr>"

lemma open_empty:
  assumes "blob_names h"
  shows "disk_ok h (opened E m bl ix)" "0 \<le> disk_Bytes (opened E m bl ix)"
    "disk_Bytes (opened E m bl ix) \<le> max 0 m" "fst (disk_Get h E' k (opened E m bl ix)) = None"
  using opened_ok [of h E m bl ix] disk_Bytes_bounds [of h "opened E m bl ix"] assms
  by (simp_all add: disk_Get_view opened_view blob_names_def)

text \<open>C19: opening a directory. Whatever the blob directory holds and whatever a readable index
  without duplicate keys says, opening the tier returns; the tier satisfies its invariant and its
  byte budget, and every object it serves is an entry of the index whose blob was found in the
  directory with exactly the recorded size.\<close>

theorem disk_open_safe:
  assumes h: "blob_names h" and E: "os_mkdir E" and ix: "ix \<noteq> Unreadable"
    and dist: "\<forall>p. ix = Entries p \<longrightarrow> distinct (map Key p)"
  shows "\<exists>d. NewDiskTier h E maxBytes bl ix = Some (Some d) \<and> disk_ok h d \<and>
    0 \<le> disk_Bytes d \<and> disk_Bytes d \<le> max 0 maxBytes \<and>
    (\<forall>k m b. fst (disk_Get h E k d) = Some (m, b) \<longrightarrow>
       (\<exists>p. ix = Entries p \<and> m \<in> set p) \<and> Key m = k \<and> bl (h k) = Some b \<and> Size m = int (length b))"
proof (cases ix)
  case (Entries p)
  have inj: "inj h" using h by (simp add: blob_names_def)
  let ?op = "opened E maxBytes bl ix"
  obtain dl d where l: "loaded h E ?op p dl" and d: "disk_load h E ?op = Some (Some d)" "disk_ok h d" "dt_maxBytes d = maxBytes"
    and tr: "list_all2 (trimmed h (dt_blobs dl) (dt_blobs d)) (dt_shards dl) (dt_shards d)"
    using disk_load_ex [OF h, of p E maxBytes bl] dist Entries by blast
  have "m \<in> set p \<and> Key m = k \<and> bl (h k) = Some b \<and> Size m = int (length b)"
    if "fst (disk_Get h E k d) = Some (m, b)" for k m b
  proof -
    have "disk_view h d k = Some (m, b)" using that by (simp add: disk_Get_view [OF inj d(2)] split: if_splits)
    then obtain e where e: "map_of (ds_items (disk_shard d k)) k = Some e" "m = de_meta e" "dt_blobs d (h k) = Some b"
      by (auto simp: disk_view_def dshard_view_def split: option.splits)
    have len: "length (dt_shards dl) = length (dt_shards d)" using tr by (rule list_all2_lengthD)
    have i: "disk_index d k < length (dt_shards d)" using d(2) disk_index_less [of h d k] by (simp add: disk_ok_def)
    have "trimmed h (dt_blobs dl) (dt_blobs d) (disk_shard dl k) (disk_shard d k)"
      using list_all2_nthD2 [OF tr i] by (simp add: disk_shard_def len)
    with e have dl: "map_of (ds_items (disk_shard dl k)) k = Some e" "dt_blobs dl (h k) = Some b"
      unfolding trimmed_def by (metis option.distinct(1))+
    have "find (\<lambda>m. Key m = k) (filter (good_entry h E ?op) p) = Some m"
      using l dl(1) e(2) unfolding loaded_def by (metis option.simps(9))
    then have m: "m \<in> set p" "good_entry h E ?op m" "Key m = k" using find_SomeD by fastforce+
    moreover have "dt_blobs ?op (h k) = Some b"
      using l dl(2) unfolding loaded_def by (metis option.distinct(1))
    ultimately show ?thesis using opened_blobs [OF h] by (simp add: good_entry_def)
  qed
  with d E Entries disk_Bytes_bounds [OF d(2)] show ?thesis
    by (simp add: NewDiskTier_eq opened_def)
qed (use ix E open_empty [OF h] in \<open>auto simp: NewDiskTier_eq opened_def [symmetric] disk_load_def\<close>)

theorem disk_open_safe_witness:
  "\<exists>d. NewDiskTier sample_hash os_fine 100 [''bk'' \<mapsto> ''abc''] (Entries [(sample_meta ''k'')\<lparr>Size := 3\<rparr>]) = Some (Some d) \<and>
    disk_Bytes d \<le> 100 \<and> fst (disk_Get sample_hash os_fine ''k'' d) = Some ((sample_meta ''k'')\<lparr>Size := 3\<rparr>, ''abc'')"
proof -
  let ?ix = "Entries [(sample_meta ''k'')\<lparr>Size := 3\<rparr>]" and ?bl = "[''bk'' \<mapsto> ''abc'']"
  have "map_option (map_option (\<lambda>d. fst (disk_Get sample_hash os_fine ''k'' d) = None))
      (NewDiskTier sample_hash os_fine 100 ?bl ?ix) = Some (Some False)"
    by code_simp
  then obtain d m b where d: "NewDiskTier sample_hash os_fine 100 ?bl ?ix = Some (Some d)"
    and g: "fst (disk_Get sample_hash os_fine ''k'' d) = Some (m, b)"
    by auto
  have "disk_Bytes d \<le> 100 \<and> m = (sample_meta ''k'')\<lparr>Size := 3\<rparr> \<and> b = ''abc''"
    using disk_open_safe [OF sample_hash_ok, of os_fine ?ix 100 ?bl] d g by (force simp: os_fine_def sample_hash_def)
  with d g show ?thesis by blast
qed

text \<open>C5: a graceful restart loses nothing. Closing a tier whose metadata is valid UTF-8 and opening
  its directory again with the same budget gives a tier in which every key reads as it did before
  \<open>Close\<close>, the write-time tier hint apart, and every shard has its entries in the same recency
  order, those whose blob had vanished apart.\<close>

theorem disk_restart_roundtrip:
  assumes h: "blob_names h" and d: "disk_ok h d" and nn: "0 \<le> dt_maxBytes d" and opn: "\<not> dt_closed d"
    and valid: "list_all valid_meta (index_entries d)" and E: "os_index E" "os_mkdir E" "\<forall>f. os_access E f"
  shows "\<exists>d'. NewDiskTier h E (dt_maxBytes d) (dt_blobs (snd (disk_Close E d))) (dt_index (snd (disk_Close E d))) =
      Some (Some d') \<and> disk_ok h d' \<and>
    (\<forall>k. fst (disk_Get h E k d') = map_option (\<lambda>(m, b). (m\<lparr>Tier := []\<rparr>, b)) (fst (disk_Get h E k d))) \<and>
    (\<forall>i < length (dt_shards d). map Key (snapshot_shard (dt_shards d' ! i)) =
       filter (\<lambda>k. dt_blobs d (h k) \<noteq> None) (map Key (snapshot_shard (dt_shards d ! i))))"
proof -
  have inj: "inj h" using h by (simp add: blob_names_def)
  let ?ix = "Entries (map strip (index_entries d))"
  let ?op = "opened E (dt_maxBytes d) (dt_blobs d) ?ix"
  obtain d' where d': "disk_load h E ?op = Some (Some d')" "disk_ok h d'" "loaded h E ?op (map strip (index_entries d)) d'"
    using reopen_ex [OF h d nn E(3)] by blast
  have len: "length (dt_shards d') = length (dt_shards d)"
    using d'(2,3) d by (simp add: disk_ok_def disk_pre_def loaded_def)
  have "map Key (snapshot_shard (dt_shards d' ! i)) =
      filter (\<lambda>k. dt_blobs d (h k) \<noteq> None) (map Key (snapshot_shard (dt_shards d ! i)))"
    if "i < length (dt_shards d)" for i
    using d'(3) that reopen_snapshot [OF h d nn E(3) that]
    by (simp add: loaded_def len filter_map comp_def)
  moreover have "fst (disk_Get h E k d') = map_option (\<lambda>(m, b). (m\<lparr>Tier := []\<rparr>, b)) (fst (disk_Get h E k d))" for k
    using reopen_view [OF h d nn E(3) d'(3), of k] E(3)
    by (simp add: disk_Get_view [OF inj d] disk_Get_view [OF inj d'(2)] strip_def)
  moreover have "NewDiskTier h E (dt_maxBytes d) (dt_blobs (snd (disk_Close E d))) (dt_index (snd (disk_Close E d))) =
      Some (Some d')"
    unfolding Close_result [OF opn E(1) valid] using d'(1) E(2) by (simp add: NewDiskTier_eq opened_def)
  ultimately show ?thesis using d'(2) by blast
qed

theorem disk_restart_roundtrip_witness:
  "let d = snd (snd (the (disk_session sample_hash os_fine (sample_meta ''k'') ''wip-1'' [''abc'']
             (opened os_fine 100 Map.empty NoIndex))))
   in \<exists>d'. NewDiskTier sample_hash os_fine (dt_maxBytes d) (dt_blobs (snd (disk_Close os_fine d)))
              (dt_index (snd (disk_Close os_fine d))) = Some (Some d') \<and>
        fst (disk_Get sample_hash os_fine ''k'' d') = Some ((sample_meta ''k'')\<lparr>Size := 3\<rparr>, ''abc'')"
proof -
  let ?d = "snd (snd (the (disk_session sample_hash os_fine (sample_meta ''k'') ''wip-1'' [''abc'']
    (opened os_fine 100 Map.empty NoIndex))))"
  have ok: "disk_ok sample_hash ?d"
    using disk_session_result [OF sample_hash_ok opened_ok, of "''wip-1''" os_fine "sample_meta ''k''" "[''abc'']"
        os_fine 100 Map.empty NoIndex]
    by (auto simp: HasPrefix_def commit_result_def)
  have "dt_maxBytes ?d = 100" "\<not> dt_closed ?d" "list_all valid_meta (index_entries ?d)"
    "fst (disk_Get sample_hash os_fine ''k'' ?d) = Some ((sample_meta ''k'')\<lparr>Size := 3\<rparr>, ''abc'')"
    by code_simp+
  with disk_restart_roundtrip [OF sample_hash_ok ok, of os_fine] show ?thesis
    by (auto simp: os_fine_def sample_meta_def Let_def)
qed

text \<open>a session of the streaming writer. With a temporary file, writing any chunks and
  committing always returns and keeps the invariant, whatever the operating system answers; the
  object is stored exactly when the file could be closed and renamed and fits its shard, and then a
  read returns the chunks in order; no other key gains or changes an object.\<close>

theorem disk_session_roundtrip:
  assumes h: "blob_names h" and d: "disk_ok h d" and t: "HasPrefix t ''wip-''"
  shows "\<exists>err w d'. disk_session h E m t ps d = Some (err, w, d') \<and> disk_ok h d' \<and>
    (dw_stored w \<longleftrightarrow> os_close E \<and> os_rename E \<and> int (length (concat ps)) \<le> ds_maxBytes (disk_shard d (Key m))) \<and>
    (dw_stored w \<longrightarrow> disk_view h d' (Key m) = Some (m\<lparr>Size := int (length (concat ps))\<rparr>, concat ps)) \<and>
    (\<forall>k. k \<noteq> Key m \<or> \<not> dw_stored w \<longrightarrow> disk_view h d' k = None \<or> disk_view h d' k = disk_view h d k)"
  using disk_session_result [OF assms, of E m ps] by (auto simp: commit_result_def)

theorem disk_session_roundtrip_witness:
  "\<exists>err w d'. disk_session sample_hash os_fine (sample_meta ''k'') ''wip-1'' [''ab'', ''c''] (opened os_fine 100 Map.empty NoIndex) =
      Some (err, w, d') \<and> dw_stored w \<and>
    disk_view sample_hash d' ''k'' = Some ((sample_meta ''k'')\<lparr>Size := 3\<rparr>, ''abc'')"
proof -
  have "ds_maxBytes (disk_shard (opened os_fine 100 Map.empty NoIndex) ''k'') = 100" by code_simp
  then show ?thesis
    using disk_session_roundtrip [OF sample_hash_ok opened_ok, of "''wip-1''" os_fine "sample_meta ''k''" "[''ab'', ''c'']"
        os_fine 100 Map.empty NoIndex]
    by (auto simp: os_fine_def sample_meta_def HasPrefix_def)
qed

end
