(* ===== verification/DiskLRU.thy ===== *)
theory DiskLRU
  imports DiskRestart
begin

text \<open>
  Eviction order of the disk tier, and two of its limits: what a crash can leave behind, and when
  opening a tier whose index lists a key twice does not return.
\<close>

subsection \<open>Eviction takes the least recently used entries\<close>

lemma snapshot_remove:
  assumes "disk_core h (s, bl)"
  shows "snapshot_shard (fst (removeLocked h E k (s, bl))) = filter (\<lambda>m. Key m \<noteq> k) (snapshot_shard s)"
proof -
  let ?r = "removeLocked h E k (s, bl)" and ?f = "\<lambda>n. de_meta (the (map_of (ds_items s) (snd n)))"
  have core: "disk_core h (fst ?r, snd ?r)" using removeLocked_core [OF assms] by simp
  have nodes: "nodes (ds_lru (fst ?r)) = filter (\<lambda>n. snd n \<noteq> k) (nodes (ds_lru s))"
    using removeLocked_nodes [OF assms] by simp
  have key: "Key (?f n) = snd n" if "n \<in> set (nodes (ds_lru s))" for n
    using that snapshot_keys [OF assms] unfolding snapshot_shard_eq [OF assms] map_map by (metis comp_apply map_eq_conv)
  have "snapshot_shard (fst ?r) = map ?f (filter (\<lambda>n. snd n \<noteq> k) (nodes (ds_lru s)))"
    unfolding snapshot_shard_eq [OF core] nodes by (rule map_cong) auto
  also have "\<dots> = filter (\<lambda>m. Key m \<noteq> k) (map ?f (nodes (ds_lru s)))"
    unfolding filter_map comp_def using key by (intro arg_cong [where f = "map ?f"] filter_cong) auto
  finally show ?thesis by (simp add: snapshot_shard_eq [OF assms])
qed

lemma filter_last_distinct: "distinct (map f (xs @ [x])) \<Longrightarrow> filter (\<lambda>y. f y \<noteq> f x) (xs @ [x]) = xs"
  by (auto simp: filter_id_conv image_iff)

lemma snapshot_remove_back:
  assumes "disk_core h (s, bl)" and "list_Back (ds_lru s) = Some (i, k)"
  shows "snapshot_shard (fst (removeLocked h E k (s, bl))) = butlast (snapshot_shard s)" "snapshot_shard s \<noteq> []"
proof -
  have keys: "map Key (snapshot_shard s) = map snd (nodes (ds_lru s))" by (rule snapshot_keys [OF assms(1)])
  have ne: "nodes (ds_lru s) \<noteq> []" and last: "last (nodes (ds_lru s)) = (i, k)"
    using assms(2) by (auto simp: list_Back_def split: if_splits)
  with keys show snap: "snapshot_shard s \<noteq> []" by auto
  then obtain ms m where ms: "snapshot_shard s = ms @ [m]" by (cases "snapshot_shard s" rule: rev_cases) auto
  have "Key m = k" using arg_cong [OF keys, of last] ms ne last by (simp add: last_map)
  moreover have "distinct (map Key (ms @ [m]))"
    using assms(1) keys ring_ok_keys_distinct [of de_el "ds_items s" "ds_lru s"] unfolding ms by (simp add: disk_core_def)
  ultimately show "snapshot_shard (fst (removeLocked h E k (s, bl))) = butlast (snapshot_shard s)"
    unfolding snapshot_remove [OF assms(1)] ms using filter_last_distinct [of Key ms m] by simp
qed

text \<open>The loop keeps the longest initial segment of the recency order that leaves room.\<close>

lemma evictLRU_prefix:
  assumes "disk_core h (s, bl)" and "n \<le> ds_maxBytes s"
  obtains s' bl' j where "evictLRU h E n (s, bl) = Some (s', bl')" and "disk_core h (s', bl')"
    and "snapshot_shard s' = take j (snapshot_shard s)"
    and "sum_list (map Size (take j (snapshot_shard s))) + n \<le> ds_maxBytes s"
    and "j < length (snapshot_shard s) \<longrightarrow> sum_list (map Size (take (Suc j) (snapshot_shard s))) + n > ds_maxBytes s"
proof -
  let ?ms = "snapshot_shard s"
  let ?P = "\<lambda>sb. ds_maxBytes (fst sb) = ds_maxBytes s \<and> (\<exists>j \<le> length ?ms. snapshot_shard (fst sb) = take j ?ms \<and>
    (j < length ?ms \<longrightarrow> sum_list (map Size (take (Suc j) ?ms)) + n > ds_maxBytes s))"
  have step: "?P (removeLocked h E k sb)"
    if P: "?P sb" and core: "disk_core h sb" and over: "dover n sb" and bk: "list_Back (ds_lru (fst sb)) = Some (i, k)"
    for sb i k
  proof -
    obtain t bt where sb: "sb = (t, bt)" by fastforce
    from P sb obtain j where j: "j \<le> length ?ms" "snapshot_shard t = take j ?ms" by auto
    have ne: "snapshot_shard t \<noteq> []" and bl: "snapshot_shard (fst (removeLocked h E k sb)) = butlast (snapshot_shard t)"
      using snapshot_remove_back(1) [of h t bt i k E] snapshot_remove_back(2) [of h t bt i k] core bk by (simp_all add: sb)
    obtain j' where j': "j = Suc j'" using ne j(2) by (cases j) auto
    have "butlast (take j ?ms) = take j' ?ms" using j(1) j' by (simp add: butlast_take)
    moreover have "sum_list (map Size (take (Suc j') ?ms)) + n > ds_maxBytes s"
      using over snapshot_sum [of h t bt] core P j(2) j' by (simp add: sb)
    ultimately show ?thesis using P bl j j' by (intro conjI exI [where x = j']) simp_all
  qed
  have base: "?P (s, bl)" by (intro conjI exI [where x = "length ?ms"]) simp_all
  have "\<exists>sb'. evictLRU h E n (s, bl) = Some sb' \<and> disk_core h sb' \<and> ?P sb' \<and>
      (\<not> dover n sb' \<or> nodes (ds_lru (fst sb')) = [])"
    by (rule evictLRU_rule [where P = ?P, OF assms(1) base]) (rule step)
  then obtain sb' where sb': "evictLRU h E n (s, bl) = Some sb'" "disk_core h sb'" "?P sb'"
    "\<not> dover n sb' \<or> nodes (ds_lru (fst sb')) = []" by blast
  obtain s' bl' where "sb' = (s', bl')" by fastforce
  with sb' have ev: "evictLRU h E n (s, bl) = Some (s', bl')" "disk_core h (s', bl')" "?P (s', bl')"
    "\<not> dover n (s', bl') \<or> nodes (ds_lru s') = []" by simp_all
  have "ds_curBytes s' = 0" if "nodes (ds_lru s') = []"
    using that ev(2) by (auto simp: disk_core_def dest: ring_ok_empty_nodes)
  with ev(3,4) assms(2) have room: "ds_curBytes s' + n \<le> ds_maxBytes s" by auto
  from ev(3) obtain j where j: "snapshot_shard s' = take j ?ms"
    "j < length ?ms \<longrightarrow> sum_list (map Size (take (Suc j) ?ms)) + n > ds_maxBytes s" by auto
  show ?thesis
    by (rule that [OF ev(1,2) j(1) _ j(2)]) (use room snapshot_sum [OF ev(2)] j(1) in simp)
qed

text \<open>exact LRU. When a commit stores an object, its shard then holds the new object in front,
  followed by the longest initial segment of the old recency order (a previous copy of the same key
  left out) that fits beside it: the objects evicted are the least recently used ones, and not one
  more than needed.\<close>

theorem disk_commit_lru:
  assumes h: "blob_names h" and d: "disk_ok h d" and tmp: "HasPrefix tmp ''wip-''" "dt_blobs d tmp = Some b"
    and E: "os_rename E" and fit: "int (length b) \<le> ds_maxBytes (disk_shard d (Key m))"
  shows "\<exists>d' j. disk_commit h E m tmp (int (length b)) d = Some (True, False, d') \<and>
    (let old = filter (\<lambda>x. Key x \<noteq> Key m) (snapshot_shard (disk_shard d (Key m))); cap = ds_maxBytes (disk_shard d (Key m))
     in snapshot_shard (disk_shard d' (Key m)) = m\<lparr>Size := int (length b)\<rparr> # take j old \<and>
        sum_list (map Size (take j old)) + int (length b) \<le> cap \<and>
        (j < length old \<longrightarrow> sum_list (map Size (take (Suc j) old)) + int (length b) > cap))"
proof -
  let ?n = "int (length b)" and ?s0 = "(disk_shard d (Key m), dt_blobs d)" and ?m = "m\<lparr>Size := int (length b)\<rparr>"
  have pre: "disk_pre h d" using d by (simp add: disk_ok_def)
  have core0: "disk_core h ?s0" by (rule disk_shard_core [OF pre])
  obtain s1 bl1 where s1: "removeLocked h E (Key m) ?s0 = (s1, bl1)" by fastforce
  have core1: "disk_core h (s1, bl1)" using removeLocked_core [OF core0, of E "Key m"] s1 by simp
  have snap1: "snapshot_shard s1 = filter (\<lambda>x. Key x \<noteq> Key m) (snapshot_shard (disk_shard d (Key m)))"
    using snapshot_remove [OF core0, of E "Key m"] s1 by simp
  have max1: "ds_maxBytes s1 = ds_maxBytes (disk_shard d (Key m))"
    using removeLocked_maxBytes [of h E "Key m" ?s0] s1 by simp
  obtain s2 bl2 j where ev: "evictLRU h E ?n (s1, bl1) = Some (s2, bl2)" and core2: "disk_core h (s2, bl2)"
    and snap2: "snapshot_shard s2 = take j (snapshot_shard s1)"
    and fits: "sum_list (map Size (take j (snapshot_shard s1))) + ?n \<le> ds_maxBytes s1"
    and least: "j < length (snapshot_shard s1) \<longrightarrow> sum_list (map Size (take (Suc j) (snapshot_shard s1))) + ?n > ds_maxBytes s1"
    using evictLRU_prefix [OF core1, of ?n E] fit max1 by auto
  have inj: "inj h" using h by (simp add: blob_names_def)
  obtain sb where "evictLRU h E ?n (removeLocked h E (Key m) ?s0) = Some sb"
    "shrunk h ?s0 sb" "map_of (ds_items (fst sb)) (Key m) = None"
    by (rule commit_room_ex [OF inj d fit])
  then have sh: "shrunk h ?s0 (s2, bl2)" and gone: "map_of (ds_items s2) (Key m) = None" using ev s1 by auto
  have bt: "bl2 tmp = Some b"
    using sh tmp(2) temp_not_blob [OF h tmp(1)] unfolding shrunk_def by (metis snd_conv)
  let ?s3 = "(push_entry ?m s2)\<lparr>ds_dirty := True\<rparr>" and ?bl = "bl2(tmp := None, h (Key m) := Some b)"
  have "disk_commit h E m tmp ?n d = Some (True, False, put_disk_shard (Key m) (?s3, ?bl) d)"
    using fit E ev s1 bt by (simp add: disk_commit_def Let_def PushFront_def push_entry_def)
  moreover have "snapshot_shard (disk_shard (put_disk_shard (Key m) (?s3, ?bl) d) (Key m)) = ?m # take j (snapshot_shard s1)"
  proof -
    have "snapshot_shard ?s3 = snapshot_shard (push_entry ?m s2)" by (simp add: snapshot_shard_def)
    also have "\<dots> = ?m # snapshot_shard s2" using snapshot_push [OF core2, of ?m] gone by simp
    finally show ?thesis by (simp add: disk_shard_put [OF pre] snap2)
  qed
  ultimately show ?thesis using fits least unfolding snap1 max1 Let_def by blast
qed

text \<open>A tier of five bytes that holds two objects of two bytes, with a temporary file of three.\<close>

definition two_stored :: DiskTier where
  "two_stored =
     snd (snd (the (disk_session sample_hash os_fine (sample_meta ''b'') ''wip-2'' [''yy'']
       (snd (snd (the (disk_session sample_hash os_fine (sample_meta ''a'') ''wip-1'' [''xx'']
         (opened os_fine 5 Map.empty NoIndex))))))))"

definition full_tier :: DiskTier where
  "full_tier = two_stored\<lparr>dt_blobs := (dt_blobs two_stored)(''wip-3'' := Some ''zzz'')\<rparr>"

lemma disk_session_ok:
  assumes "blob_names h" and "disk_ok h d" and "HasPrefix t ''wip-''"
  shows "disk_ok h (snd (snd (the (disk_session h E m t ps d))))"
  using disk_session_result [OF assms, of E m ps] by (auto simp: commit_result_def)

lemma full_tier_ok: "disk_ok sample_hash full_tier"
proof -
  have "disk_ok sample_hash two_stored"
    unfolding two_stored_def by (intro disk_session_ok sample_hash_ok opened_ok) (simp_all add: HasPrefix_def)
  then show ?thesis
    unfolding full_tier_def by (rule disk_ok_temp) (simp add: sample_hash_def)
qed

theorem disk_commit_lru_witness:
  "\<exists>d' j. disk_commit sample_hash os_fine (sample_meta ''c'') ''wip-3'' 3 full_tier = Some (True, False, d') \<and>
     map Key (snapshot_shard (disk_shard d' ''c'')) = ''c'' # take j [''b'', ''a'']"
proof -
  have "dt_blobs full_tier ''wip-3'' = Some ''zzz''" by (simp add: full_tier_def)
  moreover have "ds_maxBytes (disk_shard full_tier ''c'') = 5"
    "map Key (filter (\<lambda>x. Key x \<noteq> ''c'') (snapshot_shard (disk_shard full_tier ''c''))) = [''b'', ''a'']"
    by code_simp+
  moreover have "HasPrefix ''wip-3'' ''wip-''" "os_rename os_fine" "Key (sample_meta ''c'') = ''c''"
    by (simp_all add: HasPrefix_def os_fine_def sample_meta_def)
  ultimately show ?thesis
    using disk_commit_lru [OF sample_hash_ok full_tier_ok, of "''wip-3''" "''zzz''" os_fine "sample_meta ''c''"]
    by (fastforce simp: Let_def take_map [symmetric])
qed

subsection \<open>What a crash can leave\<close>

definition etag_meta :: "string \<Rightarrow> string \<Rightarrow> ObjectMeta" where
  "etag_meta k t = (sample_meta k)\<lparr>ETag := t\<rparr>"

text \<open>An object is stored and the index flushed; the object is then replaced by another one of the
  same size, and the process dies before the next flush. The blob is the new one, the index the old
  one, and reopening serves the new body under the old metadata.\<close>

lemma disk_crash_mixes_versions:
  "let d0 = opened os_fine 100 Map.empty NoIndex;
       d1 = snd (snd (the (disk_session sample_hash os_fine (etag_meta ''k'' ''v1'') ''wip-1'' [''old''] d0)));
       d2 = flushIfDirty os_fine d1;
       d3 = snd (snd (the (disk_session sample_hash os_fine (etag_meta ''k'' ''v2'') ''wip-2'' [''new''] d2)));
       d4 = the (the (NewDiskTier sample_hash os_fine 100 (dt_blobs d3) (dt_index d3)))
   in fst (disk_Get sample_hash os_fine ''k'' d4) = Some ((etag_meta ''k'' ''v1'')\<lparr>Size := 3\<rparr>, ''new'')"
  by code_simp

subsection \<open>An index that cannot be opened\<close>

text \<open>A last node of the recency list whose key has no entry is looked at forever.\<close>

lemma evictLRU_stuck:
  assumes "dover n sb" and "list_Back (ds_lru (fst sb)) = Some (i, k)" and "map_of (ds_items (fst sb)) k = None"
  shows "evictLRU h E n sb = None"
proof -
  have "\<not> (dover n sb \<and> (\<exists>i k. list_Back (ds_lru (fst sb)) = Some (i, k) \<and> map_of (ds_items (fst sb)) k = None))"
    if "evictLRU h E n sb = Some sb'" for sb sb'
    using that
  proof (induction rule: evictLRU.raw_induct [rotated 1, consumes 1])
    case (1 f h E n sb sb')
    show ?case
    proof
      assume stuck: "dover n sb \<and> (\<exists>i k. list_Back (ds_lru (fst sb)) = Some (i, k) \<and> map_of (ds_items (fst sb)) k = None)"
      then obtain i k where k: "list_Back (ds_lru (fst sb)) = Some (i, k)" "map_of (ds_items (fst sb)) k = None" by blast
      then have "removeLocked h E k sb = sb" by (cases sb) (simp add: removeLocked_miss)
      with 1(2) stuck k have "f h E n sb = Some sb'" by simp
      from 1(1) [OF this] stuck show False by blast
    qed
  qed
  with assms show ?thesis by (metis not_None_eq)
qed

text \<open>Loading an entry whose blob is there and fits, into a tier of one shard.\<close>

definition loadable :: "(string \<Rightarrow> string) \<Rightarrow> os_env \<Rightarrow> int \<Rightarrow> blobs \<Rightarrow> ObjectMeta \<Rightarrow> bool" where
  "loadable h E cap bl m \<longleftrightarrow>
     os_access E (h (Key m)) \<and> Size m \<le> cap \<and> (case bl (h (Key m)) of None \<Rightarrow> False | Some b \<Rightarrow> int (length b) = Size m)"

lemma load_entry_single:
  assumes "dt_shards d = [s]" and "loadable h E (ds_maxBytes s) (dt_blobs d) m"
  shows "load_entry h E m d = d\<lparr>dt_shards := [s\<lparr>ds_lru := snd (PushFront (Key m) (ds_lru s)),
      ds_items := AList.update (Key m) \<lparr>de_meta = m, de_el = nextid (ds_lru s)\<rparr> (ds_items s),
      ds_curBytes := ds_curBytes s + Size m, ds_atomicBytes := ds_curBytes s + Size m\<rparr>]\<rparr>"
proof -
  have "shardIndex (Key m) (length [s]) = 0" using shardIndex_less [of "length [s]" "Key m"] by simp
  then show ?thesis using assms
    by (auto simp: load_entry_def loadable_def disk_shard_def put_disk_shard_def PushFront_def Let_def split: option.splits)
qed

lemma load_twice:
  assumes sh: "dt_shards d = [newDiskShard cap]" and m1: "loadable h E cap (dt_blobs d) m1" and m2: "loadable h E cap (dt_blobs d) m2"
    and k: "Key m1 = Key m2"
  shows "\<exists>s. dt_shards (load_entry h E m1 (load_entry h E m2 d)) = [s] \<and> dt_blobs (load_entry h E m1 (load_entry h E m2 d)) = dt_blobs d \<and>
    ds_maxBytes s = cap \<and> ds_curBytes s = Size m2 + Size m1 \<and> ds_items s = [(Key m1, \<lparr>de_meta = m1, de_el = 1\<rparr>)] \<and>
    ds_lru s = \<lparr>nodes = [(1, Key m1), (0, Key m1)], nextid = 2\<rparr>"
proof -
  let ?n = "newDiskShard cap"
  let ?s = "?n\<lparr>ds_lru := snd (PushFront (Key m2) (ds_lru ?n)), ds_items := AList.update (Key m2) \<lparr>de_meta = m2, de_el = nextid (ds_lru ?n)\<rparr> (ds_items ?n),
      ds_curBytes := ds_curBytes ?n + Size m2, ds_atomicBytes := ds_curBytes ?n + Size m2\<rparr>"
  have one: "load_entry h E m2 d = d\<lparr>dt_shards := [?s]\<rparr>" using load_entry_single [OF sh, of h E m2] m2 by (simp add: newDiskShard_def)
  have "load_entry h E m1 (d\<lparr>dt_shards := [?s]\<rparr>) = d\<lparr>dt_shards := [?s\<lparr>ds_lru := snd (PushFront (Key m1) (ds_lru ?s)),
      ds_items := AList.update (Key m1) \<lparr>de_meta = m1, de_el = nextid (ds_lru ?s)\<rparr> (ds_items ?s),
      ds_curBytes := ds_curBytes ?s + Size m1, ds_atomicBytes := ds_curBytes ?s + Size m1\<rparr>]\<rparr>"
    using load_entry_single [of "d\<lparr>dt_shards := [?s]\<rparr>" ?s h E m1] m1 by (simp add: newDiskShard_def)
  then show ?thesis unfolding one using k by (simp add: newDiskShard_def PushFront_def list_New_def)
qed

text \<open>Further entries push their nodes in front and leave the entries of other keys as they are.\<close>

lemma load_entries_single:
  assumes "dt_shards d = [s]" and "list_all (loadable h E (ds_maxBytes s) (dt_blobs d)) es" and "list_all (\<lambda>n. fst n < nextid (ds_lru s)) (nodes (ds_lru s))"
  shows "\<exists>s' new. dt_shards (fold (load_entry h E) es d) = [s'] \<and> dt_blobs (fold (load_entry h E) es d) = dt_blobs d \<and>
    ds_maxBytes s' = ds_maxBytes s \<and> ds_curBytes s' = ds_curBytes s + sum_list (map Size es) \<and>
    nodes (ds_lru s') = new @ nodes (ds_lru s) \<and> list_all (\<lambda>n. nextid (ds_lru s) \<le> fst n) new \<and>
    (\<forall>k. k \<notin> Key ` set es \<longrightarrow> map_of (ds_items s') k = map_of (ds_items s) k)"
  using assms
proof (induction es arbitrary: d s)
  case Nil
  then show ?case by simp
next
  case (Cons m es)
  have m: "loadable h E (ds_maxBytes s) (dt_blobs d) m" using Cons.prems(2) by simp
  note step = load_entry_single [OF Cons.prems(1) m]
  let ?s1 = "s\<lparr>ds_lru := snd (PushFront (Key m) (ds_lru s)), ds_items := AList.update (Key m) \<lparr>de_meta = m, de_el = nextid (ds_lru s)\<rparr> (ds_items s),
      ds_curBytes := ds_curBytes s + Size m, ds_atomicBytes := ds_curBytes s + Size m\<rparr>"
  have "list_all (\<lambda>n. fst n < nextid (ds_lru ?s1)) (nodes (ds_lru ?s1))"
    using Cons.prems(3) by (auto simp: PushFront_def list_all_iff)
  then obtain s' new where IH: "dt_shards (fold (load_entry h E) es (load_entry h E m d)) = [s']"
    "dt_blobs (fold (load_entry h E) es (load_entry h E m d)) = dt_blobs d" "ds_maxBytes s' = ds_maxBytes s"
    "ds_curBytes s' = ds_curBytes s + Size m + sum_list (map Size es)"
    "nodes (ds_lru s') = new @ nodes (ds_lru ?s1)" "list_all (\<lambda>n. nextid (ds_lru ?s1) \<le> fst n) new"
    "\<forall>k. k \<notin> Key ` set es \<longrightarrow> map_of (ds_items s') k = map_of (ds_items ?s1) k"
    using Cons.IH [of "load_entry h E m d" ?s1] Cons.prems(2) step by auto
  then show ?case
    by (intro exI [of _ s'] exI [of _ "new @ [(nextid (ds_lru s), Key m)]"]) (auto simp: PushFront_def list_all_iff)
qed

lemma disk_load_single:
  assumes "dt_index d = Entries p" and "dt_shards (fold (load_entry h E) (rev p) d) = [s]"
    and "dt_blobs (fold (load_entry h E) (rev p) d) = bl"
  shows "disk_load h E d = None \<longleftrightarrow> evictLRU h E 0 (s, bl) = None"
  using assms by (auto simp: disk_load_def Let_def split: option.split)

text \<open>Trimming a shard whose recency list ends in two nodes of one key: the first removal takes the entry,
  and the node that is left has none.\<close>

lemma evictLRU_twice:
  assumes "nodes (ds_lru s) = ns @ [(i, k), (j, k)]" and "map_of (ds_items s) k = Some e" and "de_el e = i" and "i \<noteq> j"
    and "0 \<le> Size (de_meta e)"
  shows "evictLRU h E 0 (s, bl) = None \<longleftrightarrow> ds_curBytes s - Size (de_meta e) > ds_maxBytes s"
proof (cases "ds_curBytes s > ds_maxBytes s")
  case False
  then have "evictLRU h E 0 (s, bl) = Some (s, bl)" by (subst evictLRU.simps) simp
  then show ?thesis using False assms(5) by simp
next
  case True
  let ?sb = "removeLocked h E k (s, bl)"
  have cur: "ds_curBytes (fst ?sb) = ds_curBytes s - Size (de_meta e)" "ds_maxBytes (fst ?sb) = ds_maxBytes s"
    and gone: "map_of (ds_items (fst ?sb)) k = None" and bk: "list_Back (ds_lru (fst ?sb)) = Some (j, k)"
    using assms by (simp_all add: removeLocked_def list_Remove_def list_Back_def Let_def)
  have step: "evictLRU h E 0 (s, bl) = evictLRU h E 0 ?sb"
    using True assms(1) by (subst evictLRU.simps) (simp add: list_Back_def)
  show ?thesis
  proof (cases "ds_curBytes s - Size (de_meta e) > ds_maxBytes s")
    case True
    then show ?thesis using evictLRU_stuck [OF _ bk gone, of 0] cur step by simp
  next
    case False
    then have "evictLRU h E 0 ?sb = Some ?sb" using cur by (subst evictLRU.simps) simp
    then show ?thesis using False step by simp
  qed
qed



end
