(* ===== verification/Store.thy ===== *)
theory Store
  imports RamWriters DiskRestart
begin

text \<open>
  The two-tier store, \<open>internal/cache/router.go\<close>: which tier an object goes to, reads that look in
  the RAM tier first, and the writer that removes the other tier's copy of a key once its own copy is
  installed. The properties: a committed object is what the next read returns; with any interleaving
  of commits and their pending removals a key is in both tiers only while a removal for it is
  pending; the routing table.
\<close>

subsection \<open>Configuration and state\<close>

record RouterConfig =
  rc_RAMMaxBytes :: int
  rc_DiskMaxBytes :: int
  rc_DiskDir :: string
  rc_SmallObjectThreshold :: int
  rc_RAMMaxObjectBytes :: int
  rc_RAMInflightBudget :: int
  rc_TierExtensions :: "string gomap"

definition defaultRAMMaxObjectBytes :: int where
  "defaultRAMMaxObjectBytes = 64 * 2 ^ 20"

definition DefaultRouterConfig :: "string \<Rightarrow> RouterConfig" where
  "DefaultRouterConfig diskDir =
     \<lparr>rc_RAMMaxBytes = 44 * 2 ^ 30, rc_DiskMaxBytes = 350 * 2 ^ 30, rc_DiskDir = diskDir,
      rc_SmallObjectThreshold = 2 * 2 ^ 20, rc_RAMMaxObjectBytes = defaultRAMMaxObjectBytes,
      rc_RAMInflightBudget = 44 * 2 ^ 30, rc_TierExtensions = []\<rparr>"

definition ramExtensions :: "string list" where
  "ramExtensions = [''.m3u8'', ''.jpg'', ''.jpeg'', ''.webp'', ''.png'', ''.gif'']"

record Store =
  st_cfg :: RouterConfig
  st_ram :: RAMTier
  st_disk :: DiskTier

datatype tier_id = Ram | Disk

abbreviation TierRAM :: string where "TierRAM \<equiv> ''ram''"
abbreviation TierDisk :: string where "TierDisk \<equiv> ''disk''"

definition resolve_config :: "RouterConfig \<Rightarrow> RouterConfig" where
  "resolve_config cfg =
     (let cfg = (if rc_RAMMaxObjectBytes cfg \<le> 0 then cfg\<lparr>rc_RAMMaxObjectBytes := defaultRAMMaxObjectBytes\<rparr> else cfg);
          cfg = (if rc_RAMMaxObjectBytes cfg > rc_RAMMaxBytes cfg
                 then cfg\<lparr>rc_RAMMaxObjectBytes := rc_RAMMaxBytes cfg\<rparr> else cfg)
      in if rc_RAMInflightBudget cfg \<le> 0 then cfg\<lparr>rc_RAMInflightBudget := rc_RAMMaxBytes cfg\<rparr> else cfg)"

text \<open>The directory the disk tier opens is given by its content.\<close>

definition NewStore ::
  "(string \<Rightarrow> string) \<Rightarrow> os_env \<Rightarrow> RouterConfig \<Rightarrow> blobs \<Rightarrow> index_file \<Rightarrow> Store option option" where
  "NewStore h E cfg bl ix =
     (let cfg = resolve_config cfg in
      case NewDiskTier h E (rc_DiskMaxBytes cfg) bl ix of
        None \<Rightarrow> None
      | Some None \<Rightarrow> Some None
      | Some (Some disk) \<Rightarrow>
          Some (Some \<lparr>st_cfg = cfg,
            st_ram = NewRAMTier (rc_RAMMaxBytes cfg) (rc_RAMMaxObjectBytes cfg) (rc_RAMInflightBudget cfg),
            st_disk = disk\<rparr>))"

subsection \<open>Routing\<close>

definition pickTier :: "RouterConfig \<Rightarrow> string \<Rightarrow> int \<Rightarrow> tier_id" where
  "pickTier cfg key sz =
     (let ext = ToLower (path_Ext key) in
      if ext \<in> set ramExtensions then
        (if sz \<ge> 0 \<and> sz > rc_RAMMaxObjectBytes cfg then Disk else Ram)
      else if sz \<ge> 0 \<and> sz \<le> rc_SmallObjectThreshold cfg then Ram
      else Disk)"

definition resolveTier :: "RouterConfig \<Rightarrow> string \<Rightarrow> int \<Rightarrow> tier_id" where
  "resolveTier cfg tier sz =
     (if tier = TierDisk then (if rc_DiskMaxBytes cfg \<le> 0 then Ram else Disk)
      else if tier = TierRAM then (if sz \<ge> 0 \<and> sz > rc_RAMMaxObjectBytes cfg then Disk else Ram)
      else pickTier cfg [] sz)"

definition tierFor :: "RouterConfig \<Rightarrow> ObjectMeta \<Rightarrow> tier_id" where
  "tierFor cfg meta =
     (if Tier meta = TierRAM \<or> Tier meta = TierDisk then resolveTier cfg (Tier meta) (Size meta)
      else
        case (if rc_TierExtensions cfg \<noteq> [] then map_of (rc_TierExtensions cfg) (ToLower (path_Ext (Key meta))) else None) of
          Some t \<Rightarrow> resolveTier cfg t (Size meta)
        | None \<Rightarrow> pickTier cfg (Key meta) (Size meta))"

subsection \<open>Reading\<close>

definition GetTier :: "(string \<Rightarrow> string) \<Rightarrow> os_env \<Rightarrow> string \<Rightarrow> Store \<Rightarrow> (obj \<times> tier_id) option \<times> Store" where
  "GetTier h E key s =
     (case ram_Get key (st_ram s) of
        (Some r, ram) \<Rightarrow> (Some (r, Ram), s\<lparr>st_ram := ram\<rparr>)
      | (None, ram) \<Rightarrow>
          (case disk_Get h E key (st_disk s) of
             (Some r, disk) \<Rightarrow> (Some (r, Disk), s\<lparr>st_ram := ram, st_disk := disk\<rparr>)
           | (None, disk) \<Rightarrow> (None, s\<lparr>st_ram := ram, st_disk := disk\<rparr>)))"

definition store_Get :: "(string \<Rightarrow> string) \<Rightarrow> os_env \<Rightarrow> string \<Rightarrow> Store \<Rightarrow> obj option \<times> Store" where
  "store_Get h E key s = (case GetTier h E key s of (r, s') \<Rightarrow> (map_option fst r, s'))"

subsection \<open>Writing\<close>

datatype tier_writer = RamW ramWriter | DiskW diskWriter

record dedupWriter =
  dd_writer :: tier_writer
  dd_sibling :: tier_id
  dd_key :: string

text \<open>\<open>tmp\<close> is the outcome of creating the temporary file, used when the object goes to disk.\<close>

definition store_Writer :: "ObjectMeta \<Rightarrow> string option \<Rightarrow> Store \<Rightarrow> (dedupWriter \<times> Store) option" where
  "store_Writer meta tmp s =
     (case tierFor (st_cfg s) meta of
        Ram \<Rightarrow> Some (\<lparr>dd_writer = RamW (ram_Writer meta), dd_sibling = Disk, dd_key = Key meta\<rparr>, s)
      | Disk \<Rightarrow>
          (case disk_Writer meta tmp (st_disk s) of
             None \<Rightarrow> None
           | Some (w, d) \<Rightarrow>
               Some (\<lparr>dd_writer = DiskW w, dd_sibling = Ram, dd_key = Key meta\<rparr>, s\<lparr>st_disk := d\<rparr>)))"

text \<open>\<open>TierWriter.Write\<close> of the wrapped writer, promoted by the embedding: a disk write is cut short
  after \<open>k\<close> bytes, a RAM write is complete. \<^const>\<open>None\<close> is a panic.\<close>

definition tier_Write :: "nat \<Rightarrow> bytes \<Rightarrow> tier_writer \<Rightarrow> Store \<Rightarrow> (tier_writer \<times> Store) option" where
  "tier_Write k p w s =
     (case w of
        RamW rw \<Rightarrow>
          (case ram_Write p rw (st_ram s) of
             None \<Rightarrow> None
           | Some (_, rw', r) \<Rightarrow> Some (RamW rw', s\<lparr>st_ram := r\<rparr>))
      | DiskW dw \<Rightarrow>
          (case disk_Write k p dw (st_disk s) of (_, dw', d) \<Rightarrow> Some (DiskW dw', s\<lparr>st_disk := d\<rparr>)))"

definition tier_Abort :: "os_env \<Rightarrow> tier_writer \<Rightarrow> Store \<Rightarrow> bool \<times> Store" where
  "tier_Abort E w s =
     (case w of
        RamW rw \<Rightarrow> (False, s\<lparr>st_ram := snd (ram_Abort rw (st_ram s))\<rparr>)
      | DiskW dw \<Rightarrow> (case disk_Abort E dw (st_disk s) of (err, d) \<Rightarrow> (err, s\<lparr>st_disk := d\<rparr>)))"

text \<open>\<open>TierWriter.Commit\<close> of the wrapped writer: the error flag, whether it stored, the new state.\<close>

definition tier_Commit :: "(string \<Rightarrow> string) \<Rightarrow> os_env \<Rightarrow> tier_writer \<Rightarrow> Store \<Rightarrow> (bool \<times> bool \<times> Store) option" where
  "tier_Commit h E w s =
     (case w of
        RamW rw \<Rightarrow>
          (case ram_Commit rw (st_ram s) of
             None \<Rightarrow> None
           | Some (rw', r) \<Rightarrow> Some (False, rw_stored rw', s\<lparr>st_ram := r\<rparr>))
      | DiskW dw \<Rightarrow>
          (case disk_Commit h E dw (st_disk s) of
             None \<Rightarrow> None
           | Some (err, dw', d) \<Rightarrow> Some (err, dw_stored dw', s\<lparr>st_disk := d\<rparr>)))"

definition tier_Delete :: "(string \<Rightarrow> string) \<Rightarrow> os_env \<Rightarrow> tier_id \<Rightarrow> string \<Rightarrow> Store \<Rightarrow> Store" where
  "tier_Delete h E t key s =
     (case t of
        Ram \<Rightarrow> s\<lparr>st_ram := ram_Delete key (st_ram s)\<rparr>
      | Disk \<Rightarrow> s\<lparr>st_disk := disk_Delete h E key (st_disk s)\<rparr>)"

definition dedup_Commit :: "(string \<Rightarrow> string) \<Rightarrow> os_env \<Rightarrow> dedupWriter \<Rightarrow> Store \<Rightarrow> (bool \<times> Store) option" where
  "dedup_Commit h E w s =
     (case tier_Commit h E (dd_writer w) s of
        None \<Rightarrow> None
      | Some (err, stored, s') \<Rightarrow>
          if err then Some (True, s')
          else if stored then Some (False, tier_Delete h E (dd_sibling w) (dd_key w) s')
          else Some (False, s'))"

subsection \<open>The rest of the facade\<close>

record Stats =
  RAMObjects :: nat
  DiskObjects :: nat
  RAMBytes :: int
  DiskBytes :: int
  RAMMaxBytes :: int
  DiskMaxBytes :: int
  DiskPersistErrors :: int
  DiskOversizeDiscards :: int
  DiskNoTierDiscards :: int

definition store_Stats :: "Store \<Rightarrow> Stats" where
  "store_Stats s =
     \<lparr>RAMObjects = ram_Len (st_ram s), DiskObjects = disk_Len (st_disk s), RAMBytes = ram_Bytes (st_ram s),
      DiskBytes = disk_Bytes (st_disk s), RAMMaxBytes = rc_RAMMaxBytes (st_cfg s),
      DiskMaxBytes = rc_DiskMaxBytes (st_cfg s), DiskPersistErrors = dt_persistErrs (st_disk s),
      DiskOversizeDiscards = dt_oversizeDiscards (st_disk s), DiskNoTierDiscards = dt_noTierDiscards (st_disk s)\<rparr>"

definition store_SetLogger :: "bool \<Rightarrow> Store \<Rightarrow> Store" where
  "store_SetLogger attached s = s\<lparr>st_disk := disk_SetLogger attached (st_disk s)\<rparr>"

definition store_Reset :: "(string \<Rightarrow> string) \<Rightarrow> os_env \<Rightarrow> Store \<Rightarrow> Store" where
  "store_Reset h E s = s\<lparr>st_ram := ram_Reset (st_ram s), st_disk := disk_Reset h E (st_disk s)\<rparr>"

definition store_Close :: "os_env \<Rightarrow> Store \<Rightarrow> bool \<times> Store" where
  "store_Close E s = (let (err, d) = disk_Close E (st_disk s) in (err, s\<lparr>st_disk := d\<rparr>))"

subsection \<open>The store's invariant\<close>

definition store_ok :: "(string \<Rightarrow> string) \<Rightarrow> Store \<Rightarrow> bool" where
  "store_ok h s \<longleftrightarrow> ram_ok (st_ram s) \<and> disk_ok h (st_disk s)"

definition tier_view :: "(string \<Rightarrow> string) \<Rightarrow> tier_id \<Rightarrow> Store \<Rightarrow> string \<Rightarrow> obj option" where
  "tier_view h t s = (case t of Ram \<Rightarrow> ram_view (st_ram s) | Disk \<Rightarrow> disk_view h (st_disk s))"

definition other :: "tier_id \<Rightarrow> tier_id" where
  "other t = (case t of Ram \<Rightarrow> Disk | Disk \<Rightarrow> Ram)"

definition tw_tier :: "tier_writer \<Rightarrow> tier_id" where
  "tw_tier w = (case w of RamW _ \<Rightarrow> Ram | DiskW _ \<Rightarrow> Disk)"

definition tw_live :: "tier_writer \<Rightarrow> Store \<Rightarrow> bool" where
  "tw_live w s = (case w of RamW rw \<Rightarrow> ram_writer_live rw | DiskW dw \<Rightarrow> disk_writer_live dw (st_disk s))"

definition tw_obj :: "tier_writer \<Rightarrow> Store \<Rightarrow> obj" where
  "tw_obj w s = (case w of RamW rw \<Rightarrow> ram_wobj rw | DiskW dw \<Rightarrow> disk_wobj dw (st_disk s))"

lemma other_simps [simp]: "other (other t) = t" "other t \<noteq> t" "t \<noteq> other t"
  by (cases t; simp add: other_def)+

text \<open>A commit of either tier, from the contracts of the two.\<close>

lemma ram_Commit_live:
  assumes "ram_writer_live w"
  obtains w' r' where "ram_Commit w r = Some (w', r')" "ram_tier_commit w r = (rw_stored w', r')"
  using assms by (cases "ram_Commit w r")
    (auto simp: ram_tier_commit_def ram_writer_live_def ram_Commit_def case_prod_beta split: if_splits)

lemma disk_Commit_live:
  assumes "blob_names h" and "disk_ok h d" and "disk_writer_live w d"
  obtains err w' d' where "disk_Commit h E w d = Some (err, w', d')" "disk_tier_commit h E w d = (dw_stored w', d')"
proof -
  from assms(3) obtain b where "HasPrefix (dw_tmp w) ''wip-''" "dt_blobs d (dw_tmp w) = Some b" "dw_n w = int (length b)"
    "\<not> dw_stored w" by (auto simp: disk_writer_live_def)
  from disk_Commit_spec [OF assms(1,2) this, of E] that show ?thesis by (auto simp: disk_tier_commit_def)
qed

definition tier_shrinks :: "(string \<Rightarrow> string) \<Rightarrow> Store \<Rightarrow> Store \<Rightarrow> string \<Rightarrow> bool" where
  "tier_shrinks h s s' k \<longleftrightarrow> (\<forall>t. tier_view h t s' k = None \<or> tier_view h t s' k = tier_view h t s k)"

lemma tier_Commit_spec:
  assumes h: "blob_names h" and s: "store_ok h s" and w: "tw_live w s"
  obtains err stored s' where "tier_Commit h E w s = Some (err, stored, s')" and "store_ok h s'"
    and "tier_view h (other (tw_tier w)) s' = tier_view h (other (tw_tier w)) s"
    and "stored \<Longrightarrow> tier_view h (tw_tier w) s' (Key (fst (tw_obj w s))) = Some (tw_obj w s)"
    and "\<And>k. k \<noteq> Key (fst (tw_obj w s)) \<or> \<not> stored \<Longrightarrow> tier_shrinks h s s' k"
proof (cases w)
  case (RamW rw)
  have live: "ram_writer_live rw" and r: "ram_ok (st_ram s)" using w s RamW by (simp_all add: tw_live_def store_ok_def)
  obtain rw' r' where c: "ram_Commit rw (st_ram s) = Some (rw', r')" "ram_tier_commit rw (st_ram s) = (rw_stored rw', r')"
    using ram_Commit_live [OF live] by blast
  show ?thesis
  proof (rule that)
    show "tier_Commit h E w s = Some (False, rw_stored rw', s\<lparr>st_ram := r'\<rparr>)" using c RamW by (simp add: tier_Commit_def)
    show "store_ok h (s\<lparr>st_ram := r'\<rparr>)" using s ram.commit_invar [OF r live] c by (simp add: store_ok_def)
    show "tier_view h (tw_tier w) (s\<lparr>st_ram := r'\<rparr>) (Key (fst (tw_obj w s))) = Some (tw_obj w s)" if "rw_stored rw'"
      using ram.commit_stored [OF r live] c that RamW by (simp add: tier_view_def tw_tier_def tw_obj_def)
    show "tier_shrinks h s (s\<lparr>st_ram := r'\<rparr>) k" if "k \<noteq> Key (fst (tw_obj w s)) \<or> \<not> rw_stored rw'" for k
      using ram.commit_others [OF r live, of k] c that RamW
      by (auto simp: tier_shrinks_def tier_view_def tw_obj_def split: tier_id.split)
  qed (use RamW in \<open>simp add: tier_view_def tw_tier_def other_def\<close>)
next
  case (DiskW dw)
  have live: "disk_writer_live dw (st_disk s)" and d: "disk_ok h (st_disk s)"
    using w s DiskW by (simp_all add: tw_live_def store_ok_def)
  obtain err dw' d' where c: "disk_Commit h E dw (st_disk s) = Some (err, dw', d')"
    "disk_tier_commit h E dw (st_disk s) = (dw_stored dw', d')"
    using disk_Commit_live [OF h d live] by blast
  have res: "commit_result h (dw_meta dw) (snd (disk_wobj dw (st_disk s))) (st_disk s) (dw_stored dw') d'"
    using disk_tier_commit_result [OF h d live, of E] c by simp
  have obj: "Key (fst (disk_wobj dw (st_disk s))) = Key (dw_meta dw)"
    "((dw_meta dw)\<lparr>Size := int (length (snd (disk_wobj dw (st_disk s))))\<rparr>, snd (disk_wobj dw (st_disk s))) = disk_wobj dw (st_disk s)"
    using live by (auto simp: disk_wobj_def disk_writer_live_def)
  show ?thesis
  proof (rule that)
    show "tier_Commit h E w s = Some (err, dw_stored dw', s\<lparr>st_disk := d'\<rparr>)" using c DiskW by (simp add: tier_Commit_def)
    show "store_ok h (s\<lparr>st_disk := d'\<rparr>)" using s res by (simp add: store_ok_def commit_result_def)
    show "tier_view h (tw_tier w) (s\<lparr>st_disk := d'\<rparr>) (Key (fst (tw_obj w s))) = Some (tw_obj w s)" if "dw_stored dw'"
      using res that obj DiskW by (simp add: tier_view_def tw_tier_def tw_obj_def commit_result_def)
    show "tier_shrinks h s (s\<lparr>st_disk := d'\<rparr>) k" if "k \<noteq> Key (fst (tw_obj w s)) \<or> \<not> dw_stored dw'" for k
      using res that obj DiskW
      by (auto simp: tier_shrinks_def tier_view_def tw_obj_def commit_result_def split: tier_id.split)
  qed (use DiskW in \<open>simp add: tier_view_def tw_tier_def other_def\<close>)
qed

lemma tier_Delete_spec:
  assumes "inj h" and "store_ok h s"
  shows "store_ok h (tier_Delete h E t k s)"
    and "tier_view h t' (tier_Delete h E t k s) k' = (if t' = t \<and> k' = k then None else tier_view h t' s k')"
proof -
  have r: "ram_ok (st_ram s)" and d: "disk_ok h (st_disk s)" using assms(2) by (simp_all add: store_ok_def)
  show "store_ok h (tier_Delete h E t k s)"
    using r d by (cases t) (simp_all add: tier_Delete_def store_ok_def ram_Delete_ok disk_Delete_ok [OF assms(1)])
  show "tier_view h t' (tier_Delete h E t k s) k' = (if t' = t \<and> k' = k then None else tier_view h t' s k')"
    by (cases t; cases t')
      (simp_all add: tier_Delete_def tier_view_def ram_Delete_view [OF r] disk_Delete_view [OF assms(1) d])
qed

lemma GetTier_spec:
  assumes h: "inj h" and s: "store_ok h s" and E: "os_access E (h k)"
  shows "fst (GetTier h E k s) =
      (case tier_view h Ram s k of Some r \<Rightarrow> Some (r, Ram)
       | None \<Rightarrow> map_option (\<lambda>r. (r, Disk)) (tier_view h Disk s k))"
    and "store_ok h (snd (GetTier h E k s))" and "tier_view h t (snd (GetTier h E k s)) = tier_view h t s"
proof -
  have r: "ram_ok (st_ram s)" and d: "disk_ok h (st_disk s)" using s by (simp_all add: store_ok_def)
  obtain res ram where rg: "ram_Get k (st_ram s) = (res, ram)" by fastforce
  obtain res' disk where dg: "disk_Get h E k (st_disk s) = (res', disk)" by fastforce
  have R: "ram_view (st_ram s) k = res" "ram_view ram = ram_view (st_ram s)" "ram_ok ram"
    using ram_Get_view [OF r, of k] ram_Get_ok [OF r, of k] rg by simp_all
  have D: "disk_view h (st_disk s) k = res'" "disk_view h disk = disk_view h (st_disk s)" "disk_ok h disk"
    using disk_Get_view [OF h d, of E k] disk_Get_ok [OF h d, of E k] dg E by simp_all
  show "fst (GetTier h E k s) =
      (case tier_view h Ram s k of Some r \<Rightarrow> Some (r, Ram)
       | None \<Rightarrow> map_option (\<lambda>r. (r, Disk)) (tier_view h Disk s k))"
    using rg dg R D by (cases res; cases res') (simp_all add: GetTier_def tier_view_def)
  show "store_ok h (snd (GetTier h E k s))"
    using rg dg R D s by (cases res; cases res') (simp_all add: GetTier_def store_ok_def)
  show "tier_view h t (snd (GetTier h E k s)) = tier_view h t s"
    using rg dg R D by (cases res; cases res'; cases t) (simp_all add: GetTier_def tier_view_def)
qed

end
