(* ===== verification/StoreProps.thy ===== *)
theory StoreProps
  imports Store
begin

text \<open>
  Properties of the two-tier store: a complete write session followed by a read, interleavings of
  commits and the removals of sibling copies, and the routing table.
\<close>

subsection \<open>Write sessions\<close>

primrec tier_Writes :: "bytes list \<Rightarrow> tier_writer \<Rightarrow> Store \<Rightarrow> (tier_writer \<times> Store) option" where
  "tier_Writes [] w s = Some (w, s)"
| "tier_Writes (p # ps) w s =
     (case tier_Write (length p) p w s of None \<Rightarrow> None | Some (w', s') \<Rightarrow> tier_Writes ps w' s')"

definition store_session ::
  "(string \<Rightarrow> string) \<Rightarrow> os_env \<Rightarrow> ObjectMeta \<Rightarrow> string \<Rightarrow> bytes list \<Rightarrow> Store \<Rightarrow> (bool \<times> bool \<times> Store) option" where
  "store_session h E meta tmp ps s =
     (case store_Writer meta (Some tmp) s of
        None \<Rightarrow> None
      | Some (w, s) \<Rightarrow>
          (case tier_Writes ps (dd_writer w) s of
             None \<Rightarrow> None
           | Some (tw, s) \<Rightarrow>
               (case tier_Commit h E tw s of
                  None \<Rightarrow> None
                | Some (_, stored, _) \<Rightarrow>
                    map_option (\<lambda>(err, s'). (err, stored, s')) (dedup_Commit h E (w\<lparr>dd_writer := tw\<rparr>) s))))"

definition tw_over :: "tier_writer \<Rightarrow> bool" where
  "tw_over w = (case w of RamW rw \<Rightarrow> rw_overflow rw | DiskW _ \<Rightarrow> False)"

definition tw_meta :: "tier_writer \<Rightarrow> ObjectMeta" where
  "tw_meta w = (case w of RamW rw \<Rightarrow> rw_meta rw | DiskW dw \<Rightarrow> dw_meta dw)"

definition same_store :: "(string \<Rightarrow> string) \<Rightarrow> Store \<Rightarrow> Store \<Rightarrow> bool" where
  "same_store h s s' \<longleftrightarrow> store_ok h s' \<and> st_cfg s' = st_cfg s \<and> (\<forall>t. tier_view h t s' = tier_view h t s)"

definition tw_holds :: "ObjectMeta \<Rightarrow> bytes \<Rightarrow> tier_writer \<Rightarrow> Store \<Rightarrow> bool" where
  "tw_holds m b w s \<longleftrightarrow> tw_live w s \<and> Key (fst (tw_obj w s)) = Key m \<and> tw_meta w = m \<and>
     (tw_over w \<or> tw_obj w s = (m\<lparr>Size := int (length b)\<rparr>, b)) \<and>
     (case w of RamW rw \<Rightarrow> \<not> rw_stored rw | DiskW dw \<Rightarrow> \<not> dw_stored dw)"

lemma ram_same:
  assumes "store_ok h s" and "rt_shards r = rt_shards (st_ram s)" and "rt_maxBytes r = rt_maxBytes (st_ram s)"
  shows "same_store h s (s\<lparr>st_ram := r\<rparr>)"
proof -
  have "ram_ok r = ram_ok (st_ram s)" "ram_view r = ram_view (st_ram s)"
    using assms(2,3) by (simp_all add: ram_ok_def ram_view_def ram_shard_def fun_eq_iff)
  with assms(1) show ?thesis by (auto simp: same_store_def store_ok_def tier_view_def split: tier_id.split)
qed

lemma disk_same:
  assumes "store_ok h s" and "\<And>k. bl (h k) = dt_blobs (st_disk s) (h k)"
  shows "same_store h s (s\<lparr>st_disk := (st_disk s)\<lparr>dt_blobs := bl\<rparr>\<rparr>)"
  using disk_ok_temp [of h "st_disk s" bl] assms
  by (auto simp: same_store_def store_ok_def tier_view_def split: tier_id.split)

lemma tw_holds_ram:
  "tw_holds m b (RamW rw) s \<longleftrightarrow> rw_meta rw = m \<and> \<not> rw_stored rw \<and> (rw_overflow rw \<or> rw_buf rw = Some b)"
  by (auto simp: tw_holds_def tw_live_def tw_meta_def tw_over_def tw_obj_def ram_writer_live_def ram_wobj_def
      split: option.split)

lemma tw_holds_disk:
  "tw_holds m b (DiskW dw) s \<longleftrightarrow> dw_meta dw = m \<and> \<not> dw_stored dw \<and> HasPrefix (dw_tmp dw) ''wip-'' \<and>
     dt_blobs (st_disk s) (dw_tmp dw) = Some b \<and> dw_n dw = int (length b)"
  by (auto simp: tw_holds_def tw_live_def tw_meta_def tw_over_def tw_obj_def disk_writer_live_def disk_wobj_def)

lemma ram_Write_holds:
  assumes s: "store_ok h s" and w: "tw_holds m b (RamW rw) s"
  obtains w' s' where "tier_Write k p (RamW rw) s = Some (w', s')" "tw_tier w' = Ram"
    "tw_holds m (b @ p) w' s'" "same_store h s s'"
proof -
  have rw: "rw_meta rw = m" "\<not> rw_stored rw" "rw_overflow rw \<or> rw_buf rw = Some b"
    using w by (simp_all add: tw_holds_ram)
  then have "rw_overflow rw \<or> rw_buf rw \<noteq> None" by auto
  then obtain n w1 r1 where w1: "ram_Write p rw (st_ram s) = Some (n, w1, r1)"
    using ram_Write_returns [of rw p "st_ram s"] by (metis option.exhaust surj_pair)
  from w1 have "rw_overflow w1 \<or> rw_buf w1 = Some (b @ p)"
    by (cases rule: ram_Write_cases) (use rw(3) in \<open>auto simp: dropBuffer_def\<close>)
  with ram_Write_meta [OF w1] rw have "tw_holds m (b @ p) (RamW w1) (s\<lparr>st_ram := r1\<rparr>)"
    by (simp add: tw_holds_ram)
  moreover have "same_store h s (s\<lparr>st_ram := r1\<rparr>)" by (rule ram_same [OF s ram_Write_tier(1,2) [OF w1]])
  moreover have "tier_Write k p (RamW rw) s = Some (RamW w1, s\<lparr>st_ram := r1\<rparr>)" using w1 by (simp add: tier_Write_def)
  ultimately show ?thesis by (intro that [of "RamW w1" "s\<lparr>st_ram := r1\<rparr>"]) (simp_all add: tw_tier_def)
qed

lemma disk_Write_holds:
  assumes h: "blob_names h" and s: "store_ok h s" and w: "tw_holds m b (DiskW dw) s"
  obtains w' s' where "tier_Write (length p) p (DiskW dw) s = Some (w', s')" "tw_tier w' = Disk"
    "tw_holds m (b @ p) w' s'" "same_store h s s'"
proof -
  let ?bl = "(dt_blobs (st_disk s))(dw_tmp dw := Some (b @ p))"
  have tmp: "HasPrefix (dw_tmp dw) ''wip-''" and b: "dt_blobs (st_disk s) (dw_tmp dw) = Some b" and n: "dw_n dw = int (length b)"
    and st: "\<not> dw_stored dw" and m: "dw_meta dw = m"
    using w by (simp_all add: tw_holds_disk)
  have eq: "tier_Write (length p) p (DiskW dw) s =
      Some (DiskW (dw\<lparr>dw_n := dw_n dw + int (length p)\<rparr>), s\<lparr>st_disk := (st_disk s)\<lparr>dt_blobs := ?bl\<rparr>\<rparr>)"
    using b by (simp add: tier_Write_def disk_Write_def)
  have "same_store h s (s\<lparr>st_disk := (st_disk s)\<lparr>dt_blobs := ?bl\<rparr>\<rparr>)"
    by (rule disk_same [OF s]) (metis temp_not_blob [OF h tmp] fun_upd_other)
  with that [OF eq] tmp st m n show ?thesis
    by (simp add: tw_tier_def tw_holds_disk)
qed

lemma same_store_trans: "same_store h s s' \<Longrightarrow> same_store h s' s'' \<Longrightarrow> same_store h s s''"
  by (simp add: same_store_def)

lemma tier_Writes_holds:
  assumes "blob_names h" and "store_ok h s" and "tw_holds m b w s"
  shows "\<exists>w' s'. tier_Writes ps w s = Some (w', s') \<and> tw_tier w' = tw_tier w \<and> tw_holds m (b @ concat ps) w' s' \<and>
    same_store h s s'"
  using assms(2,3)
proof (induction ps arbitrary: w s b)
  case Nil
  then show ?case by (simp add: same_store_def)
next
  case (Cons p ps)
  obtain w1 s1 where w1: "tier_Write (length p) p w s = Some (w1, s1)" "tw_tier w1 = tw_tier w"
    "tw_holds m (b @ p) w1 s1" "same_store h s s1"
  proof (cases w)
    case (RamW rw)
    from ram_Write_holds [OF Cons.prems [unfolded RamW], of "length p" p] obtain w' s' where
      "tier_Write (length p) p (RamW rw) s = Some (w', s')" "tw_tier w' = Ram" "tw_holds m (b @ p) w' s'" "same_store h s s'" .
    with RamW show ?thesis by (intro that [of w' s']) (simp_all add: tw_tier_def)
  next
    case (DiskW dw)
    from disk_Write_holds [OF assms(1) Cons.prems [unfolded DiskW], of p] obtain w' s' where
      "tier_Write (length p) p (DiskW dw) s = Some (w', s')" "tw_tier w' = Disk" "tw_holds m (b @ p) w' s'" "same_store h s s'" .
    with DiskW show ?thesis by (intro that [of w' s']) (simp_all add: tw_tier_def)
  qed
  have "store_ok h s1" using w1(4) by (simp add: same_store_def)
  from Cons.IH [OF this w1(3)] obtain w' s' where "tier_Writes ps w1 s1 = Some (w', s')" "tw_tier w' = tw_tier w1"
    "tw_holds m (b @ p @ concat ps) w' s'" "same_store h s1 s'" by auto
  with w1 same_store_trans [OF w1(4)] show ?case by simp
qed

lemma store_Writer_holds:
  assumes h: "blob_names h" and s: "store_ok h s" and tmp: "HasPrefix tmp ''wip-''"
  obtains w s' where "store_Writer m (Some tmp) s = Some (w, s')" "tw_tier (dd_writer w) = tierFor (st_cfg s) m"
    "dd_sibling w = other (tierFor (st_cfg s) m)" "dd_key w = Key m" "tw_holds m [] (dd_writer w) s'" "same_store h s s'"
proof (cases "tierFor (st_cfg s) m")
  case Ram
  with that [of "\<lparr>dd_writer = RamW (ram_Writer m), dd_sibling = Disk, dd_key = Key m\<rparr>" s] s show ?thesis
    by (simp add: store_Writer_def tw_tier_def other_def same_store_def tw_holds_ram ram_Writer_def)
next
  case Disk
  let ?bl = "(dt_blobs (st_disk s))(tmp := Some [])" and ?dw = "\<lparr>dw_meta = m, dw_tmp = tmp, dw_n = 0, dw_stored = False\<rparr>"
  have "same_store h s (s\<lparr>st_disk := (st_disk s)\<lparr>dt_blobs := ?bl\<rparr>\<rparr>)"
    by (rule disk_same [OF s]) (metis temp_not_blob [OF h tmp] fun_upd_other)
  with that [of "\<lparr>dd_writer = DiskW ?dw, dd_sibling = Ram, dd_key = Key m\<rparr>"
      "s\<lparr>st_disk := (st_disk s)\<lparr>dt_blobs := ?bl\<rparr>\<rparr>"] Disk tmp show ?thesis
    by (simp add: store_Writer_def disk_Writer_def tw_tier_def other_def tw_holds_disk)
qed

lemma tier_Commit_over: "tw_holds m b w s \<Longrightarrow> tw_over w \<Longrightarrow> tier_Commit h E w s = Some (err, stored, s') \<Longrightarrow> \<not> stored"
  by (auto simp: tw_holds_def tw_over_def tier_Commit_def ram_Commit_def split: tier_writer.splits)

lemma tier_Commit_err: "tw_live w s \<Longrightarrow> tier_Commit h E w s = Some (True, stored, s') \<Longrightarrow> \<not> stored"
  by (auto simp: tier_Commit_def disk_Commit_def disk_commit_def tw_live_def disk_writer_live_def Let_def case_prod_beta
      split: tier_writer.splits if_splits option.splits)

lemma dedup_Commit_after:
  assumes "blob_names h" and "store_ok h s'" and "tier_Commit h E (dd_writer w) s = Some (err, stored, s')"
    and "dd_sibling w = other t" and "dd_key w = k" and "err \<Longrightarrow> \<not> stored"
  shows "\<exists>s''. dedup_Commit h E w s = Some (err, s'') \<and> store_ok h s'' \<and>
    (\<forall>t' k'. tier_view h t' s'' k' = (if stored \<and> t' = other t \<and> k' = k then None else tier_view h t' s' k'))"
proof -
  have inj: "inj h" using assms(1) by (simp add: blob_names_def)
  show ?thesis
    using assms(2-6) tier_Delete_spec [OF inj assms(2)] by (cases err; cases stored) (simp_all add: dedup_Commit_def)
qed

lemma store_session_result:
  fixes s :: Store
  defines "t \<equiv> \<lambda>m. tierFor (st_cfg s) m"
  assumes h: "blob_names h" and s: "store_ok h s" and tmp: "HasPrefix tmp ''wip-''"
  shows "\<exists>err stored s'. store_session h E m tmp ps s = Some (err, stored, s') \<and> store_ok h s' \<and>
    (stored \<longrightarrow> tier_view h (t m) s' (Key m) = Some (m\<lparr>Size := int (length (concat ps))\<rparr>, concat ps) \<and>
       tier_view h (other (t m)) s' (Key m) = None) \<and>
    (\<not> stored \<longrightarrow> tier_view h (other (t m)) s' (Key m) = tier_view h (other (t m)) s (Key m)) \<and>
    (\<forall>k. k \<noteq> Key m \<or> \<not> stored \<longrightarrow> tier_shrinks h s s' k)"
proof -
  obtain w s1 where w: "store_Writer m (Some tmp) s = Some (w, s1)" "tw_tier (dd_writer w) = t m"
    "dd_sibling w = other (t m)" "dd_key w = Key m" "tw_holds m [] (dd_writer w) s1" "same_store h s s1"
    using store_Writer_holds [OF h s tmp, of m] unfolding t_def by blast
  have "store_ok h s1" using w(6) by (simp add: same_store_def)
  from tier_Writes_holds [OF h this w(5), of ps] obtain tw s2 where tw: "tier_Writes ps (dd_writer w) s1 = Some (tw, s2)"
    "tw_tier tw = t m" "tw_holds m (concat ps) tw s2" "same_store h s1 s2" using w(2) by auto
  have s2: "store_ok h s2" and live: "tw_live tw s2" and key: "Key (fst (tw_obj tw s2)) = Key m"
    using tw(3,4) by (simp_all add: same_store_def tw_holds_def)
  have same: "tier_view h t' s2 = tier_view h t' s" for t' using w(6) tw(4) by (simp add: same_store_def)
  obtain err stored s3 where c: "tier_Commit h E tw s2 = Some (err, stored, s3)" "store_ok h s3"
    "tier_view h (other (t m)) s3 = tier_view h (other (t m)) s2"
    "stored \<Longrightarrow> tier_view h (t m) s3 (Key m) = Some (tw_obj tw s2)"
    "\<And>k. k \<noteq> Key m \<or> \<not> stored \<Longrightarrow> tier_shrinks h s2 s3 k"
    using tier_Commit_spec [OF h s2 live, of E] unfolding key tw(2) by blast
  have obj: "stored \<Longrightarrow> tw_obj tw s2 = (m\<lparr>Size := int (length (concat ps))\<rparr>, concat ps)"
    using tier_Commit_over [OF tw(3) _ c(1)] tw(3) unfolding tw_holds_def by blast
  have err: "err \<Longrightarrow> \<not> stored" using tier_Commit_err [OF live] c(1) by (cases err) simp_all
  obtain s4 where d: "dedup_Commit h E (w\<lparr>dd_writer := tw\<rparr>) s2 = Some (err, s4)" "store_ok h s4"
    "\<forall>t' k'. tier_view h t' s4 k' = (if stored \<and> t' = other (t m) \<and> k' = Key m then None else tier_view h t' s3 k')"
    using dedup_Commit_after [OF h c(2), of E "w\<lparr>dd_writer := tw\<rparr>" s2 err stored "t m" "Key m"] c(1) w(3,4) err by auto
  have "store_session h E m tmp ps s = Some (err, stored, s4)" using w(1) tw(1) c(1) d(1) by (simp add: store_session_def)
  moreover have "tier_shrinks h s s4 k" if "k \<noteq> Key m \<or> \<not> stored" for k
    using c(5) [OF that] that d(3) same by (auto simp: tier_shrinks_def)
  ultimately show ?thesis using c(3,4) d(2,3) same obj by auto
qed

text \<open>C8: A write session always returns. When the object was stored, the next read returns exactly
  that metadata and body, from the tier the router chose, and the other tier has no copy any more.
  When it was not (an error, an object over a cap), the copy the other tier had is still there.\<close>

theorem store_write_read:
  assumes "blob_names h" and "store_ok h s" and "HasPrefix tmp ''wip-''" and "\<forall>f. os_access E f"
  shows "\<exists>err stored s'. store_session h E m tmp ps s = Some (err, stored, s') \<and> store_ok h s' \<and>
    (if stored
     then fst (GetTier h E (Key m) s') =
            Some ((m\<lparr>Size := int (length (concat ps))\<rparr>, concat ps), tierFor (st_cfg s) m) \<and>
          tier_view h (other (tierFor (st_cfg s) m)) s' (Key m) = None
     else tier_view h (other (tierFor (st_cfg s) m)) s' (Key m) = tier_view h (other (tierFor (st_cfg s) m)) s (Key m))"
proof -
  have inj: "inj h" using assms(1) by (simp add: blob_names_def)
  obtain err stored s' where r: "store_session h E m tmp ps s = Some (err, stored, s')" "store_ok h s'"
    "stored \<longrightarrow> tier_view h (tierFor (st_cfg s) m) s' (Key m) = Some (m\<lparr>Size := int (length (concat ps))\<rparr>, concat ps) \<and>
       tier_view h (other (tierFor (st_cfg s) m)) s' (Key m) = None"
    "\<not> stored \<longrightarrow> tier_view h (other (tierFor (st_cfg s) m)) s' (Key m) =
       tier_view h (other (tierFor (st_cfg s) m)) s (Key m)"
    using store_session_result [OF assms(1-3), of E m ps] by blast
  have "fst (GetTier h E (Key m) s') =
      Some ((m\<lparr>Size := int (length (concat ps))\<rparr>, concat ps), tierFor (st_cfg s) m)" if stored
    using GetTier_spec(1) [OF inj r(2), of E "Key m"] assms(4) r(3) that
    by (cases "tierFor (st_cfg s) m") (simp_all add: other_def)
  with r show ?thesis by (cases stored) auto
qed

definition small_config :: RouterConfig where
  "small_config =
     \<lparr>rc_RAMMaxBytes = 20, rc_DiskMaxBytes = 100, rc_DiskDir = ''d'', rc_SmallObjectThreshold = 4,
      rc_RAMMaxObjectBytes = 10, rc_RAMInflightBudget = 20, rc_TierExtensions = []\<rparr>"

definition small_store :: Store where
  "small_store = the (the (NewStore sample_hash os_fine small_config Map.empty NoIndex))"

lemma NewDiskTier_ok:
  assumes h: "blob_names h" and dist: "\<forall>p. ix = Entries p \<longrightarrow> distinct (map Key p)"
    and d: "NewDiskTier h E maxBytes bl ix = Some (Some d)"
  shows "disk_ok h d"
proof (cases ix)
  case (Entries p)
  with disk_load_ex [OF h, of p E maxBytes bl] dist d show ?thesis
    by (auto simp: NewDiskTier_eq opened_def split: if_splits)
qed (use d open_empty [OF h] in \<open>auto simp: NewDiskTier_eq opened_def [symmetric] disk_load_def split: if_splits\<close>)

lemma NewRAMTier_view: "ram_view (NewRAMTier m ob bu) = Map.empty"
proof -
  have "rs_items s = []" if "s \<in> set (rt_shards (NewRAMTier m ob bu))" for s
    using that by (auto simp: NewRAMTier_def Let_def newRamShard_def)
  moreover have "ram_shard (NewRAMTier m ob bu) k \<in> set (rt_shards (NewRAMTier m ob bu))" for k
    using ram_index_less [OF NewRAMTier_ok [of m ob bu], of k] by (simp add: ram_shard_def)
  ultimately show ?thesis by (simp add: fun_eq_iff ram_view_def shard_view_def)
qed

lemma NewStore_ok:
  assumes h: "blob_names h" and "\<forall>p. ix = Entries p \<longrightarrow> distinct (map Key p)"
    and "NewStore h E cfg bl ix = Some (Some s)"
  shows "store_ok h s" "tier_view h Ram s = Map.empty"
  using assms NewDiskTier_ok [OF assms(1,2)]
  by (auto simp: NewStore_def Let_def store_ok_def NewRAMTier_ok tier_view_def NewRAMTier_view split: option.splits)

lemma small_store_new: "NewStore sample_hash os_fine small_config Map.empty NoIndex = Some (Some small_store)"
  unfolding small_store_def
  by (simp add: NewStore_def NewDiskTier_def os_fine_def disk_load_def reapTempBlobs_def Let_def)

lemma small_store_ok: "store_ok sample_hash small_store"
  using NewStore_ok(1) [OF sample_hash_ok _ small_store_new] by simp

text \<open>A small object goes to RAM; stored again with an unknown size it goes to disk, and the RAM copy
  is gone.\<close>

theorem store_write_read_witness:
  "let s1 = snd (snd (the (store_session sample_hash os_fine ((sample_meta ''k'')\<lparr>Size := 3\<rparr>) ''wip-1'' [''old''] small_store)));
       s2 = snd (snd (the (store_session sample_hash os_fine ((sample_meta ''k'')\<lparr>Size := -1\<rparr>) ''wip-2'' [''ne'', ''wer''] s1)))
   in fst (GetTier sample_hash os_fine ''k'' s1) = Some (((sample_meta ''k'')\<lparr>Size := 3\<rparr>, ''old''), Ram) \<and>
      fst (GetTier sample_hash os_fine ''k'' s2) = Some (((sample_meta ''k'')\<lparr>Size := 5\<rparr>, ''newer''), Disk)"
proof -
  let ?s1 = "snd (snd (the (store_session sample_hash os_fine ((sample_meta ''k'')\<lparr>Size := 3\<rparr>) ''wip-1'' [''old''] small_store)))"
  have t1: "HasPrefix ''wip-1'' ''wip-''" and t2: "HasPrefix ''wip-2'' ''wip-''" and acc: "\<forall>f. os_access os_fine f"
    by (simp_all add: HasPrefix_def os_fine_def)
  have st1: "fst (snd (the (store_session sample_hash os_fine ((sample_meta ''k'')\<lparr>Size := 3\<rparr>) ''wip-1'' [''old''] small_store)))"
    and r1: "tierFor (st_cfg small_store) ((sample_meta ''k'')\<lparr>Size := 3\<rparr>) = Ram"
    and st2: "fst (snd (the (store_session sample_hash os_fine ((sample_meta ''k'')\<lparr>Size := -1\<rparr>) ''wip-2'' [''ne'', ''wer''] ?s1)))"
    and r2: "tierFor (st_cfg ?s1) ((sample_meta ''k'')\<lparr>Size := -1\<rparr>) = Disk"
    by code_simp+
  from store_write_read [OF sample_hash_ok small_store_ok t1 acc, of "(sample_meta ''k'')\<lparr>Size := 3\<rparr>" "[''old'']"] st1 r1
  have s1: "store_ok sample_hash ?s1"
    "fst (GetTier sample_hash os_fine ''k'' ?s1) = Some (((sample_meta ''k'')\<lparr>Size := 3\<rparr>, ''old''), Ram)"
    by (auto simp: sample_meta_def)
  from store_write_read [OF sample_hash_ok s1(1) t2 acc, of "(sample_meta ''k'')\<lparr>Size := -1\<rparr>" "[''ne'', ''wer'']"] st2 r2 s1(2)
  show ?thesis by (auto simp: sample_meta_def Let_def)
qed

subsection \<open>Interleavings\<close>

text \<open>Commits of different requests interleave: the destination tier's commit and the removal of the
  sibling copy that follows it are two steps, between which anything can happen. A configuration is
  the store and the removals that are still to be done. The operating system may answer differently
  in every step.\<close>

inductive store_step :: "(string \<Rightarrow> string) \<Rightarrow> Store \<times> (tier_id \<times> string) list \<Rightarrow> Store \<times> (tier_id \<times> string) list \<Rightarrow> bool"
  for h where
  Commit: "tw_holds m b w s \<Longrightarrow> tier_Commit h E w s = Some (err, stored, s') \<Longrightarrow>
    store_step h (s, P) (s', if \<not> err \<and> stored then (other (tw_tier w), Key m) # P else P)"
| Dedup: "(t, k) \<in> set P \<Longrightarrow> store_step h (s, P) (tier_Delete h E t k s, remove1 (t, k) P)"
| Get: "store_step h (s, P) (snd (GetTier h E k s), P)"
| Open: "HasPrefix tmp ''wip-'' \<Longrightarrow> store_Writer m (Some tmp) s = Some (w, s') \<Longrightarrow> store_step h (s, P) (s', P)"
| Write: "tw_holds m b w s \<Longrightarrow> tier_Write (length p) p w s = Some (w', s') \<Longrightarrow> store_step h (s, P) (s', P)"
| Abort: "tw_holds m b w s \<Longrightarrow> store_step h (s, P) (snd (tier_Abort E w s), P)"
| Flush: "store_step h (s, P) (s\<lparr>st_disk := flushIfDirty E (st_disk s)\<rparr>, P)"
| Reset: "store_step h (s, P) (store_Reset h E s, P)"

definition dedup_ok :: "(string \<Rightarrow> string) \<Rightarrow> Store \<times> (tier_id \<times> string) list \<Rightarrow> bool" where
  "dedup_ok h c \<longleftrightarrow> store_ok h (fst c) \<and>
     (\<forall>k. tier_view h Ram (fst c) k \<noteq> None \<and> tier_view h Disk (fst c) k \<noteq> None \<longrightarrow>
        (Ram, k) \<in> set (snd c) \<or> (Disk, k) \<in> set (snd c))"

lemma dedup_ok_shrinks:
  assumes "dedup_ok h (s, P)" and "store_ok h s'" and "\<forall>k. tier_shrinks h s s' k"
  shows "dedup_ok h (s', P)"
  using assms unfolding dedup_ok_def tier_shrinks_def fst_conv snd_conv by metis

lemma dedup_ok_same: "dedup_ok h (s, P) \<Longrightarrow> same_store h s s' \<Longrightarrow> dedup_ok h (s', P)"
  by (simp add: dedup_ok_def same_store_def)

lemma GetTier_shrinks:
  assumes h: "inj h" and s: "store_ok h s"
  shows "store_ok h (snd (GetTier h E k s))" "tier_shrinks h s (snd (GetTier h E k s)) k'"
proof -
  have r: "ram_ok (st_ram s)" and d: "disk_ok h (st_disk s)" using s by (simp_all add: store_ok_def)
  obtain res ram where rg: "ram_Get k (st_ram s) = (res, ram)" by fastforce
  obtain res' disk where dg: "disk_Get h E k (st_disk s) = (res', disk)" by fastforce
  have R: "ram_view ram = ram_view (st_ram s)" "ram_ok ram"
    using ram_Get_view [OF r, of k] ram_Get_ok [OF r, of k] rg by simp_all
  have D: "disk_view h disk k' = None \<or> disk_view h disk k' = disk_view h (st_disk s) k'" "disk_ok h disk"
    using disk_Get_view(2) [OF h d, of E k] disk_Get_ok [OF h d, of E k] dg by simp_all
  show "store_ok h (snd (GetTier h E k s))"
    using rg dg R D s by (cases res; cases res') (simp_all add: GetTier_def store_ok_def)
  show "tier_shrinks h s (snd (GetTier h E k s)) k'"
    using rg dg R D by (cases res; cases res') (auto simp: GetTier_def tier_view_def tier_shrinks_def split: tier_id.split)
qed

lemma Abort_same:
  assumes h: "blob_names h" and s: "store_ok h s" and w: "tw_holds m b w s"
  shows "same_store h s (snd (tier_Abort E w s))"
proof (cases w)
  case (RamW rw)
  have "rt_shards (snd (ram_Abort rw r)) = rt_shards r" "rt_maxBytes (snd (ram_Abort rw r)) = rt_maxBytes r" for r
    by (simp_all add: ram_Abort_def)
  with RamW show ?thesis using ram_same [OF s] by (simp add: tier_Abort_def)
next
  case (DiskW dw)
  have tmp: "HasPrefix (dw_tmp dw) ''wip-''" using w DiskW by (simp add: tw_holds_disk)
  have "same_store h s (s\<lparr>st_disk := (st_disk s)\<lparr>dt_blobs := Remove_file E (dw_tmp dw) (dt_blobs (st_disk s))\<rparr>\<rparr>)"
    by (rule disk_same [OF s]) (metis temp_not_blob [OF h tmp] Remove_file_def fun_upd_other)
  with DiskW show ?thesis by (simp add: tier_Abort_def disk_Abort_def)
qed

lemma store_step_ok:
  assumes h: "blob_names h" and step: "store_step h c c'" and ok: "dedup_ok h c"
  shows "dedup_ok h c'"
proof -
  have inj: "inj h" using h by (simp add: blob_names_def)
  from step ok show ?thesis
  proof cases
    case (Commit m b w s E err stored s' P)
    have live: "tw_live w s" and key: "Key (fst (tw_obj w s)) = Key m" using Commit(3) by (simp_all add: tw_holds_def)
    have s: "store_ok h s" using ok Commit(1) by (simp add: dedup_ok_def)
    obtain err' stored' s'' where "tier_Commit h E w s = Some (err', stored', s'')" and s': "store_ok h s''"
      and oth: "tier_view h (other (tw_tier w)) s'' = tier_view h (other (tw_tier w)) s"
      and shr: "\<And>k. k \<noteq> Key m \<or> \<not> stored' \<Longrightarrow> tier_shrinks h s s'' k"
      using tier_Commit_spec [OF h s live, of E] unfolding key by metis
    with Commit(4) have eq: "err' = err" "stored' = stored" "s'' = s'" by simp_all
    have err: "err \<Longrightarrow> \<not> stored" using tier_Commit_err [OF live] Commit(4) by (cases err) simp_all
    show ?thesis
    proof (cases stored)
      case False
      with shr eq dedup_ok_shrinks [OF _ s', of s P] ok Commit(1,2) show ?thesis by simp
    next
      case True
      with err have "\<not> err" by blast
      with True have P: "snd c' = (other (tw_tier w), Key m) # P" using Commit(2) by simp
      have "(Ram, k) \<in> set (snd c') \<or> (Disk, k) \<in> set (snd c')"
        if k: "tier_view h Ram s' k \<noteq> None" "tier_view h Disk s' k \<noteq> None" for k
      proof (cases "k = Key m")
        case True
        then show ?thesis by (cases "tw_tier w") (simp_all add: P other_def)
      next
        case False
        from shr [of k] False eq have "tier_shrinks h s s' k" by simp
        with k have "tier_view h Ram s k \<noteq> None" "tier_view h Disk s k \<noteq> None" unfolding tier_shrinks_def by metis+
        with ok Commit(1) show ?thesis by (auto simp: dedup_ok_def P)
      qed
      then show ?thesis using s' eq Commit(2) by (simp add: dedup_ok_def)
    qed
  next
    case (Dedup t k P s E)
    have s: "store_ok h s" using ok Dedup(1) by (simp add: dedup_ok_def)
    show ?thesis using ok Dedup(1,2) by (cases t) (auto simp: dedup_ok_def tier_Delete_spec [OF inj s])
  next
    case (Open tmp m s w s' P)
    then show ?thesis using store_Writer_holds [OF h _ Open(3), of s m] ok dedup_ok_same
      by (metis dedup_ok_def fst_conv option.inject prod.inject)
  next
    case (Write m b w s p w' s' P)
    have s: "store_ok h s" using ok Write(1) by (simp add: dedup_ok_def)
    from tier_Writes_holds [OF h s Write(3), of "[p]"] Write(4) have "same_store h s s'" by simp
    with ok Write(1,2) dedup_ok_same show ?thesis by blast
  next
    case (Get s P E k)
    with ok GetTier_shrinks [OF inj] show ?thesis by (metis dedup_ok_shrinks dedup_ok_def fst_conv)
  next
    case (Abort m b w s P E)
    with ok Abort_same [OF h] show ?thesis by (metis dedup_ok_same dedup_ok_def fst_conv)
  next
    case (Flush s P E)
    with ok flushIfDirty_ok [of h "st_disk s" E] show ?thesis by (simp add: dedup_ok_def store_ok_def tier_view_def)
  next
    case (Reset s P E)
    with ok ram.reset_invar [of "st_ram s"] ram.reset_view [of "st_ram s"] disk_Reset_spec [OF inj, of "st_disk s" E]
    show ?thesis by (simp add: dedup_ok_def store_ok_def tier_view_def store_Reset_def)
  qed
qed

text \<open>C21: Whatever requests interleave, a key that is in both tiers has a removal pending for it: no
  copy is left behind once every committed writer has done its removal.\<close>

theorem store_dedup_pending:
  assumes "blob_names h" and "\<forall>p. ix = Entries p \<longrightarrow> distinct (map Key p)"
    and "NewStore h E cfg bl ix = Some (Some s0)" and "(store_step h)\<^sup>*\<^sup>* (s0, []) (s, P)"
    and "tier_view h Ram s k \<noteq> None" and "tier_view h Disk s k \<noteq> None"
  shows "(Ram, k) \<in> set P \<or> (Disk, k) \<in> set P"
proof -
  have init: "dedup_ok h (s0, [])" using NewStore_ok [OF assms(1-3)] by (simp add: dedup_ok_def)
  from assms(4) init have "dedup_ok h (s, P)"
    by (induction rule: rtranclp_induct) (auto intro: store_step_ok [OF assms(1)])
  with assms(5,6) show ?thesis by (simp add: dedup_ok_def)
qed

text \<open>Two requests for the key \<open>k\<close>, one with a known small size and one without, and the moments after
  their commits.\<close>

definition race_start :: "dedupWriter \<times> dedupWriter \<times> Store" where
  "race_start =
     (let (w1, s1) = the (store_Writer ((sample_meta ''k'')\<lparr>Size := 0\<rparr>) (Some ''wip-1'') small_store);
          (w2, s2) = the (store_Writer ((sample_meta ''k'')\<lparr>Size := -1\<rparr>) (Some ''wip-2'') s1)
      in (w1, w2, s2))"

definition race_ram :: Store where
  "race_ram = (case race_start of (w1, _, s) \<Rightarrow> snd (snd (the (tier_Commit sample_hash os_fine (dd_writer w1) s))))"

definition race_both :: Store where
  "race_both = (case race_start of (_, w2, s) \<Rightarrow> snd (snd (the (tier_Commit sample_hash os_fine (dd_writer w2) race_ram))))"

lemma race_reachable: "(store_step sample_hash)\<^sup>*\<^sup>* (small_store, []) (race_both, [(Ram, ''k''), (Disk, ''k'')])"
proof -
  let ?m1 = "(sample_meta ''k'')\<lparr>Size := 0\<rparr>" and ?m2 = "(sample_meta ''k'')\<lparr>Size := -1\<rparr>"
  have t1: "HasPrefix ''wip-1'' ''wip-''" and t2: "HasPrefix ''wip-2'' ''wip-''" by (simp_all add: HasPrefix_def)
  obtain w1 s1 where w1: "store_Writer ?m1 (Some ''wip-1'') small_store = Some (w1, s1)"
    "tw_holds ?m1 [] (dd_writer w1) s1" "same_store sample_hash small_store s1"
    using store_Writer_holds [OF sample_hash_ok small_store_ok t1, of ?m1] by blast
  have s1: "store_ok sample_hash s1" using w1(3) by (simp add: same_store_def)
  obtain w2 s2 where w2: "store_Writer ?m2 (Some ''wip-2'') s1 = Some (w2, s2)"
    "tw_holds ?m2 [] (dd_writer w2) s2" "same_store sample_hash s1 s2"
    using store_Writer_holds [OF sample_hash_ok s1 t2, of ?m2] by blast
  have start: "race_start = (w1, w2, s2)" using w1(1) w2(1) by (simp add: race_start_def)
  have tiers: "case race_start of (w1, w2, s) \<Rightarrow> (case dd_writer w1 of RamW w \<Rightarrow> w = ram_Writer ?m1 | DiskW _ \<Rightarrow> False) \<and>
      map_option (\<lambda>(e, st, _). (e, st)) (tier_Commit sample_hash os_fine (dd_writer w1) s) = Some (False, True)"
    "case race_start of (w1, w2, s) \<Rightarrow>
      (case dd_writer w2 of RamW _ \<Rightarrow> False | DiskW w \<Rightarrow> w = \<lparr>dw_meta = ?m2, dw_tmp = ''wip-2'', dw_n = 0, dw_stored = False\<rparr>) \<and>
      map_option (\<lambda>(e, st, _). (e, st)) (tier_Commit sample_hash os_fine (dd_writer w2) race_ram) = Some (False, True) \<and>
      dt_blobs (st_disk race_ram) ''wip-2'' = Some []"
    by code_simp+
  have c1: "tier_Commit sample_hash os_fine (dd_writer w1) s2 = Some (False, True, race_ram)"
    and r1: "dd_writer w1 = RamW (ram_Writer ?m1)"
    using tiers(1) unfolding start by (auto simp: race_ram_def start split: tier_writer.splits)
  have c2: "tier_Commit sample_hash os_fine (dd_writer w2) race_ram = Some (False, True, race_both)"
    and r2: "dd_writer w2 = DiskW \<lparr>dw_meta = ?m2, dw_tmp = ''wip-2'', dw_n = 0, dw_stored = False\<rparr>"
    "dt_blobs (st_disk race_ram) ''wip-2'' = Some []"
    using tiers(2) unfolding start by (auto simp: race_both_def start split: tier_writer.splits)
  have a: "store_step sample_hash (small_store, []) (s1, [])" by (rule store_step.Open [OF t1 w1(1)])
  have b: "store_step sample_hash (s1, []) (s2, [])" by (rule store_step.Open [OF t2 w2(1)])
  have c: "store_step sample_hash (s2, []) (race_ram, [(Disk, ''k'')])"
    using store_step.Commit [OF _ c1, of ?m1 "[]" "[]"] r1
    by (simp add: tw_holds_ram ram_Writer_def tw_tier_def other_def sample_meta_def)
  have d: "store_step sample_hash (race_ram, [(Disk, ''k'')]) (race_both, [(Ram, ''k''), (Disk, ''k'')])"
    using store_step.Commit [OF _ c2, of ?m2 "[]" "[(Disk, ''k'')]"] r2
    by (simp add: tw_holds_disk tw_tier_def other_def sample_meta_def HasPrefix_def)
  show ?thesis
    using a b c d by (metis (no_types, lifting) converse_rtranclp_into_rtranclp r_into_rtranclp)
qed

theorem store_dedup_pending_witness:
  "\<exists>P. (store_step sample_hash)\<^sup>*\<^sup>* (small_store, []) (race_both, P) \<and>
     tier_view sample_hash Ram race_both ''k'' \<noteq> None \<and> tier_view sample_hash Disk race_both ''k'' \<noteq> None \<and>
     ((Ram, ''k'') \<in> set P \<or> (Disk, ''k'') \<in> set P)"
proof -
  have v: "tier_view sample_hash Ram race_both ''k'' \<noteq> None" "tier_view sample_hash Disk race_both ''k'' \<noteq> None"
    by code_simp+
  from store_dedup_pending [OF sample_hash_ok _ small_store_new race_reachable v] race_reachable v show ?thesis by blast
qed

text \<open>Two commits of one key to different tiers that overlap destroy both copies: each of them
  stores its object, and each then removes the other's.\<close>

lemma store_race_loses_both:
  "case race_start of (w1, w2, s) \<Rightarrow>
     fst (snd (the (tier_Commit sample_hash os_fine (dd_writer w1) s))) \<and>
     fst (snd (the (tier_Commit sample_hash os_fine (dd_writer w2) race_ram))) \<and>
     fst (GetTier sample_hash os_fine ''k'' race_both) \<noteq> None \<and>
     fst (GetTier sample_hash os_fine ''k''
       (tier_Delete sample_hash os_fine (dd_sibling w2) (dd_key w2)
         (tier_Delete sample_hash os_fine (dd_sibling w1) (dd_key w1) race_both))) = None"
  by code_simp

subsection \<open>Objects cached nowhere\<close>

lemma tier_Writes_ram:
  "tier_Writes ps (RamW rw) s = map_option (\<lambda>(w, r). (RamW w, s\<lparr>st_ram := r\<rparr>)) (ram_Writes ps rw (st_ram s))"
  by (induction ps arbitrary: rw s) (auto simp: tier_Write_def split: option.split)

lemma ram_commit_stored: "fst (ram_commit m b r) \<longleftrightarrow> int (length b) \<le> rs_maxBytes (ram_shard r (Key m))"
  by (simp add: ram_commit_def shard_commit_def case_prod_beta Let_def)

lemma store_session_ram_too_big:
  assumes "tierFor (st_cfg s) m = Ram" and "int (length (concat ps)) > rs_maxBytes (ram_shard (st_ram s) (Key m))"
  shows "\<exists>s'. store_session h E m tmp ps s = Some (False, False, s')"
proof -
  obtain w r where w: "ram_Writes ps (ram_Writer m) (st_ram s) = Some (w, r)"
    using ram_Writes_total [of "ram_Writer m" ps "st_ram s"] by (auto simp: ram_Writer_def)
  have res: "rw_meta w = m" "\<not> rw_stored w" "rt_shards r = rt_shards (st_ram s)" "rw_overflow w \<or> rw_buf w = Some (concat ps)"
    using ram_Writes_result [OF w, of "[]"] by (simp_all add: ram_Writer_def)
  then have "\<not> fst (ram_commit m (concat ps) r)" using assms(2) by (simp add: ram_commit_stored ram_shard_def)
  with res have "case ram_Commit w r of None \<Rightarrow> False | Some (w', r') \<Rightarrow> \<not> rw_stored w'"
    by (cases "rw_overflow w") (auto simp: ram_Commit_def case_prod_beta Let_def)
  then obtain w' r' where "ram_Commit w r = Some (w', r')" "\<not> rw_stored w'" by (auto split: option.splits)
  then show ?thesis using assms(1) w
    by (simp add: store_session_def store_Writer_def tier_Writes_ram tier_Commit_def dedup_Commit_def)
qed

text \<open>With a RAM tier of 64 MiB, the default thresholds and a disk tier of 350 GiB, an object of
  more than 1 MiB and at most 2 MiB is cached nowhere: the router sends it to RAM, where no shard is
  large enough for it.\<close>

theorem store_cached_nowhere:
  assumes "2 ^ 20 < length (concat ps)" and "length (concat ps) \<le> 2 * 2 ^ 20"
    and "m = (sample_meta ''/clip.ts'')\<lparr>Size := int (length (concat ps))\<rparr>"
    and "NewStore h os_fine ((DefaultRouterConfig ''d'')\<lparr>rc_RAMMaxBytes := 64 * 2 ^ 20\<rparr>) Map.empty NoIndex = Some (Some s)"
  shows "\<exists>s'. store_session h E m tmp ps s = Some (False, False, s')"
proof (rule store_session_ram_too_big)
  have cfg: "rc_TierExtensions (st_cfg s) = []" "rc_SmallObjectThreshold (st_cfg s) = 2 * 2 ^ 20"
    and r: "st_ram s = NewRAMTier (64 * 2 ^ 20) (64 * 2 ^ 20) (44 * 2 ^ 30)"
    using assms(4) by (auto simp: NewStore_def Let_def resolve_config_def DefaultRouterConfig_def defaultRAMMaxObjectBytes_def
        split: option.splits if_splits)
  have "ToLower (path_Ext ''/clip.ts'') = ''.ts''" by code_simp
  with cfg assms(2,3) show "tierFor (st_cfg s) m = Ram"
    by (simp add: tierFor_def pickTier_def sample_meta_def ramExtensions_def Let_def)
  have caps: "shardCaps (64 * 2 ^ 20) (shardCount (64 * 2 ^ 20)) = replicate 64 (2 ^ 20)" by code_simp
  have "ram_index (st_ram s) k < length (rt_shards (st_ram s))" for k unfolding r by (rule ram_index_less [OF NewRAMTier_ok])
  moreover have "rt_shards (st_ram s) = map newRamShard (replicate 64 (2 ^ 20))"
    unfolding r NewRAMTier_def Let_def caps by simp
  ultimately have "rs_maxBytes (ram_shard (st_ram s) k) = 2 ^ 20" for k
    by (simp add: ram_shard_def newRamShard_def)
  with assms(1) show "int (length (concat ps)) > rs_maxBytes (ram_shard (st_ram s) (Key m))" by simp
qed

theorem store_cached_nowhere_witness:
  "\<exists>s s'. NewStore sample_hash os_fine ((DefaultRouterConfig ''d'')\<lparr>rc_RAMMaxBytes := 64 * 2 ^ 20\<rparr>) Map.empty NoIndex = Some (Some s) \<and>
     store_session sample_hash os_fine ((sample_meta ''/clip.ts'')\<lparr>Size := 2 * 2 ^ 20\<rparr>) ''wip-1''
       [replicate (2 * 2 ^ 20) CHR ''x''] s = Some (False, False, s')"
proof -
  obtain s where s: "NewStore sample_hash os_fine ((DefaultRouterConfig ''d'')\<lparr>rc_RAMMaxBytes := 64 * 2 ^ 20\<rparr>) Map.empty NoIndex =
      Some (Some s)"
    by (simp add: NewStore_def NewDiskTier_def os_fine_def disk_load_def reapTempBlobs_def Let_def)
  have len: "length (concat [replicate (2 * 2 ^ 20) CHR ''x'']) = 2 * 2 ^ 20"
    by (simp only: concat.simps append_Nil2 length_replicate)
  have "(2 :: nat) ^ 20 < 2 * 2 ^ 20" "(2 :: nat) * 2 ^ 20 \<le> 2 * 2 ^ 20" "int (2 * 2 ^ 20) = 2 * 2 ^ 20" by simp_all
  with store_cached_nowhere [of "[replicate (2 * 2 ^ 20) CHR ''x'']", OF _ _ refl s, of os_fine "''wip-1''"]
  have "\<exists>s'. store_session sample_hash os_fine ((sample_meta ''/clip.ts'')\<lparr>Size := 2 * 2 ^ 20\<rparr>) ''wip-1''
       [replicate (2 * 2 ^ 20) CHR ''x''] s = Some (False, False, s')"
    unfolding len by metis
  with s show ?thesis by blast
qed

end
