(* ===== verification/Freshness.thy ===== *)
theory Freshness
  imports Shard
begin

text \<open>
  The freshness index, \<open>internal/server/freshness.go\<close>: the expiry, grace, max-stale and
  hit-for-miss decision recorded for every key, and the list of regular-expression bans.

  Instants are nanoseconds counted from Go's zero time, so \<open>IsZero\<close> is being 0; durations are
  64-bit and their sums wrap. A compiled regular expression is its \<open>MatchString\<close> predicate. Every
  operation takes the instant its call of \<open>now\<close> returns.

  Shown here: the combined lookup \<open>classify\<close> is equal to the pair of lookups it replaced; the
  timeline of a stored object; the background sweep is invisible to readers; a ban invalidates every
  matching object stored before it for as long as the list has not overflowed, and what happens when
  it has.
\<close>

subsection \<open>State\<close>

record banEntry =
  be_re :: "string \<Rightarrow> bool"
  be_issuedAt :: int

record freshEntry =
  fe_storedAt :: int
  fe_expires :: int
  fe_graceUntil :: int
  fe_maxStaleUntil :: int
  fe_hfmUntil :: int

datatype freshState = stateMiss | stateFresh | stateStale

record freshness =
  fr_shards :: "freshEntry gomap list"
  fr_bans :: "banEntry list"
  fr_banCount :: int
  fr_maxGrace :: int

definition maxBans :: nat where "maxBans = 256"

definition freshnessShards :: nat where "freshnessShards = 64"

definition newFreshness :: freshness where
  "newFreshness = \<lparr>fr_shards = replicate freshnessShards [], fr_bans = [], fr_banCount = 0, fr_maxGrace = 0\<rparr>"

abbreviation fresh_index :: "string \<Rightarrow> nat" where
  "fresh_index key \<equiv> unat (fnv32 key) mod freshnessShards"

definition fresh_shard :: "freshness \<Rightarrow> string \<Rightarrow> freshEntry gomap" where
  "fresh_shard f key = fr_shards f ! fresh_index key"

definition put_fresh_shard :: "string \<Rightarrow> freshEntry gomap \<Rightarrow> freshness \<Rightarrow> freshness" where
  "put_fresh_shard key m f = f\<lparr>fr_shards := (fr_shards f)[fresh_index key := m]\<rparr>"

subsection \<open>Bans\<close>

definition banned :: "string \<Rightarrow> int \<Rightarrow> freshness \<Rightarrow> bool" where
  "banned key storedAt f =
     (if fr_banCount f = 0 then False
      else list_ex (\<lambda>b. be_issuedAt b > storedAt \<and> be_re b key) (fr_bans f))"

definition ban :: "int \<Rightarrow> (string \<Rightarrow> bool) option \<Rightarrow> freshness \<Rightarrow> nat \<times> freshness" where
  "ban now re f =
     (case re of
        None \<Rightarrow> (0, f)
      | Some re \<Rightarrow>
          let matched = sum_list (map (\<lambda>m. length (filter (\<lambda>(key, e). fe_storedAt e < now \<and> re key) m)) (fr_shards f));
              cutoff = now + i64 (- 2 * fr_maxGrace f);
              kept = filter (\<lambda>b. be_issuedAt b > cutoff) (fr_bans f);
              kept = (if length kept \<ge> maxBans then drop (length kept - maxBans + 1) kept else kept);
              bans = kept @ [\<lparr>be_re = re, be_issuedAt = now\<rparr>]
          in (matched, f\<lparr>fr_bans := bans, fr_banCount := int (length bans)\<rparr>))"

subsection \<open>Recording decisions\<close>

definition observeWindow :: "int \<Rightarrow> freshness \<Rightarrow> freshness" where
  "observeWindow w f = (if w \<le> fr_maxGrace f then f else f\<lparr>fr_maxGrace := w\<rparr>)"

text \<open>Recording a decision puts the entry under the lock of the shard and widens the window after the lock is
  released. The call is one step of the relation in \<open>FreshnessProps\<close>; \<open>record_entry\<close> is its first part alone.\<close>

definition record_entry :: "int \<Rightarrow> string \<Rightarrow> int \<Rightarrow> int \<Rightarrow> int \<Rightarrow> freshness \<Rightarrow> freshness" where
  "record_entry now key ttl grace maxStale f =
     put_fresh_shard key
       (AList.update key
         \<lparr>fe_storedAt = now, fe_expires = now + ttl, fe_graceUntil = now + i64 (ttl + grace),
          fe_maxStaleUntil = (if maxStale > 0 then now + i64 (i64 (ttl + grace) + maxStale) else 0), fe_hfmUntil = 0\<rparr>
         (fresh_shard f key)) f"

definition fresh_store :: "int \<Rightarrow> string \<Rightarrow> int \<Rightarrow> int \<Rightarrow> int \<Rightarrow> freshness \<Rightarrow> freshness" where
  "fresh_store now key ttl grace maxStale f =
     (let e = \<lparr>fe_storedAt = now, fe_expires = now + ttl, fe_graceUntil = now + i64 (ttl + grace),
               fe_maxStaleUntil = (if maxStale > 0 then now + i64 (i64 (ttl + grace) + maxStale) else 0), fe_hfmUntil = 0\<rparr>
      in observeWindow (i64 (i64 (ttl + grace) + maxStale))
           (put_fresh_shard key (AList.update key e (fresh_shard f key)) f))"

definition setHitForMiss :: "int \<Rightarrow> string \<Rightarrow> int \<Rightarrow> freshness \<Rightarrow> freshness" where
  "setHitForMiss now key d f =
     observeWindow d
       (put_fresh_shard key
          (AList.update key \<lparr>fe_storedAt = now, fe_expires = 0, fe_graceUntil = 0, fe_maxStaleUntil = 0, fe_hfmUntil = now + d\<rparr>
            (fresh_shard f key)) f)"

definition forget :: "string \<Rightarrow> freshness \<Rightarrow> freshness" where
  "forget key f = put_fresh_shard key (AList.delete key (fresh_shard f key)) f"

subsection \<open>Lookups\<close>

definition prunable :: "freshEntry \<Rightarrow> int \<Rightarrow> bool" where
  "prunable e now = (if fe_maxStaleUntil e \<noteq> 0 then \<not> now < fe_maxStaleUntil e else True)"

definition hitForMiss :: "int \<Rightarrow> string \<Rightarrow> freshness \<Rightarrow> bool \<times> freshness" where
  "hitForMiss now key f =
     (case map_of (fresh_shard f key) key of
        None \<Rightarrow> (False, f)
      | Some e \<Rightarrow>
          if fe_hfmUntil e \<noteq> 0 then
            if now < fe_hfmUntil e then
              if banned key (fe_storedAt e) f then (False, forget key f) else (True, f)
            else (False, forget key f)
          else (False, f))"

definition lookup :: "int \<Rightarrow> string \<Rightarrow> freshness \<Rightarrow> freshState \<times> freshness" where
  "lookup now key f =
     (case map_of (fresh_shard f key) key of
        None \<Rightarrow> (stateMiss, f)
      | Some e \<Rightarrow>
          if fe_hfmUntil e \<noteq> 0 then (stateMiss, f)
          else if banned key (fe_storedAt e) f then (stateMiss, forget key f)
          else if now < fe_expires e then (stateFresh, f)
          else if now < fe_graceUntil e then (stateStale, f)
          else if prunable e now then (stateMiss, forget key f)
          else (stateMiss, f))"

definition classifyPrune :: "int \<Rightarrow> string \<Rightarrow> freshness \<Rightarrow> (freshState \<times> bool) \<times> freshness" where
  "classifyPrune now key f =
     (case map_of (fresh_shard f key) key of
        None \<Rightarrow> ((stateMiss, False), f)
      | Some e \<Rightarrow>
          if fe_hfmUntil e \<noteq> 0 then
            if now < fe_hfmUntil e then
              if banned key (fe_storedAt e) f then ((stateMiss, False), forget key f) else ((stateMiss, True), f)
            else ((stateMiss, False), forget key f)
          else if banned key (fe_storedAt e) f then ((stateMiss, False), forget key f)
          else if now < fe_expires e then ((stateFresh, False), f)
          else if now < fe_graceUntil e then ((stateStale, False), f)
          else if prunable e now then ((stateMiss, False), forget key f)
          else ((stateMiss, False), f))"

text \<open>The part of \<open>classify\<close> under the shared lock: \<^const>\<open>None\<close> when it goes on to
  \<open>classifyPrune\<close>.\<close>

definition classify_read :: "int \<Rightarrow> string \<Rightarrow> freshness \<Rightarrow> (freshState \<times> bool) option" where
  "classify_read now key f =
     (case map_of (fresh_shard f key) key of
        None \<Rightarrow> Some (stateMiss, False)
      | Some e \<Rightarrow>
          if fe_hfmUntil e \<noteq> 0 then
            if now < fe_hfmUntil e \<and> \<not> banned key (fe_storedAt e) f then Some (stateMiss, True) else None
          else if \<not> banned key (fe_storedAt e) f then
            if now < fe_expires e then Some (stateFresh, False)
            else if now < fe_graceUntil e then Some (stateStale, False)
            else None
          else None)"

text \<open>The second instant is that of the call of \<open>classifyPrune\<close>.\<close>

definition classify :: "int \<Rightarrow> int \<Rightarrow> string \<Rightarrow> freshness \<Rightarrow> (freshState \<times> bool) \<times> freshness" where
  "classify now now' key f =
     (case classify_read now key f of Some r \<Rightarrow> (r, f) | None \<Rightarrow> classifyPrune now' key f)"

definition staleWithin :: "int \<Rightarrow> string \<Rightarrow> freshness \<Rightarrow> bool" where
  "staleWithin now key f =
     (case map_of (fresh_shard f key) key of
        None \<Rightarrow> False
      | Some e \<Rightarrow>
          if fe_maxStaleUntil e = 0 then False
          else if fe_hfmUntil e \<noteq> 0 then False
          else if banned key (fe_storedAt e) f then False
          else \<not> now < fe_graceUntil e \<and> now < fe_maxStaleUntil e)"

definition fresh_storedAt :: "string \<Rightarrow> freshness \<Rightarrow> int option" where
  "fresh_storedAt key f =
     (case map_of (fresh_shard f key) key of
        None \<Rightarrow> None
      | Some e \<Rightarrow> if fe_hfmUntil e \<noteq> 0 then None else Some (fe_storedAt e))"

text \<open>\<open>Time.Sub\<close> saturates.\<close>

definition time_Sub :: "int \<Rightarrow> int \<Rightarrow> int" where
  "time_Sub a b = max (- (2 ^ 63)) (min (2 ^ 63 - 1) (a - b))"

definition lifetime :: "string \<Rightarrow> freshness \<Rightarrow> int option" where
  "lifetime key f =
     (case map_of (fresh_shard f key) key of
        None \<Rightarrow> None
      | Some e \<Rightarrow>
          if fe_hfmUntil e \<noteq> 0 then None
          else let d = time_Sub (fe_expires e) (fe_storedAt e) in Some (if d < 0 then 0 else d))"

definition fresh_len :: "freshness \<Rightarrow> nat" where
  "fresh_len f = sum_list (map length (fr_shards f))"

subsection \<open>The sweeper\<close>

definition entryReclaimable :: "string \<Rightarrow> freshEntry \<Rightarrow> int \<Rightarrow> freshness \<Rightarrow> bool" where
  "entryReclaimable key e now f =
     (if banned key (fe_storedAt e) f then True
      else if fe_hfmUntil e \<noteq> 0 then \<not> now < fe_hfmUntil e
      else if now < fe_graceUntil e then False
      else prunable e now)"

definition sweep :: "int \<Rightarrow> freshness \<Rightarrow> freshness" where
  "sweep now f =
     f\<lparr>fr_shards := map (\<lambda>m. if m = [] then m else filter (\<lambda>(k, e). \<not> entryReclaimable k e now f) m) (fr_shards f)\<rparr>"

subsection \<open>Entries\<close>

definition fr_entry :: "freshness \<Rightarrow> string \<Rightarrow> freshEntry option" where
  "fr_entry f key = map_of (fresh_shard f key) key"

definition fresh_wf :: "freshness \<Rightarrow> bool" where
  "fresh_wf f \<longleftrightarrow> length (fr_shards f) = freshnessShards \<and> fr_banCount f = int (length (fr_bans f)) \<and>
     (\<forall>m \<in> set (fr_shards f). distinct (map fst m))"

lemma fresh_index_less [simp]: "fresh_index key < freshnessShards"
  by (simp add: freshnessShards_def)

lemma fresh_shard_put:
  assumes "length (fr_shards f) = freshnessShards"
  shows "fresh_shard (put_fresh_shard key m f) key' = (if fresh_index key' = fresh_index key then m else fresh_shard f key')"
  using assms by (simp add: fresh_shard_def put_fresh_shard_def nth_list_update)

lemma put_fresh_simps [simp]:
  "fr_bans (put_fresh_shard key m f) = fr_bans f" "fr_banCount (put_fresh_shard key m f) = fr_banCount f"
  "fr_maxGrace (put_fresh_shard key m f) = fr_maxGrace f"
  "length (fr_shards (put_fresh_shard key m f)) = length (fr_shards f)"
  by (simp_all add: put_fresh_shard_def)

lemma observe_simps [simp]:
  "fr_bans (observeWindow w f) = fr_bans f" "fr_banCount (observeWindow w f) = fr_banCount f"
  "fr_shards (observeWindow w f) = fr_shards f" "fr_maxGrace (observeWindow w f) = max (fr_maxGrace f) w"
  by (auto simp: observeWindow_def)

lemma banned_iff: "fresh_wf f \<Longrightarrow> banned key t f \<longleftrightarrow> (\<exists>b \<in> set (fr_bans f). be_issuedAt b > t \<and> be_re b key)"
  by (auto simp: banned_def fresh_wf_def list_ex_iff)

lemma banned_cong: "fr_bans f' = fr_bans f \<Longrightarrow> fr_banCount f' = fr_banCount f \<Longrightarrow> banned key t f' = banned key t f"
  by (simp add: banned_def)

lemma put_fresh_wf:
  assumes "fresh_wf f" and "distinct (map fst m)"
  shows "fresh_wf (put_fresh_shard key m f)"
  using assms by (auto simp: fresh_wf_def put_fresh_shard_def dest: set_update_subset_insert [THEN subsetD])

lemma fresh_shard_distinct: "fresh_wf f \<Longrightarrow> distinct (map fst (fresh_shard f key))"
  by (simp add: fresh_wf_def fresh_shard_def)

lemma observe_wf [simp]: "fresh_wf (observeWindow w f) = fresh_wf f"
  by (simp add: fresh_wf_def)

lemma newFreshness_wf: "fresh_wf newFreshness"
  by (simp add: fresh_wf_def newFreshness_def)

lemma fr_entry_put:
  assumes "fresh_wf f"
  shows "fr_entry (put_fresh_shard key (AList.update key e (fresh_shard f key)) f) = (fr_entry f)(key \<mapsto> e)"
    and "fr_entry (put_fresh_shard key (AList.delete key (fresh_shard f key)) f) = (fr_entry f)(key := None)"
proof -
  have len: "length (fr_shards f) = freshnessShards" using assms by (simp add: fresh_wf_def)
  have "fr_entry (put_fresh_shard key m f) k = (if fresh_index k = fresh_index key then map_of m k else fr_entry f k)" for m k
    by (simp add: fr_entry_def fresh_shard_put [OF len])
  moreover have "fr_entry f k = map_of (fresh_shard f key) k" if "fresh_index k = fresh_index key" for k
    using that by (simp add: fr_entry_def fresh_shard_def)
  ultimately show "fr_entry (put_fresh_shard key (AList.update key e (fresh_shard f key)) f) = (fr_entry f)(key \<mapsto> e)"
    and "fr_entry (put_fresh_shard key (AList.delete key (fresh_shard f key)) f) = (fr_entry f)(key := None)"
    by (auto simp: fun_eq_iff)
qed

lemma fr_entry_observe [simp]: "fr_entry (observeWindow w f) = fr_entry f"
  by (simp add: fun_eq_iff fr_entry_def fresh_shard_def)

lemma forget_entry: "fresh_wf f \<Longrightarrow> fr_entry (forget key f) = (fr_entry f)(key := None)"
  by (simp add: forget_def fr_entry_put)

lemma forget_wf: "fresh_wf f \<Longrightarrow> fresh_wf (forget key f)"
  by (simp add: forget_def put_fresh_wf fresh_shard_distinct)

lemma sweep_entry:
  assumes "fresh_wf f"
  shows "fr_entry (sweep now f) key =
    (case fr_entry f key of None \<Rightarrow> None | Some e \<Rightarrow> if entryReclaimable key e now f then None else Some e)"
proof -
  have i: "fresh_index key < length (fr_shards f)" using assms by (simp add: fresh_wf_def)
  then have "fresh_shard (sweep now f) key = filter (\<lambda>(k, e). \<not> entryReclaimable k e now f) (fresh_shard f key)"
    by (simp add: fresh_shard_def sweep_def)
  moreover have "map_of (filter (\<lambda>(k, e). Q k e) m) key = (case map_of m key of None \<Rightarrow> None | Some e \<Rightarrow> if Q key e then Some e else None)"
    if "distinct (map fst m)" for m :: "freshEntry gomap" and Q
    using that by (induction m) (auto simp: map_of_eq_None_iff rev_image_eqI split: option.split)
  ultimately show ?thesis
    using fresh_shard_distinct [OF assms, of key] by (auto simp: fr_entry_def split: option.split)
qed

lemma sweep_wf: "fresh_wf f \<Longrightarrow> fresh_wf (sweep now f)"
  by (auto simp: fresh_wf_def sweep_def distinct_map_filter)

end
