(* ===== verification/FreshnessProps.thy ===== *)
theory FreshnessProps
  imports Freshness
begin

text \<open>
  Properties of the freshness index: the combined lookup against the pair it replaced, the timeline
  of a stored object, the sweep, and bans over arbitrary sequences of operations with a clock that
  does not go back.
\<close>

subsection \<open>The combined lookup\<close>

text \<open>C22: \<open>classify\<close> is the pair of \<open>hitForMiss\<close> and \<open>lookup\<close> it replaced, as its comment says: the
  same answer and the same index afterwards.\<close>

theorem classify_is_pair:
  assumes "fresh_wf f"
  shows "classify now now key f =
    (case hitForMiss now key f of
       (True, f') \<Rightarrow> ((stateMiss, True), f')
     | (False, f') \<Rightarrow> (case lookup now key f' of (st, f'') \<Rightarrow> ((st, False), f'')))"
proof (cases "fr_entry f key")
  case None
  then show ?thesis by (simp add: classify_def classify_read_def hitForMiss_def lookup_def fr_entry_def)
next
  case (Some e)
  have gone: "map_of (fresh_shard (forget key f) key) key = None"
    using fun_cong [OF forget_entry [OF assms, of key], of key] by (simp add: fr_entry_def)
  note defs = classify_def classify_read_def classifyPrune_def hitForMiss_def lookup_def
  have e: "map_of (fresh_shard f key) key = Some e" using Some by (simp add: fr_entry_def)
  show ?thesis
    by (cases "banned key (fe_storedAt e) f"; cases "fe_hfmUntil e = 0"; cases "now < fe_hfmUntil e";
        cases "now < fe_expires e"; cases "now < fe_graceUntil e") (simp_all add: defs e gone)
qed

theorem classify_is_pair_witness:
  "classify 15 15 ''k'' (fresh_store 10 ''k'' 3 4 0 newFreshness) =
     ((stateStale, False), fresh_store 10 ''k'' 3 4 0 newFreshness)"
proof -
  let ?f = "fresh_store 10 ''k'' 3 4 0 newFreshness"
  have "fresh_wf ?f"
    by (simp add: fresh_store_def put_fresh_wf newFreshness_wf fresh_shard_distinct Let_def)
  moreover have "fr_entry ?f ''k'' = Some \<lparr>fe_storedAt = 10, fe_expires = 13, fe_graceUntil = 17, fe_maxStaleUntil = 0, fe_hfmUntil = 0\<rparr>"
    by (simp add: fresh_store_def fr_entry_put newFreshness_wf Let_def i64_def)
  moreover have "\<not> banned ''k'' 10 ?f" by (simp add: banned_def fresh_store_def newFreshness_def Let_def)
  ultimately show ?thesis
    using classify_is_pair [of ?f 15 "''k''"] by (simp add: hitForMiss_def lookup_def fr_entry_def)
qed

subsection \<open>Reachable indexes\<close>

text \<open>A configuration is the clock, the index, and every ban issued so far. Every call is one step. Windows are short enough
  not to wrap (the bound is 73 years), and a ban is only a step here when the list has room for it.\<close>

definition max_window :: int where "max_window = 2 ^ 61"

inductive fresh_step :: "int \<times> freshness \<times> banEntry list \<Rightarrow> int \<times> freshness \<times> banEntry list \<Rightarrow> bool" where
  Tick: "t \<le> t' \<Longrightarrow> fresh_step (t, f, I) (t', f, I)"
| Store: "0 \<le> ttl \<Longrightarrow> 0 \<le> grace \<Longrightarrow> 0 \<le> maxStale \<Longrightarrow> ttl + grace + maxStale \<le> max_window \<Longrightarrow>
    fresh_step (t, f, I) (t, fresh_store t key ttl grace maxStale f, I)"
| Hfm: "0 \<le> d \<Longrightarrow> d \<le> max_window \<Longrightarrow> fresh_step (t, f, I) (t, setHitForMiss t key d f, I)"
| Classify: "fresh_step (t, f, I) (t, snd (classify t t key f), I)"
| HitForMiss: "fresh_step (t, f, I) (t, snd (hitForMiss t key f), I)"
| Lookup: "fresh_step (t, f, I) (t, snd (lookup t key f), I)"
| Forget: "fresh_step (t, f, I) (t, forget key f, I)"
| Sweep: "fresh_step (t, f, I) (t, sweep t f, I)"
| Ban: "length (fr_bans f) < maxBans \<Longrightarrow>
    fresh_step (t, f, I) (t, snd (ban t (Some re) f), \<lparr>be_re = re, be_issuedAt = t\<rparr> # I)"

definition fresh_reachable :: "int \<Rightarrow> freshness \<Rightarrow> banEntry list \<Rightarrow> bool" where
  "fresh_reachable t f I \<longleftrightarrow> (\<exists>t0 > 0. fresh_step\<^sup>*\<^sup>* (t0, newFreshness, []) (t, f, I))"

text \<open>When the entry can no longer be served in any way.\<close>

definition fe_end :: "freshEntry \<Rightarrow> int" where
  "fe_end e = max (max (fe_expires e) (fe_graceUntil e)) (max (fe_maxStaleUntil e) (fe_hfmUntil e))"

definition entry_ok :: "int \<Rightarrow> int \<Rightarrow> freshEntry \<Rightarrow> bool" where
  "entry_ok t w e \<longleftrightarrow> 0 < fe_storedAt e \<and> fe_storedAt e \<le> t \<and> fe_end e \<le> fe_storedAt e + w \<and>
     fe_expires e \<le> fe_graceUntil e \<and> (fe_maxStaleUntil e \<noteq> 0 \<longrightarrow> fe_graceUntil e \<le> fe_maxStaleUntil e)"

definition fresh_inv :: "int \<times> freshness \<times> banEntry list \<Rightarrow> bool" where
  "fresh_inv c \<longleftrightarrow> (case c of (t, f, I) \<Rightarrow>
     fresh_wf f \<and> 0 < t \<and> 0 \<le> fr_maxGrace f \<and> fr_maxGrace f \<le> max_window \<and>
     (\<forall>key e. fr_entry f key = Some e \<longrightarrow> entry_ok t (fr_maxGrace f) e) \<and>
     (\<forall>b \<in> set (fr_bans f). be_issuedAt b \<le> t) \<and>
     (\<forall>b \<in> set I. be_issuedAt b \<le> t \<and>
        (b \<in> set (fr_bans f) \<or> (\<forall>key e. fr_entry f key = Some e \<and> fe_storedAt e < be_issuedAt b \<longrightarrow> fe_end e \<le> t))))"

lemma fresh_invI:
  assumes "fresh_wf f" "0 < t" "0 \<le> fr_maxGrace f" "fr_maxGrace f \<le> max_window"
    "\<And>key e. fr_entry f key = Some e \<Longrightarrow> entry_ok t (fr_maxGrace f) e"
    "\<And>b. b \<in> set (fr_bans f) \<Longrightarrow> be_issuedAt b \<le> t" "\<And>b. b \<in> set I \<Longrightarrow> be_issuedAt b \<le> t"
    "\<And>b key e. b \<in> set I \<Longrightarrow> b \<notin> set (fr_bans f) \<Longrightarrow> fr_entry f key = Some e \<Longrightarrow> fe_storedAt e < be_issuedAt b \<Longrightarrow> fe_end e \<le> t"
  shows "fresh_inv (t, f, I)"
  using assms unfolding fresh_inv_def by blast

lemma fresh_invD:
  assumes "fresh_inv (t, f, I)"
  shows "fresh_wf f" "0 < t" "0 \<le> fr_maxGrace f" "fr_maxGrace f \<le> max_window"
    "fr_entry f key = Some e \<Longrightarrow> entry_ok t (fr_maxGrace f) e"
    "b \<in> set (fr_bans f) \<Longrightarrow> be_issuedAt b \<le> t" "b \<in> set I \<Longrightarrow> be_issuedAt b \<le> t"
    "b \<in> set I \<Longrightarrow> b \<notin> set (fr_bans f) \<Longrightarrow> fr_entry f key = Some e \<Longrightarrow> fe_storedAt e < be_issuedAt b \<Longrightarrow> fe_end e \<le> t"
  using assms unfolding fresh_inv_def by auto

text \<open>An operation that only drops entries keeps the invariant.\<close>

lemma fresh_inv_drop:
  assumes i: "fresh_inv (t, f, I)" and "fresh_wf f'" and "fr_maxGrace f' = fr_maxGrace f" and "fr_bans f' = fr_bans f"
    and e: "\<And>key. fr_entry f' key = None \<or> fr_entry f' key = fr_entry f key"
  shows "fresh_inv (t, f', I)"
proof (rule fresh_invI)
  note inv = fresh_invD [OF i]
  show "entry_ok t (fr_maxGrace f') x" if "fr_entry f' key = Some x" for key x
    using e [of key] that assms(3) inv(5) [of key x] by simp
  show "fe_end x \<le> t" if "b \<in> set I" "b \<notin> set (fr_bans f')" "fr_entry f' key = Some x" "fe_storedAt x < be_issuedAt b" for b key x
    using e [of key] that assms(4) inv(8) [of b key x] by simp
qed (use assms fresh_invD [OF i] in auto)

lemma forget_simps [simp]:
  "fr_bans (forget key f) = fr_bans f" "fr_maxGrace (forget key f) = fr_maxGrace f"
  by (simp_all add: forget_def)

lemma fresh_inv_forget: "fresh_inv (t, f, I) \<Longrightarrow> fresh_inv (t, forget key f, I)"
  by (rule fresh_inv_drop) (auto simp: forget_wf forget_entry fresh_invD(1))

lemma sweep_simps [simp]:
  "fr_bans (sweep now f) = fr_bans f" "fr_maxGrace (sweep now f) = fr_maxGrace f" "fr_banCount (sweep now f) = fr_banCount f"
  by (simp_all add: sweep_def)

lemma fresh_inv_sweep: "fresh_inv (t, f, I) \<Longrightarrow> fresh_inv (t, sweep now f, I)"
  by (rule fresh_inv_drop) (auto simp: sweep_wf sweep_entry fresh_invD(1) split: option.split)

lemma lookups_forget:
  "snd (classify t t' key f) = f \<or> snd (classify t t' key f) = forget key f"
  "snd (hitForMiss t key f) = f \<or> snd (hitForMiss t key f) = forget key f"
  "snd (lookup t key f) = f \<or> snd (lookup t key f) = forget key f"
  by (auto simp: classify_def classifyPrune_def hitForMiss_def lookup_def split: option.split)

lemma fresh_inv_update:
  assumes i: "fresh_inv (t, f, I)" and ok: "entry_ok t w e" and st: "fe_storedAt e = t" and w: "0 \<le> w" "w \<le> max_window"
  shows "fresh_inv (t, observeWindow w (put_fresh_shard key (AList.update key e (fresh_shard f key)) f), I)"
    (is "fresh_inv (t, ?f, I)")
proof (rule fresh_invI)
  note inv = fresh_invD [OF i]
  have entry: "fr_entry ?f = (fr_entry f)(key \<mapsto> e)" using fr_entry_put(1) [OF inv(1)] by simp
  show "fresh_wf ?f" using inv(1) by (simp add: put_fresh_wf fresh_shard_distinct)
  show "0 < t" "0 \<le> fr_maxGrace ?f" "fr_maxGrace ?f \<le> max_window" using inv w by simp_all
  show "entry_ok t (fr_maxGrace ?f) x" if "fr_entry ?f k = Some x" for k x
  proof (cases "k = key")
    case True
    with that entry ok show ?thesis by (auto simp: entry_ok_def)
  next
    case False
    with that entry have "fr_entry f k = Some x" by simp
    from inv(5) [OF this] show ?thesis by (auto simp: entry_ok_def)
  qed
  show "fe_end x \<le> t" if "b \<in> set I" "b \<notin> set (fr_bans ?f)" "fr_entry ?f k = Some x" "fe_storedAt x < be_issuedAt b" for b k x
  proof (cases "k = key")
    case True
    with that entry st inv(7) [OF that(1)] show ?thesis by simp
  next
    case False
    with that entry inv(8) [of b k x] show ?thesis by simp
  qed
qed (use fresh_invD [OF i] in auto)

lemma fresh_inv_ban:
  assumes i: "fresh_inv (t, f, I)" and room: "length (fr_bans f) < maxBans"
  shows "fresh_inv (t, snd (ban t (Some re) f), \<lparr>be_re = re, be_issuedAt = t\<rparr> # I)"
proof -
  note inv = fresh_invD [OF i]
  let ?b = "\<lparr>be_re = re, be_issuedAt = t\<rparr>" and ?kept = "filter (\<lambda>b. be_issuedAt b > t - 2 * fr_maxGrace f) (fr_bans f)"
  have "i64 (- 2 * fr_maxGrace f) = - 2 * fr_maxGrace f"
    using inv(3,4) by (intro i64_id) (simp add: in_i64_def max_window_def)
  moreover have "\<not> length ?kept \<ge> maxBans" using room length_filter_le [of _ "fr_bans f"] by (metis (no_types, lifting) le_trans linorder_not_le)
  ultimately have f': "snd (ban t (Some re) f) = f\<lparr>fr_bans := ?kept @ [?b], fr_banCount := int (length (?kept @ [?b]))\<rparr>"
    by (simp add: ban_def Let_def)
  have entry: "fr_entry (snd (ban t (Some re) f)) = fr_entry f"
    by (simp add: f' fr_entry_def fresh_shard_def fun_eq_iff)
  show ?thesis
  proof (rule fresh_invI)
    show "fresh_wf (snd (ban t (Some re) f))" using inv(1) by (simp add: f' fresh_wf_def)
    show "entry_ok t (fr_maxGrace (snd (ban t (Some re) f))) e" if "fr_entry (snd (ban t (Some re) f)) key = Some e" for key e
      using inv(5) that entry by (simp add: f')
    show "be_issuedAt b \<le> t" if "b \<in> set (fr_bans (snd (ban t (Some re) f)))" for b
      using that inv(6) by (auto simp: f')
    show "be_issuedAt b \<le> t" if "b \<in> set (?b # I)" for b using that inv(7) by auto
    show "fe_end e \<le> t" if b: "b \<in> set (?b # I)" "b \<notin> set (fr_bans (snd (ban t (Some re) f)))"
      and e: "fr_entry (snd (ban t (Some re) f)) key = Some e" "fe_storedAt e < be_issuedAt b" for b key e
    proof (cases "b \<in> set (fr_bans f)")
      case True
      with b(2) have "be_issuedAt b \<le> t - 2 * fr_maxGrace f" by (simp add: f')
      moreover have "fe_end e \<le> fe_storedAt e + fr_maxGrace f" using inv(5) e(1) entry by (simp add: entry_ok_def)
      ultimately show ?thesis using e(2) inv(3) by linarith
    next
      case False
      with b have "b \<in> set I" by (auto simp: f')
      from inv(8) [OF this False] e entry show ?thesis by simp
    qed
  qed (use inv in \<open>simp_all add: f'\<close>)
qed

lemma entry_ok_store:
  assumes "0 < t" "0 \<le> ttl" "0 \<le> grace" "0 \<le> maxStale" "ttl + grace + maxStale \<le> max_window"
  shows "i64 (ttl + grace) = ttl + grace" "i64 (i64 (ttl + grace) + maxStale) = ttl + grace + maxStale"
    "entry_ok t (ttl + grace + maxStale)
      \<lparr>fe_storedAt = t, fe_expires = t + ttl, fe_graceUntil = t + (ttl + grace),
       fe_maxStaleUntil = (if maxStale > 0 then t + (ttl + grace + maxStale) else 0), fe_hfmUntil = 0\<rparr>"
proof -
  show w: "i64 (ttl + grace) = ttl + grace" "i64 (i64 (ttl + grace) + maxStale) = ttl + grace + maxStale"
    using assms by (simp_all add: i64_id in_i64_def max_window_def)
  show "entry_ok t (ttl + grace + maxStale)
      \<lparr>fe_storedAt = t, fe_expires = t + ttl, fe_graceUntil = t + (ttl + grace),
       fe_maxStaleUntil = (if maxStale > 0 then t + (ttl + grace + maxStale) else 0), fe_hfmUntil = 0\<rparr>"
    using assms by (auto simp: entry_ok_def fe_end_def)
qed

lemma fresh_step_inv: "fresh_step c c' \<Longrightarrow> fresh_inv c \<Longrightarrow> fresh_inv c'"
proof (induction rule: fresh_step.induct)
  case (Tick t t' f I)
  note inv = fresh_invD [OF Tick(2)]
  show ?case
  proof (rule fresh_invI)
    show "entry_ok t' (fr_maxGrace f) e" if "fr_entry f key = Some e" for key e
      using inv(5) [OF that] Tick(1) by (auto simp: entry_ok_def)
    show "fe_end e \<le> t'" if "b \<in> set I" "b \<notin> set (fr_bans f)" "fr_entry f key = Some e" "fe_storedAt e < be_issuedAt b" for b key e
      using inv(8) [OF that] Tick(1) by simp
    show "be_issuedAt b \<le> t'" if "b \<in> set (fr_bans f)" for b using inv(6) [OF that] Tick(1) by simp
    show "be_issuedAt b \<le> t'" if "b \<in> set I" for b using inv(7) [OF that] Tick(1) by simp
  qed (use inv Tick(1) in simp_all)
next
  case (Store ttl grace maxStale t f I key)
  note ok = entry_ok_store [OF fresh_invD(2) [OF Store(5)] Store(1-4)]
  show ?case
    using fresh_inv_update [OF Store(5) ok(3), of key] Store(1-4)
    unfolding fresh_store_def Let_def ok(2) unfolding ok(1) by simp
next
  case (Hfm d t f I key)
  have "entry_ok t d \<lparr>fe_storedAt = t, fe_expires = 0, fe_graceUntil = 0, fe_maxStaleUntil = 0, fe_hfmUntil = t + d\<rparr>"
    using Hfm fresh_invD(2) [OF Hfm(3)] by (simp add: entry_ok_def fe_end_def)
  from fresh_inv_update [OF Hfm(3) this, of key] Hfm(1,2) show ?case by (simp add: setHitForMiss_def)
next
  case (Classify t f I key)
  with lookups_forget(1) [of t t key f] fresh_inv_forget show ?case by metis
next
  case (HitForMiss t f I key)
  with lookups_forget(2) [of t key f] fresh_inv_forget show ?case by metis
next
  case (Lookup t f I key)
  with lookups_forget(3) [of t key f] fresh_inv_forget show ?case by metis
qed (simp_all add: fresh_inv_forget fresh_inv_sweep fresh_inv_ban)

lemma fresh_reachable_inv: "fresh_reachable t f I \<Longrightarrow> fresh_inv (t, f, I)"
proof -
  assume "fresh_reachable t f I"
  then obtain t0 where t0: "0 < t0" "fresh_step\<^sup>*\<^sup>* (t0, newFreshness, []) (t, f, I)" by (auto simp: fresh_reachable_def)
  have "fresh_inv (t0, newFreshness, [])"
    using t0(1) newFreshness_wf by (simp add: fresh_inv_def newFreshness_def fr_entry_def fresh_shard_def max_window_def)
  with t0(2) show ?thesis by (induction rule: rtranclp_induct) (auto intro: fresh_step_inv)
qed

subsection \<open>Properties\<close>

lemma not_banned_now:
  assumes "fresh_inv (t, f, I)"
  shows "\<not> banned key t f"
  using fresh_invD(6) [OF assms] by (auto simp: banned_iff [OF fresh_invD(1) [OF assms]] not_less)

text \<open>C37: The timeline of a stored object. From any reachable index, a key recorded at \<open>t\<close> with a TTL,
  a grace and a max-stale window, none negative and within the greatest window together, is fresh until the TTL has passed, then stale until the grace has
  passed, then a miss, and a fallback for a failing origin exactly from there to the end of the
  max-stale window. Its age is counted from \<open>t\<close>, its advertised lifetime is the TTL, and no other
  key is touched.\<close>

theorem fresh_timeline:
  assumes "fresh_reachable t f I" and "0 \<le> ttl" and "0 \<le> grace" and "0 \<le> maxStale" and "ttl + grace + maxStale \<le> max_window"
    and "t \<le> now" and "f' = fresh_store t key ttl grace maxStale f"
  shows "fst (classify now now key f') =
      ((if now < t + ttl then stateFresh else if now < t + ttl + grace then stateStale else stateMiss), False) \<and>
    (staleWithin now key f' \<longleftrightarrow> t + ttl + grace \<le> now \<and> now < t + ttl + grace + maxStale) \<and>
    lifetime key f' = Some ttl \<and> fresh_storedAt key f' = Some t \<and> (\<forall>k. k \<noteq> key \<longrightarrow> fr_entry f' k = fr_entry f k)"
proof -
  have inv: "fresh_inv (t, f, I)" using assms(1) by (rule fresh_reachable_inv)
  note ok = entry_ok_store [OF fresh_invD(2) [OF inv] assms(2-5)] and wf = fresh_invD(1) [OF inv]
  let ?e = "\<lparr>fe_storedAt = t, fe_expires = t + ttl, fe_graceUntil = t + (ttl + grace),
       fe_maxStaleUntil = (if maxStale > 0 then t + (ttl + grace + maxStale) else 0), fe_hfmUntil = 0\<rparr>"
  have f': "f' = observeWindow (ttl + grace + maxStale) (put_fresh_shard key (AList.update key ?e (fresh_shard f key)) f)"
    unfolding assms(7) fresh_store_def Let_def ok(2) unfolding ok(1) ..
  have entry: "fr_entry f' = (fr_entry f)(key \<mapsto> ?e)" unfolding f' by (simp add: fr_entry_put [OF wf])
  have e: "map_of (fresh_shard f' key) key = Some ?e" using fun_cong [OF entry, of key] by (simp add: fr_entry_def)
  have nb: "\<not> banned key t f'" using not_banned_now [OF inv, of key] banned_cong [of f' f key t] by (simp add: f')
  have "fst (classify now now key f') =
      ((if now < t + ttl then stateFresh else if now < t + ttl + grace then stateStale else stateMiss), False)"
    using assms(2-4) by (simp add: classify_def classify_read_def classifyPrune_def e nb)
  moreover have "staleWithin now key f' \<longleftrightarrow> t + ttl + grace \<le> now \<and> now < t + ttl + grace + maxStale"
    using assms(2-4) fresh_invD(2) [OF inv] by (auto simp: staleWithin_def e nb)
  moreover have "time_Sub (t + ttl) t = ttl" using assms(2-5) by (simp add: time_Sub_def max_window_def)
  then have "lifetime key f' = Some ttl" using assms(2) by (simp add: lifetime_def e)
  moreover have "fresh_storedAt key f' = Some t" by (simp add: fresh_storedAt_def e)
  moreover have "\<forall>k. k \<noteq> key \<longrightarrow> fr_entry f' k = fr_entry f k" by (simp add: entry)
  ultimately show ?thesis by blast
qed

lemma fresh_start: "0 < t \<Longrightarrow> fresh_reachable t newFreshness []"
  by (auto simp: fresh_reachable_def)

theorem fresh_timeline_witness:
  "fst (classify 16 16 ''k'' (fresh_store 10 ''k'' 5 20 100 newFreshness)) = (stateStale, False) \<and>
   staleWithin 50 ''k'' (fresh_store 10 ''k'' 5 20 100 newFreshness)"
  using fresh_timeline [of 10 newFreshness "[]" 5 20 100 16 "fresh_store 10 ''k'' 5 20 100 newFreshness" "''k''"]
    fresh_timeline [of 10 newFreshness "[]" 5 20 100 50 "fresh_store 10 ''k'' 5 20 100 newFreshness" "''k''"]
    fresh_start [of 10]
  by (simp add: max_window_def)

lemma reclaimed_unobservable:
  assumes inv: "fresh_inv (t0, f, I)" and e: "fr_entry f key = Some e" and r: "entryReclaimable key e now f"
    and t: "now \<le> t" "t \<le> t'"
  shows "fst (classify t t' key f) = (stateMiss, False)" "\<not> staleWithin t key f"
proof -
  have m: "map_of (fresh_shard f key) key = Some e" using e by (simp add: fr_entry_def)
  have ok: "fe_expires e \<le> fe_graceUntil e" using fresh_invD(5) [OF inv e] by (simp add: entry_ok_def)
  show "fst (classify t t' key f) = (stateMiss, False)"
    using r t ok by (auto simp: classify_def classify_read_def classifyPrune_def entryReclaimable_def m split: if_splits)
  show "\<not> staleWithin t key f"
    using r t by (auto simp: staleWithin_def entryReclaimable_def prunable_def m split: if_splits)
qed

text \<open>The background sweep is invisible: whatever it drops at \<open>now\<close>, every later lookup of every
  key, and every later question for a fallback, gets the answer it would have got without the
  sweep.\<close>

theorem sweep_invisible:
  assumes "fresh_reachable t0 f I" and "now \<le> t" and "t \<le> t'"
  shows "fst (classify t t' key (sweep now f)) = fst (classify t t' key f) \<and>
    staleWithin t key (sweep now f) = staleWithin t key f"
proof -
  have inv: "fresh_inv (t0, f, I)" using assms(1) by (rule fresh_reachable_inv)
  note wf = fresh_invD(1) [OF inv]
  have b: "banned k s (sweep now f) = banned k s f" for k s by (rule banned_cong) simp_all
  show ?thesis
  proof (cases "fr_entry f key")
    case None
    with sweep_entry [OF wf, of now key] show ?thesis
      by (simp add: classify_def classify_read_def staleWithin_def fr_entry_def)
  next
    case (Some e)
    show ?thesis
    proof (cases "entryReclaimable key e now f")
      case True
      with sweep_entry [OF wf, of now key] Some reclaimed_unobservable [OF inv Some True assms(2,3)] show ?thesis
        by (simp add: classify_def [of _ _ _ "sweep now f"] classify_read_def [of _ _ "sweep now f"]
            staleWithin_def [of _ _ "sweep now f"] fr_entry_def)
    next
      case False
      with sweep_entry [OF wf, of now key] Some have "map_of (fresh_shard (sweep now f) key) key = map_of (fresh_shard f key) key"
        by (simp add: fr_entry_def)
      then show ?thesis
        by (auto simp: classify_def classify_read_def classifyPrune_def staleWithin_def b split: option.split)
    qed
  qed
qed

theorem sweep_invisible_witness:
  "fst (classify 20 20 ''k'' (sweep 18 (fresh_store 10 ''k'' 3 4 0 newFreshness))) =
     fst (classify 20 20 ''k'' (fresh_store 10 ''k'' 3 4 0 newFreshness))"
proof -
  have "fresh_step (10, newFreshness, []) (10, fresh_store 10 ''k'' 3 4 0 newFreshness, [])"
    by (rule fresh_step.Store) (simp_all add: max_window_def)
  then have "fresh_reachable 10 (fresh_store 10 ''k'' 3 4 0 newFreshness) []"
    unfolding fresh_reachable_def by (intro exI [of _ 10]) auto
  from sweep_invisible [OF this, of 18 20 20 "''k''"] show ?thesis by simp
qed

text \<open>C9: A ban holds. After any sequence of operations in which the ban list never overflowed, an
  entry whose key matches a ban issued after the entry was recorded is a miss and no fallback, even
  when the ban itself has been pruned as too old; and an entry recorded at the instant of the last
  ban or later is not affected by any.\<close>

theorem ban_effective:
  assumes "fresh_reachable t f I" and "fr_entry f key = Some e"
  shows "((\<exists>b \<in> set I. be_re b key \<and> fe_storedAt e < be_issuedAt b) \<longrightarrow>
       fst (classify t t key f) = (stateMiss, False) \<and> \<not> staleWithin t key f) \<and>
    ((\<forall>b \<in> set (fr_bans f). be_issuedAt b \<le> fe_storedAt e) \<longrightarrow> \<not> banned key (fe_storedAt e) f)"
proof -
  have inv: "fresh_inv (t, f, I)" using assms(1) by (rule fresh_reachable_inv)
  note wf = fresh_invD(1) [OF inv]
  have m: "map_of (fresh_shard f key) key = Some e" using assms(2) by (simp add: fr_entry_def)
  have "fst (classify t t key f) = (stateMiss, False) \<and> \<not> staleWithin t key f"
    if b: "b \<in> set I" "be_re b key" "fe_storedAt e < be_issuedAt b" for b
  proof (cases "b \<in> set (fr_bans f)")
    case True
    with b have "banned key (fe_storedAt e) f" by (auto simp: banned_iff [OF wf])
    then show ?thesis by (auto simp: classify_def classify_read_def classifyPrune_def staleWithin_def m)
  next
    case False
    from fresh_invD(8) [OF inv b(1) False assms(2) b(3)] have "fe_end e \<le> t" .
    then show ?thesis
      by (auto simp: classify_def classify_read_def classifyPrune_def staleWithin_def m fe_end_def)
  qed
  then show ?thesis by (auto simp: banned_iff [OF wf] not_less)
qed

theorem ban_effective_witness:
  "let f = snd (ban 12 (Some (\<lambda>k. k = ''k'')) (fresh_store 10 ''k'' 100 0 0 newFreshness))
   in fst (classify 12 12 ''k'' f) = (stateMiss, False)"
proof -
  let ?f1 = "fresh_store 10 ''k'' 100 0 0 newFreshness"
  let ?f = "snd (ban 12 (Some (\<lambda>k. k = ''k'')) ?f1)" and ?b = "\<lparr>be_re = \<lambda>k. k = ''k'', be_issuedAt = 12\<rparr>"
  have 1: "fresh_step (10, newFreshness, []) (10, ?f1, [])" by (rule fresh_step.Store) (simp_all add: max_window_def)
  have 2: "fresh_step (10, ?f1, []) (12, ?f1, [])" by (rule fresh_step.Tick) simp
  have 3: "fresh_step (12, ?f1, []) (12, ?f, [?b])"
    by (rule fresh_step.Ban) (simp add: fresh_store_def newFreshness_def maxBans_def Let_def)
  have "fresh_step\<^sup>*\<^sup>* (10, newFreshness, []) (12, ?f, [?b])" by (rule rtranclp_3 [of fresh_step, OF 1 2 3])
  then have r: "fresh_reachable 12 ?f [?b]" unfolding fresh_reachable_def by (intro exI [of _ 10]) simp
  have "fr_entry ?f ''k'' = fr_entry ?f1 ''k''" by (simp add: ban_def fr_entry_def fresh_shard_def Let_def)
  moreover have "\<exists>e. fr_entry ?f1 ''k'' = Some e \<and> fe_storedAt e = 10"
    by (simp add: fresh_store_def fr_entry_put newFreshness_wf Let_def)
  ultimately obtain e where "fr_entry ?f ''k'' = Some e" "fe_storedAt e = 10" by auto
  with ban_effective [OF r this(1)] show ?thesis by (simp add: Let_def)
qed

text \<open>A ban list in which no ban is too old holds the last 256 bans.\<close>

definition take_last :: "nat \<Rightarrow> 'a list \<Rightarrow> 'a list" where
  "take_last n xs = drop (length xs - n) xs"

lemma take_last_snoc: "0 < n \<Longrightarrow> take_last n (take_last n xs @ [y]) = take_last n (xs @ [y])"
  by (cases "length xs \<le> n") (auto simp: take_last_def Suc_diff_le)

lemma set_take_last: "set (take_last n xs) \<subseteq> set xs"
  by (auto simp: take_last_def dest: in_set_dropD)

definition bans_at :: "(string \<Rightarrow> bool) \<Rightarrow> int list \<Rightarrow> freshness \<Rightarrow> freshness" where
  "bans_at re ts f = foldl (\<lambda>f t. snd (ban t (Some re) f)) f ts"

lemma bans_at_list:
  assumes "\<forall>b \<in> set (fr_bans f). 0 < be_issuedAt b" and "\<forall>t \<in> set ts. 0 < t \<and> t < 2 * fr_maxGrace f"
    and "fr_maxGrace f \<le> max_window" and "length (fr_bans f) \<le> maxBans"
  shows "fr_bans (bans_at re ts f) = take_last maxBans (fr_bans f @ map (\<lambda>t. \<lparr>be_re = re, be_issuedAt = t\<rparr>) ts) \<and>
    fr_maxGrace (bans_at re ts f) = fr_maxGrace f \<and> fr_entry (bans_at re ts f) = fr_entry f \<and>
    (fresh_wf f \<longrightarrow> fresh_wf (bans_at re ts f))"
  using assms(2)
proof (induction ts rule: rev_induct)
  case Nil
  then show ?case using assms(4) by (simp add: bans_at_def take_last_def)
next
  case (snoc t ts)
  let ?g = "bans_at re ts f" and ?bs = "fr_bans f @ map (\<lambda>t. \<lparr>be_re = re, be_issuedAt = t\<rparr>) ts" and ?b = "\<lparr>be_re = re, be_issuedAt = t\<rparr>"
  have g: "fr_bans ?g = take_last maxBans ?bs" "fr_maxGrace ?g = fr_maxGrace f" "fr_entry ?g = fr_entry f"
    "fresh_wf f \<longrightarrow> fresh_wf ?g" using snoc by simp_all
  have t: "0 < t" "t < 2 * fr_maxGrace f" using snoc.prems by simp_all
  have w: "i64 (- (2 * fr_maxGrace f)) = - (2 * fr_maxGrace f)"
    using t assms(3) by (intro i64_id) (simp add: in_i64_def max_window_def)
  have "0 < be_issuedAt b" if "b \<in> set (fr_bans ?g)" for b
    using that set_take_last [of maxBans ?bs] assms(1) snoc.prems by (auto simp: g(1))
  then have kept: "filter (\<lambda>b. be_issuedAt b > t - 2 * fr_maxGrace f) (fr_bans ?g) = fr_bans ?g"
    using t by (intro filter_True) fastforce
  have "length (fr_bans ?g) \<le> maxBans" by (simp add: g(1) take_last_def)
  then have "fr_bans (snd (ban t (Some re) ?g)) = take_last maxBans (fr_bans ?g @ [?b])"
    by (auto simp: ban_def Let_def w g(2) kept take_last_def maxBans_def)
  also have "\<dots> = take_last maxBans (?bs @ [?b])" by (simp add: g(1) take_last_snoc maxBans_def)
  finally have "fr_bans (bans_at re (ts @ [t]) f) = take_last maxBans (fr_bans f @ map (\<lambda>t. \<lparr>be_re = re, be_issuedAt = t\<rparr>) (ts @ [t]))"
    by (simp add: bans_at_def)
  moreover have "fr_maxGrace (snd (ban t (Some re) ?g)) = fr_maxGrace f" "fr_entry (snd (ban t (Some re) ?g)) = fr_entry f"
    "fresh_wf f \<longrightarrow> fresh_wf (snd (ban t (Some re) ?g))"
    using g(2-4) by (simp_all add: ban_def Let_def fr_entry_def fresh_shard_def fresh_wf_def fun_eq_iff)
  ultimately show ?case by (simp add: bans_at_def)
qed

text \<open>When the list overflows, the oldest ban is dropped although the object it invalidated is
  still within its TTL: after 256 more purges of other keys the purged object is served as fresh
  again.\<close>

lemma ban_overflow_resurrects:
  "let f = snd (ban 12 (Some (\<lambda>k. k = ''k'')) (fresh_store 10 ''k'' 1000 0 0 newFreshness));
       f' = bans_at (\<lambda>k. k = ''other'') (map int [13..<269]) f
   in fst (classify 12 12 ''k'' f) = (stateMiss, False) \<and> fst (classify 300 300 ''k'' f') = (stateFresh, False)"
proof -
  let ?f1 = "fresh_store 10 ''k'' 1000 0 0 newFreshness" and ?re = "\<lambda>k. k = ''other''"
  let ?f = "snd (ban 12 (Some (\<lambda>k. k = ''k'')) ?f1)" and ?b = "\<lparr>be_re = \<lambda>k. k = ''k'', be_issuedAt = 12\<rparr>"
  define ts where "ts = map int [13..<269]"
  have "length ts = 269 - 13" unfolding ts_def by (simp only: length_map length_upt)
  then have ts: "length ts = 256" "\<forall>t \<in> set ts. 0 < t \<and> t < 2000"
    unfolding ts_def by (simp, simp only: set_map set_upt ball_simps) auto
  have f1: "fr_bans ?f1 = []" "fr_maxGrace ?f1 = 1000" "fresh_wf ?f1"
    "fr_entry ?f1 ''k'' = Some \<lparr>fe_storedAt = 10, fe_expires = 1010, fe_graceUntil = 1010, fe_maxStaleUntil = 0, fe_hfmUntil = 0\<rparr>"
    by (simp_all add: fresh_store_def newFreshness_wf put_fresh_wf fresh_shard_distinct fr_entry_put Let_def i64_def)
      (simp_all add: newFreshness_def)
  then have f: "fr_bans ?f = [?b]" "fr_banCount ?f = 1" "fr_maxGrace ?f = 1000" "fresh_wf ?f" "fr_entry ?f ''k'' = fr_entry ?f1 ''k''"
    by (simp_all add: ban_def Let_def maxBans_def fresh_wf_def fr_entry_def fresh_shard_def)
  have miss: "fst (classify 12 12 ''k'' ?f) = (stateMiss, False)"
    using f f1(4) by (simp add: fr_entry_def classify_def classify_read_def classifyPrune_def banned_def)
  have r: "fr_bans (bans_at ?re ts ?f) = take_last maxBans ([?b] @ map (\<lambda>t. \<lparr>be_re = ?re, be_issuedAt = t\<rparr>) ts)"
    "fr_entry (bans_at ?re ts ?f) = fr_entry ?f" "fresh_wf (bans_at ?re ts ?f)"
    using bans_at_list [of ?f ts ?re] f ts(2) by (simp_all add: maxBans_def max_window_def)
  have "\<not> banned ''k'' 10 (bans_at ?re ts ?f)"
    unfolding banned_iff [OF r(3)] r(1) using ts(1) by (auto simp: take_last_def maxBans_def)
  moreover have "fr_entry (bans_at ?re ts ?f) ''k'' =
      Some \<lparr>fe_storedAt = 10, fe_expires = 1010, fe_graceUntil = 1010, fe_maxStaleUntil = 0, fe_hfmUntil = 0\<rparr>"
    using fun_cong [OF r(2), of "''k''"] f(5) f1(4) by simp
  ultimately have "fst (classify 300 300 ''k'' (bans_at ?re ts ?f)) = (stateFresh, False)"
    by (simp add: fr_entry_def classify_def classify_read_def)
  with miss show ?thesis unfolding ts_def Let_def by blast
qed

text \<open>Where a call is not one step. The window of a new entry is observed after the entry can be seen. When
  two bans fall in between, the second one drops the first as too old for any entry, and the entry that
  the first one invalidated is served.\<close>

lemma fresh_store_split:
  "fresh_store now key ttl grace maxStale f =
     observeWindow (i64 (i64 (ttl + grace) + maxStale)) (record_entry now key ttl grace maxStale f)"
  by (simp add: fresh_store_def record_entry_def Let_def)

lemma late_window_loses_ban:
  "let f1 = record_entry 10 ''k'' 100 0 0 newFreshness;
       f2 = snd (ban 12 (Some (\<lambda>k. k = ''k'')) f1);
       f3 = snd (ban 13 (Some (\<lambda>k. k = ''other'')) f2);
       f4 = observeWindow 100 f3
   in fst (classify 14 14 ''k'' f2) = (stateMiss, False) \<and> fst (classify 14 14 ''k'' f4) = (stateFresh, False)"
proof -
  let ?f1 = "record_entry 10 ''k'' 100 0 0 newFreshness"
  let ?f2 = "snd (ban 12 (Some (\<lambda>k. k = ''k'')) ?f1)" and ?b = "\<lparr>be_re = \<lambda>k. k = ''k'', be_issuedAt = 12\<rparr>"
  let ?f3 = "snd (ban 13 (Some (\<lambda>k. k = ''other'')) ?f2)" and ?b' = "\<lparr>be_re = \<lambda>k. k = ''other'', be_issuedAt = 13\<rparr>"
  have f1: "fr_bans ?f1 = []" "fr_maxGrace ?f1 = 0"
    "fr_entry ?f1 ''k'' = Some \<lparr>fe_storedAt = 10, fe_expires = 110, fe_graceUntil = 110, fe_maxStaleUntil = 0, fe_hfmUntil = 0\<rparr>"
    by (simp_all add: record_entry_def newFreshness_wf fr_entry_put i64_def) (simp_all add: newFreshness_def)
  then have f2: "fr_bans ?f2 = [?b]" "fr_banCount ?f2 = 1" "fr_maxGrace ?f2 = 0" "fr_entry ?f2 ''k'' = fr_entry ?f1 ''k''"
    by (simp_all add: ban_def Let_def maxBans_def fr_entry_def fresh_shard_def)
  then have f3: "fr_bans ?f3 = [?b']" "fr_banCount ?f3 = 1" "fr_maxGrace ?f3 = 0" "fr_entry ?f3 ''k'' = fr_entry ?f1 ''k''"
    by (simp_all add: ban_def [of 13] Let_def maxBans_def fr_entry_def fresh_shard_def i64_def)
  have "fst (classify 14 14 ''k'' ?f2) = (stateMiss, False)"
    using f2 f1(3) by (simp add: fr_entry_def classify_def classify_read_def classifyPrune_def banned_def)
  moreover define f4 where "f4 = observeWindow 100 ?f3"
  have "fr_bans f4 = [?b']" "fr_banCount f4 = 1" "fr_entry f4 ''k'' = fr_entry ?f3 ''k''"
    using f3 by (simp_all add: f4_def observeWindow_def fr_entry_def fresh_shard_def)
  then have "fst (classify 14 14 ''k'' f4) = (stateFresh, False)"
    unfolding f3(4) f1(3) by (simp add: fr_entry_def classify_def classify_read_def banned_def)
  ultimately show ?thesis unfolding Let_def f4_def by blast
qed

end
