(* ===== verification/GoNum.thy ===== *)
theory GoNum
  imports GoStrings
begin

text \<open>
  Decimal numbers as \<open>strconv\<close> reads and writes them, and the string searches \<open>IndexByte\<close> and
  \<open>Contains\<close>. Writing a 64-bit number and reading it back gives the number.
\<close>

definition is_digit :: "char \<Rightarrow> bool" where
  "is_digit c \<longleftrightarrow> 48 \<le> byte c \<and> byte c \<le> 57"

definition digit_val :: "char \<Rightarrow> nat" where
  "digit_val c = byte c - 48"

definition digit_char :: "nat \<Rightarrow> char" where
  "digit_char d = char_of (48 + d)"

text \<open>The value of a string of digits, most significant first.\<close>

definition dec_val :: "string \<Rightarrow> nat" where
  "dec_val s = foldl (\<lambda>n c. 10 * n + digit_val c) 0 s"

text \<open>\<open>strconv.ParseInt(s, 10, 64)\<close>: an optional sign and at least one digit; \<^const>\<open>None\<close> is a syntax
  or range error.\<close>

definition ParseInt :: "string \<Rightarrow> int option" where
  "ParseInt s =
     (let neg = (s \<noteq> [] \<and> hd s = CHR ''-'');
          ds = (if s \<noteq> [] \<and> (hd s = CHR ''-'' \<or> hd s = CHR ''+'') then tl s else s)
      in if ds = [] \<or> \<not> list_all is_digit ds then None
         else let n = int (dec_val ds) in
              if \<not> neg \<and> n \<ge> 2 ^ 63 then None
              else if neg \<and> n > 2 ^ 63 then None
              else Some (if neg then - n else n))"

fun dec_digits :: "nat \<Rightarrow> string" where
  "dec_digits n = (if n < 10 then [digit_char n] else dec_digits (n div 10) @ [digit_char (n mod 10)])"

declare dec_digits.simps [simp del]

text \<open>\<open>strconv.FormatInt(n, 10)\<close>.\<close>

definition FormatInt :: "int \<Rightarrow> string" where
  "FormatInt n = (if n < 0 then CHR ''-'' # dec_digits (nat (- n)) else dec_digits (nat n))"

definition ishex :: "char \<Rightarrow> bool" where
  "ishex c \<longleftrightarrow> (48 \<le> byte c \<and> byte c \<le> 57) \<or> (97 \<le> byte c \<and> byte c \<le> 102) \<or> (65 \<le> byte c \<and> byte c \<le> 70)"

definition unhex :: "char \<Rightarrow> nat" where
  "unhex c = (if byte c \<le> 57 then byte c - 48 else if 97 \<le> byte c then byte c - 87 else byte c - 55)"

definition IndexByte :: "string \<Rightarrow> char \<Rightarrow> int" where
  "IndexByte s c = (if c \<in> set s then int (length (takeWhile (\<lambda>x. x \<noteq> c) s)) else -1)"

lemma digit_char_ok [simp]: "d < 10 \<Longrightarrow> is_digit (digit_char d)" "d < 10 \<Longrightarrow> digit_val (digit_char d) = d"
  by (simp_all add: is_digit_def digit_val_def digit_char_def)

lemma dec_digits_digits: "list_all is_digit (dec_digits n)"
  by (induction n rule: dec_digits.induct) (simp add: dec_digits.simps)

lemma dec_digits_nonempty [simp]: "dec_digits n \<noteq> []"
  by (simp add: dec_digits.simps)

lemma dec_val_snoc [simp]: "dec_val (s @ [c]) = 10 * dec_val s + digit_val c"
  by (simp add: dec_val_def)

lemma dec_val_digits [simp]: "dec_val (dec_digits n) = n"
proof (induction n rule: dec_digits.induct)
  case (1 n)
  show ?case
  proof (cases "n < 10")
    case True
    then show ?thesis by (simp add: dec_digits.simps [of n] dec_val_def)
  next
    case False
    with 1 show ?thesis by (simp add: dec_digits.simps [of n])
  qed
qed

lemma is_digit_not: "is_digit c \<Longrightarrow> c \<noteq> CHR ''-'' \<and> c \<noteq> CHR ''+'' \<and> c \<noteq> CHR '','' \<and> c \<noteq> CHR ''/'' \<and> c \<noteq> CHR '' ''"
  by (auto simp: is_digit_def)

lemma digits_hd: "hd (dec_digits n) \<noteq> CHR ''-'' \<and> hd (dec_digits n) \<noteq> CHR ''+''"
  using dec_digits_digits [of n] is_digit_not [of "hd (dec_digits n)"] by (metis dec_digits_nonempty hd_in_set list.pred_set)

lemma ParseInt_FormatInt:
  assumes "in_i64 n"
  shows "ParseInt (FormatInt n) = Some n"
  using assms digits_hd dec_digits_digits by (auto simp: ParseInt_def FormatInt_def Let_def in_i64_def)

lemma ParseInt_range: "ParseInt s = Some n \<Longrightarrow> in_i64 n"
  by (auto simp: ParseInt_def Let_def in_i64_def split: if_splits)

lemma FormatInt_inj: "FormatInt a = FormatInt b \<Longrightarrow> a = b"
proof -
  assume eq: "FormatInt a = FormatInt b"
  let ?v = "\<lambda>s. if s \<noteq> [] \<and> hd s = CHR ''-'' then - int (dec_val (tl s)) else int (dec_val s)"
  have v: "?v (FormatInt n) = n" for n using digits_hd by (auto simp: FormatInt_def)
  show "a = b" using v [of a] v [of b] unfolding eq by (rule box_equals [OF refl])
qed

lemma FormatInt_digits: "0 \<le> n \<Longrightarrow> list_all is_digit (FormatInt n)" and FormatInt_nonempty [simp]: "FormatInt n \<noteq> []"
  using dec_digits_digits by (simp_all add: FormatInt_def)

text \<open>White space does not begin or end a number.\<close>

definition solid :: "char \<Rightarrow> bool" where
  "solid c \<longleftrightarrow> is_digit c \<or> byte c = 45"

lemma go_spaces_solid: "list_all (\<lambda>w. \<not> solid (hd w) \<and> \<not> solid (last w)) go_spaces"
  by (simp add: go_spaces_def solid_def is_digit_def)

lemma TrimSpace_solid:
  assumes "s \<noteq> []" and "solid (hd s)" and "solid (last s)"
  shows "TrimSpace s = s"
proof -
  have "find (\<lambda>w. w \<noteq> [] \<and> HasPrefix s w) go_spaces = None"
  proof (unfold find_None_iff, intro notI, elim exE conjE)
    fix w assume w: "w \<in> set go_spaces" "w \<noteq> []" "HasPrefix s w"
    then have "hd w = hd s" by (auto simp: HasPrefix_iff)
    with go_spaces_solid w(1) assms(2) show False by (auto simp: list_all_iff)
  qed
  then have left: "TrimLeft_sp s = s" by (simp add: TrimLeft_sp.simps [of s])
  have "find (\<lambda>w. w \<noteq> [] \<and> HasSuffix s w) go_spaces = None"
  proof (unfold find_None_iff, intro notI, elim exE conjE)
    fix w assume w: "w \<in> set go_spaces" "w \<noteq> []" "HasSuffix s w"
    then have "last w = last s" by (auto simp: HasSuffix_iff)
    with go_spaces_solid w(1) assms(3) show False by (auto simp: list_all_iff)
  qed
  then show ?thesis using left by (simp add: TrimSpace_def TrimRight_sp.simps [of s])
qed

lemma TrimSpace_Nil [simp]: "TrimSpace [] = []"
proof -
  have "find (\<lambda>w. w \<noteq> [] \<and> HasPrefix [] w) go_spaces = None" "find (\<lambda>w. w \<noteq> [] \<and> HasSuffix [] w) go_spaces = None"
    by (auto simp: find_None_iff HasPrefix_def HasSuffix_def)
  then show ?thesis by (simp add: TrimSpace_def TrimLeft_sp.simps [of "[]"] TrimRight_sp.simps [of "[]"])
qed

lemma IndexByte_append: "c \<notin> set a \<Longrightarrow> IndexByte (a @ c # b) c = int (length a)"
proof -
  assume "c \<notin> set a"
  then have "takeWhile (\<lambda>x. x \<noteq> c) (a @ c # b) = a" by (subst takeWhile_append2) auto
  then show ?thesis by (simp add: IndexByte_def)
qed

end
