(* ===== verification/Range.thy ===== *)
theory Range
  imports GoNum
begin

text \<open>
  Byte ranges, \<open>internal/server/range.go\<close>: the resolution of a \<open>Range\<close> header against the object's
  size. A resolved range always lies within the object; the three header forms resolve to the bytes
  they name; and every request falls in exactly one of the three outcomes (206, full 200, 416).
\<close>

datatype range_error = errInvalidRange | errUnsatisfiableRange

record httpRange =
  hr_start :: int
  hr_length :: int

definition parseSingleRange :: "string \<Rightarrow> int \<Rightarrow> range_error + httpRange" where
  "parseSingleRange header sz =
     (if sz \<le> 0 then Inl errUnsatisfiableRange
      else if \<not> HasPrefix header ''bytes='' then Inl errInvalidRange
      else
        let spec = TrimSpace (drop (length ''bytes='') header) in
        if spec = [] \<or> CHR '','' \<in> set spec then Inl errInvalidRange
        else
          let dash = IndexByte spec (CHR ''-'') in
          if dash < 0 then Inl errInvalidRange
          else
            let startStr = TrimSpace (take (nat dash) spec); endStr = TrimSpace (drop (nat dash + 1) spec) in
            if startStr = [] then
              (case ParseInt endStr of
                 None \<Rightarrow> Inl errInvalidRange
               | Some n \<Rightarrow>
                   if n \<le> 0 then Inl errUnsatisfiableRange
                   else let n = (if n > sz then sz else n) in Inr \<lparr>hr_start = sz - n, hr_length = n\<rparr>)
            else
              (case ParseInt startStr of
                 None \<Rightarrow> Inl errInvalidRange
               | Some start \<Rightarrow>
                   if start < 0 then Inl errInvalidRange
                   else if start \<ge> sz then Inl errUnsatisfiableRange
                   else if endStr \<noteq> [] then
                     (case ParseInt endStr of
                        None \<Rightarrow> Inl errInvalidRange
                      | Some end' \<Rightarrow>
                          if end' < start then Inl errUnsatisfiableRange
                          else let end' = (if end' \<ge> sz then sz - 1 else end')
                               in Inr \<lparr>hr_start = start, hr_length = end' - start + 1\<rparr>)
                   else Inr \<lparr>hr_start = start, hr_length = (sz - 1) - start + 1\<rparr>))"

definition contentRange :: "httpRange \<Rightarrow> int \<Rightarrow> string" where
  "contentRange r sz =
     ''bytes '' @ FormatInt (hr_start r) @ ''-'' @ FormatInt (hr_start r + hr_length r - 1) @ ''/'' @ FormatInt sz"

text \<open>Whatever the header, a resolved range is a non-empty part of the object: no offset or length
  handed to the copy loop is negative or past the end, and none of the sums leaves 64 bits.\<close>

theorem range_within_object:
  assumes "parseSingleRange header sz = Inr r" and "sz < 2 ^ 63"
  shows "0 \<le> hr_start r \<and> 1 \<le> hr_length r \<and> hr_start r + hr_length r \<le> sz \<and> in_i64 (hr_start r + hr_length r)"
proof -
  have "0 \<le> hr_start r \<and> 1 \<le> hr_length r \<and> hr_start r + hr_length r \<le> sz"
    using assms(1)
    by (auto simp: parseSingleRange_def Let_def split: if_splits option.splits)
  with assms(2) show ?thesis by (auto simp: in_i64_def)
qed

theorem range_within_object_witness:
  "\<exists>r. parseSingleRange ''bytes=-500'' 200 = Inr r \<and> hr_start r + hr_length r \<le> 200"
proof -
  have "parseSingleRange ''bytes=-500'' 200 = Inr \<lparr>hr_start = 0, hr_length = 200\<rparr>" by code_simp
  with range_within_object [OF this] show ?thesis by auto
qed

lemma num_solid: "0 \<le> n \<Longrightarrow> solid (hd (FormatInt n)) \<and> solid (last (FormatInt n))"
  using FormatInt_digits [of n] by (simp add: list_all_iff solid_def)

lemma TrimSpace_num: "0 \<le> n \<Longrightarrow> TrimSpace (FormatInt n) = FormatInt n"
  by (simp add: TrimSpace_solid num_solid)

lemma num_chars:
  assumes "0 \<le> n"
  shows "CHR '','' \<notin> set (FormatInt n)" "CHR ''-'' \<notin> set (FormatInt n)"
  using FormatInt_digits [OF assms] is_digit_not by (auto simp: list_all_iff)

lemma dash_solid [simp]: "solid (CHR ''-'')"
  by (simp add: solid_def)

lemma ParseInt_num: "0 \<le> n \<Longrightarrow> n < 2 ^ 63 \<Longrightarrow> ParseInt (FormatInt n) = Some n"
  by (rule ParseInt_FormatInt) (simp add: in_i64_def)

text \<open>The specification a client writes: first and last byte, an open end, or a suffix.\<close>

datatype range_spec = FromTo int int | From int | Suffix int

definition spec_text :: "range_spec \<Rightarrow> string" where
  "spec_text s = ''bytes='' @
     (case s of FromTo a b \<Rightarrow> FormatInt a @ ''-'' @ FormatInt b | From a \<Rightarrow> FormatInt a @ ''-'' | Suffix n \<Rightarrow> ''-'' @ FormatInt n)"

definition spec_ok :: "range_spec \<Rightarrow> bool" where
  "spec_ok s = (case s of FromTo a b \<Rightarrow> 0 \<le> a \<and> 0 \<le> b \<and> a < 2 ^ 63 \<and> b < 2 ^ 63
     | From a \<Rightarrow> 0 \<le> a \<and> a < 2 ^ 63 | Suffix n \<Rightarrow> 0 \<le> n \<and> n < 2 ^ 63)"

text \<open>The set of byte positions of an object that a specification names.\<close>

definition spec_bytes :: "range_spec \<Rightarrow> int \<Rightarrow> int set" where
  "spec_bytes s sz = (case s of FromTo a b \<Rightarrow> {a..b} | From a \<Rightarrow> {a..} | Suffix n \<Rightarrow> {sz - n..}) \<inter> {0..<sz}"

definition range_bytes :: "httpRange \<Rightarrow> int set" where
  "range_bytes r = {hr_start r..<hr_start r + hr_length r}"

lemma parse_spec:
  assumes "spec_ok s" and "0 < sz"
  shows "parseSingleRange (spec_text s) sz =
    (case s of
       FromTo a b \<Rightarrow> if a < sz \<and> a \<le> b then Inr \<lparr>hr_start = a, hr_length = min b (sz - 1) - a + 1\<rparr> else Inl errUnsatisfiableRange
     | From a \<Rightarrow> if a < sz then Inr \<lparr>hr_start = a, hr_length = sz - a\<rparr> else Inl errUnsatisfiableRange
     | Suffix n \<Rightarrow> if 0 < n then Inr \<lparr>hr_start = sz - min n sz, hr_length = min n sz\<rparr> else Inl errUnsatisfiableRange)"
proof (cases s)
  case (FromTo a b)
  with assms(1) have a: "0 \<le> a" "a < 2 ^ 63" and b: "0 \<le> b" "b < 2 ^ 63" by (simp_all add: spec_ok_def)
  have t: "TrimSpace (FormatInt a @ CHR ''-'' # FormatInt b) = FormatInt a @ CHR ''-'' # FormatInt b"
    using num_solid [OF a(1)] num_solid [OF b(1)] by (intro TrimSpace_solid) simp_all
  have i: "IndexByte (FormatInt a @ CHR ''-'' # FormatInt b) (CHR ''-'') = int (length (FormatInt a))"
    by (rule IndexByte_append [OF num_chars(2) [OF a(1)]])
  show ?thesis
    using assms(2) a b
    by (simp add: FromTo spec_text_def parseSingleRange_def HasPrefix_def Let_def t i num_chars TrimSpace_num ParseInt_num min_def)
next
  case (From a)
  with assms(1) have a: "0 \<le> a" "a < 2 ^ 63" by (simp_all add: spec_ok_def)
  have t: "TrimSpace (FormatInt a @ [CHR ''-'']) = FormatInt a @ [CHR ''-'']"
    using num_solid [OF a(1)] by (intro TrimSpace_solid) simp_all
  have i: "IndexByte (FormatInt a @ [CHR ''-'']) (CHR ''-'') = int (length (FormatInt a))"
    by (rule IndexByte_append [OF num_chars(2) [OF a(1)]])
  show ?thesis
    using assms(2) a
    by (simp add: From spec_text_def parseSingleRange_def HasPrefix_def Let_def t i num_chars TrimSpace_num ParseInt_num)
next
  case (Suffix n)
  with assms(1) have n: "0 \<le> n" "n < 2 ^ 63" by (simp_all add: spec_ok_def)
  have t: "TrimSpace (CHR ''-'' # FormatInt n) = CHR ''-'' # FormatInt n"
    using num_solid [OF n(1)] by (intro TrimSpace_solid) simp_all
  have i: "IndexByte (CHR ''-'' # FormatInt n) (CHR ''-'') = 0"
    using IndexByte_append [of "CHR ''-''" "[]"] by simp
  show ?thesis
    using assms(2) n
    by (simp add: Suffix spec_text_def parseSingleRange_def HasPrefix_def Let_def t i num_chars TrimSpace_num ParseInt_num min_def)
qed

text \<open>C40: On a non-empty object, every single-range header whose numbers are decimals that fit an \<open>int64\<close>
  resolves to exactly the bytes of the object it names (its overlap with the object), and is
  unsatisfiable exactly when there are none; it is never taken as malformed.\<close>

theorem range_resolves_spec:
  assumes "spec_ok s" and "0 < sz"
  shows "(\<forall>r. parseSingleRange (spec_text s) sz = Inr r \<longrightarrow> range_bytes r = spec_bytes s sz \<and> range_bytes r \<noteq> {}) \<and>
    (spec_bytes s sz = {} \<longleftrightarrow> parseSingleRange (spec_text s) sz = Inl errUnsatisfiableRange) \<and>
    parseSingleRange (spec_text s) sz \<noteq> Inl errInvalidRange"
proof (cases s)
  case (FromTo a b)
  with assms(1) have ab: "0 \<le> a" "0 \<le> b" by (simp_all add: spec_ok_def)
  have ne: "{a..b} \<inter> {0..<sz} \<noteq> {}" if "a < sz" "a \<le> b" using that ab by (metis Int_iff atLeastAtMost_iff atLeastLessThan_iff empty_iff order_refl)
  from ab FromTo show ?thesis
    unfolding parse_spec [OF assms] by (auto simp: range_bytes_def spec_bytes_def min_def dest: ne)
next
  case (From a)
  with assms(1) have a: "0 \<le> a" by (simp add: spec_ok_def)
  have ne: "{a..} \<inter> {0..<sz} \<noteq> {}" if "a < sz" using that a by (metis Int_iff atLeast_iff atLeastLessThan_iff empty_iff order_refl)
  from a From show ?thesis
    unfolding parse_spec [OF assms] by (auto simp: range_bytes_def spec_bytes_def dest: ne)
next
  case (Suffix n)
  with assms(1) have n: "0 \<le> n" by (simp add: spec_ok_def)
  have ne: "{sz - n..} \<inter> {0..<sz} \<noteq> {}" if "0 < n"
  proof -
    have "sz - 1 \<in> {sz - n..} \<inter> {0..<sz}" using that assms(2) by simp
    then show ?thesis by blast
  qed
  show ?thesis
  proof (cases "0 < n")
    case True
    with n Suffix assms(2) ne [OF True] show ?thesis
      unfolding parse_spec [OF assms] by (auto simp: range_bytes_def spec_bytes_def min_def)
  next
    case False
    with n Suffix assms(2) show ?thesis
      unfolding parse_spec [OF assms] by (auto simp: range_bytes_def spec_bytes_def min_def)
  qed
qed

theorem range_resolves_spec_witness:
  "spec_text (FromTo 5 9) = ''bytes=5-9'' \<and> (\<exists>r. parseSingleRange (spec_text (FromTo 5 9)) 8 = Inr r \<and> range_bytes r = {5..<8})"
proof -
  have "spec_text (FromTo 5 9) = ''bytes=5-9''" by code_simp
  moreover have ok: "spec_ok (FromTo 5 9)" by (simp add: spec_ok_def)
  moreover have "5 \<in> spec_bytes (FromTo 5 9) 8" "spec_bytes (FromTo 5 9) 8 = {5..<8}" by (auto simp: spec_bytes_def)
  ultimately show ?thesis using range_resolves_spec [OF ok, of 8]
    by (cases "parseSingleRange (spec_text (FromTo 5 9)) 8") (auto, metis range_error.exhaust)
qed

end
