(* ===== verification/Coalesce.thy ===== *)
theory Coalesce
  imports Prelude
begin

text \<open>
  Request coalescing, \<open>internal/server/coalesce.go\<close>: one origin fetch per cold key, with the other
  requests waiting for it, and the single-flight guard of background revalidations.

  A \<open>*fetchCall\<close> is an index into the list of calls allocated so far. Closing a channel twice panics
  in Go, which is \<^const>\<open>None\<close> here. A step relation interleaves any number of requests that run
  \<open>serveMiss\<close> of \<open>internal/server/handler.go\<close>: entering as winner or waiter, bypassing the coalescer, the
  winner's \<open>finish\<close>, and a waiter that wakes up and is served from the cache or fetches itself.
\<close>

record fetchCall =
  fc_done :: bool
  fc_succeeded :: bool

record fetchCoalescer =
  co_calls :: "nat gomap"
  co_heap :: "fetchCall list"

definition newFetchCoalescer :: fetchCoalescer where
  "newFetchCoalescer = \<lparr>co_calls = [], co_heap = []\<rparr>"

text \<open>The call and whether the caller is the winner.\<close>

definition enter :: "string \<Rightarrow> fetchCoalescer \<Rightarrow> (nat \<times> bool) \<times> fetchCoalescer" where
  "enter key c =
     (case map_of (co_calls c) key of
        Some existing \<Rightarrow> ((existing, False), c)
      | None \<Rightarrow>
          let call = length (co_heap c)
          in ((call, True),
              c\<lparr>co_heap := co_heap c @ [\<lparr>fc_done = False, fc_succeeded = False\<rparr>],
                co_calls := AList.update key call (co_calls c)\<rparr>))"

definition finish :: "string \<Rightarrow> nat \<Rightarrow> bool \<Rightarrow> fetchCoalescer \<Rightarrow> fetchCoalescer option" where
  "finish key call succeeded c =
     (let c = (if map_of (co_calls c) key = Some call then c\<lparr>co_calls := AList.delete key (co_calls c)\<rparr> else c)
      in if fc_done (co_heap c ! call) then None
         else Some (c\<lparr>co_heap := (co_heap c)[call := \<lparr>fc_done = True, fc_succeeded = succeeded\<rparr>]\<rparr>))"

subsection \<open>Requests\<close>

text \<open>Which misses are coalesced, by the Range field and the method of the request.\<close>

definition coalescable :: "string \<Rightarrow> string \<Rightarrow> bool" where
  "coalescable rng meth \<longleftrightarrow> rng = [] \<and> (meth = [] \<or> meth = ''GET'')"

text \<open>The winners that are still fetching and the waiters that are still blocked, with their key and
  call; the requests that fetch for themselves, with the call they had waited for if they had; and what
  the winners that have finished reported.\<close>

record coalesce_conf =
  cc_co :: fetchCoalescer
  cc_winners :: "(string \<times> nat) list"
  cc_waiters :: "(string \<times> nat) list"
  cc_own :: "(string \<times> nat option) list"
  cc_reports :: "(nat \<times> string \<times> bool) list"

text \<open>What \<open>serveFromCache\<close> returns to a waiter, and when a client goes away, is open.\<close>

inductive coalesce_step :: "coalesce_conf \<Rightarrow> coalesce_conf \<Rightarrow> bool" where
  Bypass: "\<not> coalescable rng meth \<Longrightarrow> coalesce_step s (s\<lparr>cc_own := (key, None) # cc_own s\<rparr>)"
| Win: "coalescable rng meth \<Longrightarrow> enter key (cc_co s) = ((call, True), c) \<Longrightarrow>
    coalesce_step s (s\<lparr>cc_co := c, cc_winners := (key, call) # cc_winners s\<rparr>)"
| Wait: "coalescable rng meth \<Longrightarrow> enter key (cc_co s) = ((call, False), c) \<Longrightarrow>
    coalesce_step s (s\<lparr>cc_co := c, cc_waiters := (key, call) # cc_waiters s\<rparr>)"
| Finish: "(key, call) \<in> set (cc_winners s) \<Longrightarrow> finish key call ok (cc_co s) = Some c \<Longrightarrow>
    coalesce_step s (s\<lparr>cc_co := c, cc_winners := remove1 (key, call) (cc_winners s),
      cc_reports := (call, key, ok) # cc_reports s\<rparr>)"
| Served: "(key, call) \<in> set (cc_waiters s) \<Longrightarrow> fc_done (co_heap (cc_co s) ! call) \<Longrightarrow> fc_succeeded (co_heap (cc_co s) ! call) \<Longrightarrow>
    coalesce_step s (s\<lparr>cc_waiters := remove1 (key, call) (cc_waiters s)\<rparr>)"
| Fall: "(key, call) \<in> set (cc_waiters s) \<Longrightarrow> fc_done (co_heap (cc_co s) ! call) \<Longrightarrow> \<not> (fc_succeeded (co_heap (cc_co s) ! call) \<and> cached) \<Longrightarrow>
    coalesce_step s (s\<lparr>cc_waiters := remove1 (key, call) (cc_waiters s), cc_own := (key, Some call) # cc_own s\<rparr>)"
| Gone: "(key, call) \<in> set (cc_waiters s) \<Longrightarrow>
    coalesce_step s (s\<lparr>cc_waiters := remove1 (key, call) (cc_waiters s)\<rparr>)"
| Over: "f \<in> set (cc_own s) \<Longrightarrow> coalesce_step s (s\<lparr>cc_own := remove1 f (cc_own s)\<rparr>)"

definition coalesce_start :: coalesce_conf where
  "coalesce_start = \<lparr>cc_co = newFetchCoalescer, cc_winners = [], cc_waiters = [], cc_own = [], cc_reports = []\<rparr>"

definition coalesce_inv :: "coalesce_conf \<Rightarrow> bool" where
  "coalesce_inv s \<longleftrightarrow>
     distinct (map fst (cc_winners s)) \<and> distinct (map snd (cc_winners s)) \<and>
     (\<forall>key call. map_of (co_calls (cc_co s)) key = Some call \<longleftrightarrow> (key, call) \<in> set (cc_winners s)) \<and>
     (\<forall>(key, call) \<in> set (cc_winners s). call < length (co_heap (cc_co s)) \<and> \<not> fc_done (co_heap (cc_co s) ! call)) \<and>
     (\<forall>(key, call) \<in> set (cc_waiters s). (key, call) \<in> set (cc_winners s) \<or>
        fc_done (co_heap (cc_co s) ! call) \<and> (call, key, fc_succeeded (co_heap (cc_co s) ! call)) \<in> set (cc_reports s)) \<and>
     (\<forall>(call, key, ok) \<in> set (cc_reports s). call < length (co_heap (cc_co s)) \<and> call \<notin> snd ` set (cc_winners s)) \<and>
     (\<forall>key call. (key, Some call) \<in> set (cc_own s) \<longrightarrow> (\<exists>ok. (call, key, ok) \<in> set (cc_reports s)))"

lemma coalesce_invD:
  assumes "coalesce_inv s"
  shows "distinct (map fst (cc_winners s))" "distinct (map snd (cc_winners s))"
    "map_of (co_calls (cc_co s)) key = Some call \<longleftrightarrow> (key, call) \<in> set (cc_winners s)"
    "(key, call) \<in> set (cc_winners s) \<Longrightarrow> call < length (co_heap (cc_co s)) \<and> \<not> fc_done (co_heap (cc_co s) ! call)"
    "(key, call) \<in> set (cc_waiters s) \<Longrightarrow> (key, call) \<in> set (cc_winners s) \<or>
       fc_done (co_heap (cc_co s) ! call) \<and> (call, key, fc_succeeded (co_heap (cc_co s) ! call)) \<in> set (cc_reports s)"
    "(call, key, ok) \<in> set (cc_reports s) \<Longrightarrow> call < length (co_heap (cc_co s)) \<and> call \<notin> snd ` set (cc_winners s)"
    "(key, Some call) \<in> set (cc_own s) \<Longrightarrow> \<exists>ok. (call, key, ok) \<in> set (cc_reports s)"
  using assms unfolding coalesce_inv_def by (blast, blast, blast, blast, blast, blast, blast)

lemma win_inv:
  assumes i: "coalesce_inv s" and e: "enter key (cc_co s) = ((call, True), c)"
  shows "coalesce_inv (s\<lparr>cc_co := c, cc_winners := (key, call) # cc_winners s\<rparr>)"
proof -
  note inv = coalesce_invD [OF i]
  have none: "map_of (co_calls (cc_co s)) key = None" and call: "call = length (co_heap (cc_co s))"
    and c: "c = (cc_co s)\<lparr>co_heap := co_heap (cc_co s) @ [\<lparr>fc_done = False, fc_succeeded = False\<rparr>],
      co_calls := AList.update key call (co_calls (cc_co s))\<rparr>"
    using e by (auto simp: enter_def Let_def split: option.splits)
  have fresh: "key \<notin> fst ` set (cc_winners s)" using none inv(3) [of key] by force
  have old: "call' < length (co_heap (cc_co s))" if "(k, call') \<in> set (cc_winners s)" for k call' using inv(4) [OF that] by simp
  have "call \<notin> snd ` set (cc_winners s)" using old call by fastforce
  moreover have "\<forall>(k, w) \<in> set (cc_waiters s). (k, w) \<in> set ((key, call) # cc_winners s) \<or>
      fc_done (co_heap c ! w) \<and> (w, k, fc_succeeded (co_heap c ! w)) \<in> set (cc_reports s)"
    using inv(5,6) by (fastforce simp: c call nth_append)
  moreover have "\<forall>(w, k, ok) \<in> set (cc_reports s). w < length (co_heap c) \<and> w \<notin> snd ` set ((key, call) # cc_winners s)"
    using inv(6) by (fastforce simp: c call)
  moreover have "\<forall>(k, w) \<in> set ((key, call) # cc_winners s). w < length (co_heap c) \<and> \<not> fc_done (co_heap c ! w)"
    using inv(4) by (auto simp: c call nth_append)
  moreover have "\<forall>k w. map_of (co_calls c) k = Some w \<longleftrightarrow> (k, w) \<in> set ((key, call) # cc_winners s)"
    using inv(3) fresh by (auto simp: c image_iff)
  ultimately show ?thesis using inv(1,2,7) fresh by (simp add: coalesce_inv_def)
qed

lemma wait_inv:
  assumes i: "coalesce_inv s" and e: "enter key (cc_co s) = ((call, False), c)"
  shows "coalesce_inv (s\<lparr>cc_co := c, cc_waiters := (key, call) # cc_waiters s\<rparr>)"
proof -
  have "map_of (co_calls (cc_co s)) key = Some call" "c = cc_co s"
    using e by (auto simp: enter_def Let_def split: option.splits)
  with i coalesce_invD(3) [OF i] show ?thesis by (simp add: coalesce_inv_def)
qed

lemma finish_inv:
  assumes i: "coalesce_inv s" and w: "(key, call) \<in> set (cc_winners s)" and f: "finish key call ok (cc_co s) = Some c"
  shows "coalesce_inv (s\<lparr>cc_co := c, cc_winners := remove1 (key, call) (cc_winners s), cc_reports := (call, key, ok) # cc_reports s\<rparr>)"
proof -
  note inv = coalesce_invD [OF i]
  have m: "map_of (co_calls (cc_co s)) key = Some call" using inv(3) w by simp
  have call: "call < length (co_heap (cc_co s))" using inv(4) [OF w] by simp
  have c: "c = (cc_co s)\<lparr>co_calls := AList.delete key (co_calls (cc_co s)),
      co_heap := (co_heap (cc_co s))[call := \<lparr>fc_done = True, fc_succeeded = ok\<rparr>]\<rparr>"
    using f m by (auto simp: finish_def Let_def split: if_splits)
  have rest: "set (remove1 (key, call) (cc_winners s)) = {p \<in> set (cc_winners s). fst p \<noteq> key}"
    and rest': "set (remove1 (key, call) (cc_winners s)) = {p \<in> set (cc_winners s). snd p \<noteq> call}"
    using set_remove1_key [OF inv(1) w] set_remove1_key [OF inv(2) w] by simp_all
  have "distinct (map fst (remove1 (key, call) (cc_winners s)))" "distinct (map snd (remove1 (key, call) (cc_winners s)))"
    using inv(1,2) by (simp_all add: distinct_map_remove1)
  moreover have "\<forall>k w. map_of (co_calls c) k = Some w \<longleftrightarrow> (k, w) \<in> set (remove1 (key, call) (cc_winners s))"
    unfolding rest using inv(3) by (auto simp: c)
  moreover have "\<forall>(k, w) \<in> set (remove1 (key, call) (cc_winners s)). w < length (co_heap c) \<and> \<not> fc_done (co_heap c ! w)"
    unfolding rest' using inv(4) by (auto simp: c)
  moreover have "\<forall>(k, w) \<in> set (cc_waiters s). (k, w) \<in> set (remove1 (key, call) (cc_winners s)) \<or>
      fc_done (co_heap c ! w) \<and> (w, k, fc_succeeded (co_heap c ! w)) \<in> set ((call, key, ok) # cc_reports s)"
  proof clarify
    fix k v
    assume v: "(k, v) \<in> set (cc_waiters s)"
      and no: "\<not> (fc_done (co_heap c ! v) \<and> (v, k, fc_succeeded (co_heap c ! v)) \<in> set ((call, key, ok) # cc_reports s))"
    show "(k, v) \<in> set (remove1 (key, call) (cc_winners s))"
    proof (cases "(k, v) \<in> set (cc_winners s)")
      case True
      have "v \<noteq> call"
      proof
        assume "v = call"
        with True w inv(2) have "k = key" by (metis distinct_map inj_onD prod.inject snd_conv)
        with \<open>v = call\<close> no call show False by (simp add: c)
      qed
      with True show ?thesis by (simp add: rest')
    next
      case False
      with inv(5) [OF v] have dn: "fc_done (co_heap (cc_co s) ! v)"
        "(v, k, fc_succeeded (co_heap (cc_co s) ! v)) \<in> set (cc_reports s)" by simp_all
      have "v \<noteq> call" using inv(6) [OF dn(2)] w by force
      with no dn show ?thesis by (simp add: c)
    qed
  qed
  moreover have "\<forall>(v, k, b) \<in> set ((call, key, ok) # cc_reports s). v < length (co_heap c) \<and>
      v \<notin> snd ` set (remove1 (key, call) (cc_winners s))"
  proof (unfold rest', intro ballI, clarify)
    fix v k b
    assume "(v, k, b) \<in> set ((call, key, ok) # cc_reports s)"
    then have "v = call \<or> v < length (co_heap (cc_co s)) \<and> v \<notin> snd ` set (cc_winners s)" using inv(6) by auto
    then show "v < length (co_heap c) \<and> v \<notin> snd ` {p \<in> set (cc_winners s). snd p \<noteq> call}"
      using call by (auto simp: c)
  qed
  moreover have "\<forall>k v. (k, Some v) \<in> set (cc_own s) \<longrightarrow> (\<exists>b. (v, k, b) \<in> set ((call, key, ok) # cc_reports s))"
    using inv(7) by fastforce
  ultimately show ?thesis by (simp add: coalesce_inv_def)
qed

text \<open>A waiter that goes away, or goes on to fetch itself once its call is closed.\<close>

lemma leave_inv:
  assumes i: "coalesce_inv s"
    and own: "\<forall>key call. (key, Some call) \<in> set own \<longrightarrow> (key, Some call) \<in> set (cc_own s) \<or>
      (key, call) \<in> set (cc_waiters s) \<and> fc_done (co_heap (cc_co s) ! call)"
  shows "coalesce_inv (s\<lparr>cc_waiters := remove1 w (cc_waiters s), cc_own := own\<rparr>)"
proof -
  note inv = coalesce_invD [OF i]
  have "\<exists>ok. (call, key, ok) \<in> set (cc_reports s)" if "(key, Some call) \<in> set own" for key call
    using own that inv(4,5,7) by blast
  moreover have "set (remove1 w (cc_waiters s)) \<subseteq> set (cc_waiters s)" by (rule set_remove1_subset)
  ultimately show ?thesis using i unfolding coalesce_inv_def by auto
qed

lemma coalesce_step_inv: "coalesce_step s s' \<Longrightarrow> coalesce_inv s \<Longrightarrow> coalesce_inv s'"
proof (induction rule: coalesce_step.induct)
  case (Served key call s)
  then show ?case using leave_inv [of s "cc_own s" "(key, call)"] by simp
next
  case (Fall key call s cached)
  then show ?case by (auto intro!: leave_inv)
next
  case (Gone key call s)
  then show ?case using leave_inv [of s "cc_own s" "(key, call)"] by simp
next
  case (Over f s)
  then show ?case using set_remove1_subset [of f "cc_own s"] by (auto simp: coalesce_inv_def)
next
  case (Bypass rng meth s key)
  then show ?case by (simp add: coalesce_inv_def)
qed (auto intro: win_inv wait_inv finish_inv)

lemma coalesce_reachable_inv: "coalesce_step\<^sup>*\<^sup>* coalesce_start s \<Longrightarrow> coalesce_inv s"
proof (induction rule: rtranclp_induct)
  case base
  show ?case by (simp add: coalesce_inv_def coalesce_start_def newFetchCoalescer_def)
qed (rule coalesce_step_inv)

text \<open>C10: At every moment of every interleaving at most one winner per key is fetching from the origin;
  its \<open>finish\<close> does not panic; a coalesced request that enters now becomes the winner exactly when there
  is none; and a waiter that fetches for itself does so only after the winner it waited for has finished.\<close>

theorem coalesce_single_flight:
  assumes "coalesce_step\<^sup>*\<^sup>* coalesce_start s"
  shows "distinct (map fst (cc_winners s)) \<and>
    (\<forall>key call ok. (key, call) \<in> set (cc_winners s) \<longrightarrow> finish key call ok (cc_co s) \<noteq> None) \<and>
    (\<forall>key. snd (fst (enter key (cc_co s))) \<longleftrightarrow> key \<notin> fst ` set (cc_winners s)) \<and>
    (\<forall>key call. (key, Some call) \<in> set (cc_own s) \<longrightarrow>
       (\<exists>ok. (call, key, ok) \<in> set (cc_reports s)) \<and> call \<notin> snd ` set (cc_winners s))"
proof -
  have inv: "coalesce_inv s" using assms by (rule coalesce_reachable_inv)
  have "finish key call ok (cc_co s) \<noteq> None" if "(key, call) \<in> set (cc_winners s)" for key call ok
    using coalesce_invD(4) [OF inv that] by (auto simp: finish_def Let_def)
  moreover have "snd (fst (enter key (cc_co s))) \<longleftrightarrow> key \<notin> fst ` set (cc_winners s)" for key
    using coalesce_invD(3) [OF inv, of key] by (cases "map_of (co_calls (cc_co s)) key") (force simp: enter_def Let_def)+
  moreover have "(\<exists>ok. (call, key, ok) \<in> set (cc_reports s)) \<and> call \<notin> snd ` set (cc_winners s)" if "(key, Some call) \<in> set (cc_own s)" for key call
    using coalesce_invD(7) [OF inv that] coalesce_invD(6) [OF inv] by blast
  ultimately show ?thesis using coalesce_invD(1) [OF inv] by blast
qed

text \<open>C38: No waiter is left behind. The call a blocked request waits for is either closed, and then
  tells it exactly what the winner of its own key reported, or still owned by a winner of that key,
  whose \<open>finish\<close> closes it: in both cases at most one step later the waiter can go on.\<close>

theorem coalesce_waiter_progress:
  assumes "coalesce_step\<^sup>*\<^sup>* coalesce_start s" and "(key, call) \<in> set (cc_waiters s)"
  shows "(fc_done (co_heap (cc_co s) ! call) \<and> (call, key, fc_succeeded (co_heap (cc_co s) ! call)) \<in> set (cc_reports s)) \<or>
    (\<forall>ok. \<exists>c. finish key call ok (cc_co s) = Some c \<and> fc_done (co_heap c ! call) \<and> fc_succeeded (co_heap c ! call) = ok \<and>
       coalesce_step s (s\<lparr>cc_co := c, cc_winners := remove1 (key, call) (cc_winners s), cc_reports := (call, key, ok) # cc_reports s\<rparr>))"
proof -
  have inv: "coalesce_inv s" using assms(1) by (rule coalesce_reachable_inv)
  show ?thesis
  proof (cases "(key, call) \<in> set (cc_winners s)")
    case True
    have "\<exists>c. finish key call ok (cc_co s) = Some c \<and> fc_done (co_heap c ! call) \<and> fc_succeeded (co_heap c ! call) = ok" for ok
      using coalesce_invD(4) [OF inv True] by (simp add: finish_def Let_def)
    with coalesce_step.Finish [OF True] show ?thesis by meson
  next
    case False
    with coalesce_invD(5) [OF inv assms(2)] show ?thesis by blast
  qed
qed

text \<open>Two requests for one key.\<close>

definition two_requests :: coalesce_conf where
  "two_requests =
     (let c = snd (enter ''k'' newFetchCoalescer)
      in \<lparr>cc_co = c, cc_winners = [(''k'', 0)], cc_waiters = [(''k'', 0)], cc_own = [], cc_reports = []\<rparr>)"

lemma two_requests_reachable: "coalesce_step\<^sup>*\<^sup>* coalesce_start two_requests"
proof -
  let ?c = "snd (enter ''k'' newFetchCoalescer)"
  have "enter ''k'' (cc_co coalesce_start) = ((0, True), ?c)" by (simp add: coalesce_start_def enter_def newFetchCoalescer_def)
  then have "coalesce_step coalesce_start (coalesce_start\<lparr>cc_co := ?c, cc_winners := (''k'', 0) # cc_winners coalesce_start\<rparr>)"
    using coalesce_step.Win [of "[]" "''GET''"] by (simp add: coalescable_def)
  moreover have "enter ''k'' ?c = ((0, False), ?c)" by (simp add: enter_def newFetchCoalescer_def)
  then have "coalesce_step (coalesce_start\<lparr>cc_co := ?c, cc_winners := [(''k'', 0)]\<rparr>) two_requests"
    using coalesce_step.Wait [of "[]" "''GET''" "''k''" "coalesce_start\<lparr>cc_co := ?c, cc_winners := [(''k'', 0)]\<rparr>" 0 ?c]
    by (simp add: two_requests_def coalesce_start_def coalescable_def Let_def)
  ultimately show ?thesis by (simp add: coalesce_start_def converse_rtranclp_into_rtranclp)
qed

theorem coalesce_single_flight_witness: "\<not> snd (fst (enter ''k'' (cc_co two_requests)))"
proof -
  have "''k'' \<in> fst ` set (cc_winners two_requests)" by (simp add: two_requests_def)
  with coalesce_single_flight [OF two_requests_reachable] show ?thesis by blast
qed

theorem coalesce_waiter_progress_witness:
  "\<exists>c. finish ''k'' 0 True (cc_co two_requests) = Some c \<and> fc_done (co_heap c ! 0)"
proof -
  have "(''k'', 0) \<in> set (cc_waiters two_requests)" "\<not> fc_done (co_heap (cc_co two_requests) ! 0)"
    by (simp_all add: two_requests_def enter_def newFetchCoalescer_def Let_def)
  with coalesce_waiter_progress [OF two_requests_reachable] show ?thesis by blast
qed

subsection \<open>Background revalidations\<close>

text \<open>The in-flight set is a list without duplicates.\<close>

definition sf_begin :: "string \<Rightarrow> string list \<Rightarrow> bool \<times> string list" where
  "sf_begin key s = (if key \<in> set s then (False, s) else (True, key # s))"

definition sf_end :: "string \<Rightarrow> string list \<Rightarrow> string list" where
  "sf_end key s = filter (\<lambda>k. k \<noteq> key) s"

text \<open>The holders of slots: a revalidation runs between a successful \<open>begin\<close> and its \<open>end\<close>.\<close>

inductive flight_step :: "string list \<times> string list \<Rightarrow> string list \<times> string list \<Rightarrow> bool" where
  Begin: "sf_begin key s = (True, s') \<Longrightarrow> flight_step (s, H) (s', key # H)"
| Refused: "sf_begin key s = (False, s') \<Longrightarrow> flight_step (s, H) (s', H)"
| End: "key \<in> set H \<Longrightarrow> flight_step (s, H) (sf_end key s, remove1 key H)"

text \<open>At most one background revalidation per key is in flight, and the guard is not left set when
  it is over: a key can be begun exactly when nobody holds it.\<close>

theorem single_flight_exclusive:
  assumes "flight_step\<^sup>*\<^sup>* ([], []) (s, H)"
  shows "distinct H \<and> (\<forall>key. fst (sf_begin key s) \<longleftrightarrow> key \<notin> set H)"
proof -
  have "distinct H \<and> (\<forall>k. k \<in> set s \<longleftrightarrow> k \<in> set H)"
    using assms
  proof (induction rule: rtranclp_induct2)
    case (step s H s' H')
    from step(2) show ?case
    proof cases
      case (End key)
      with step(3) show ?thesis by (auto simp: sf_end_def)
    next
      case (Begin key)
      then have "key \<notin> set s" "s' = key # s" by (simp_all add: sf_begin_def split: if_splits)
      with step(3) Begin show ?thesis by simp
    next
      case (Refused key)
      then have "s' = s" by (simp add: sf_begin_def split: if_splits)
      with step(3) Refused show ?thesis by simp
    qed
  qed simp
  then show ?thesis by (simp add: sf_begin_def)
qed

theorem single_flight_exclusive_witness: "\<not> fst (sf_begin ''k'' [''k''])"
proof -
  have "flight_step ([], []) ([''k''], [''k''])" by (rule flight_step.Begin) (simp add: sf_begin_def)
  then have "flight_step\<^sup>*\<^sup>* ([], []) ([''k''], [''k''])" by simp
  from single_flight_exclusive [OF this] show ?thesis by simp
qed

end
