(* ===== verification/Ring.thy ===== *)
theory Ring
  imports GoNum
begin

text \<open>
  The consistent-hash ring, \<open>internal/lb/ring.go\<close>. The digest is a parameter: \<open>md5 s j\<close> is the \<open>j\<close>-th
  little-endian 32-bit word of the MD5 digest of \<open>s\<close>. A lookup returns the first eligible backend
  clockwise; taking a backend out of service moves only the keys it owned; removing it from the pool
  gives the same answers as skipping it.
\<close>

type_synonym digest = "string \<Rightarrow> nat \<Rightarrow> 32 word"

definition defaultReplicas :: int where "defaultReplicas = 160"

definition ringHash :: "digest \<Rightarrow> string \<Rightarrow> 32 word" where
  "ringHash md5 key = md5 key 0"

record ring =
  rg_replicas :: int
  rg_points :: "32 word list"
  rg_owner :: "32 word \<Rightarrow> string option"
  rg_ids :: "string list"

text \<open>The search for a free point runs forever when there is none.\<close>

partial_function (option) nudge :: "32 word \<Rightarrow> (32 word \<Rightarrow> string option) \<Rightarrow> 32 word option" where
  "nudge h owner = (if owner h = None then Some h else nudge (h + 1) owner)"

declare nudge.simps [code]

definition place :: "string \<Rightarrow> 32 word \<Rightarrow> ring \<Rightarrow> ring option" where
  "place bid h r =
     (case nudge h (rg_owner r) of
        None \<Rightarrow> None
      | Some h \<Rightarrow> Some (r\<lparr>rg_owner := (rg_owner r)(h \<mapsto> bid), rg_points := rg_points r @ [h]\<rparr>))"

primrec place_all :: "string \<Rightarrow> 32 word list \<Rightarrow> ring \<Rightarrow> ring option" where
  "place_all bid [] r = Some r"
| "place_all bid (h # hs) r = (case place bid h r of None \<Rightarrow> None | Some r \<Rightarrow> place_all bid hs r)"

text \<open>The points of one backend, in the order of the two inner loops.\<close>

definition id_hashes :: "digest \<Rightarrow> nat \<Rightarrow> string \<Rightarrow> 32 word list" where
  "id_hashes md5 rounds bid =
     concat (map (\<lambda>i. map (\<lambda>j. md5 (FormatInt (int i) @ ''-'' @ bid) j) [0..<4]) [0..<rounds])"

primrec ring_add :: "digest \<Rightarrow> nat \<Rightarrow> string list \<Rightarrow> ring \<Rightarrow> ring option" where
  "ring_add md5 rounds [] r = Some r"
| "ring_add md5 rounds (bid # ids) r =
     (if bid \<in> set (rg_ids r) then ring_add md5 rounds ids r
      else
        case place_all bid (id_hashes md5 rounds bid) (r\<lparr>rg_ids := rg_ids r @ [bid]\<rparr>) of
          None \<Rightarrow> None
        | Some r \<Rightarrow> ring_add md5 rounds ids r)"

definition newRing :: "digest \<Rightarrow> int \<Rightarrow> string list \<Rightarrow> ring option" where
  "newRing md5 replicas ids =
     (let replicas = (if replicas \<le> 0 then defaultReplicas else replicas);
          rounds = (replicas + 3) div 4
      in case ring_add md5 (nat rounds) ids
                \<lparr>rg_replicas = rounds * 4, rg_points = [], rg_owner = Map.empty, rg_ids = []\<rparr> of
           None \<Rightarrow> None
         | Some r \<Rightarrow> Some (r\<lparr>rg_points := sort (rg_points r)\<rparr>))"

definition ring_len :: "ring \<Rightarrow> nat" where
  "ring_len r = length (rg_ids r)"

text \<open>\<open>sort.Search\<close>: binary search for the least index that satisfies a monotone predicate.\<close>

function search_loop :: "(nat \<Rightarrow> bool) \<Rightarrow> nat \<Rightarrow> nat \<Rightarrow> nat" where
  "search_loop f i j =
     (if i < j then let m = (i + j) div 2 in if \<not> f m then search_loop f (m + 1) j else search_loop f i m else i)"
  by pat_completeness auto
termination by (relation "measure (\<lambda>(f, i, j). j - i)") auto

declare search_loop.simps [simp del]

definition sort_Search :: "nat \<Rightarrow> (nat \<Rightarrow> bool) \<Rightarrow> nat" where
  "sort_Search n f = search_loop f 0 n"

text \<open>The walk: \<open>i\<close> points looked at, \<open>seen\<close> the backends considered so far.\<close>

function ring_walk :: "ring \<Rightarrow> (string \<Rightarrow> bool) \<Rightarrow> nat \<Rightarrow> nat \<Rightarrow> string list \<Rightarrow> string option" where
  "ring_walk r eligible idx i seen =
     (let n = length (rg_points r) in
      if i < n \<and> length seen < length (rg_ids r) then
        let bid = (case rg_owner r (rg_points r ! ((idx + i) mod n)) of Some bid \<Rightarrow> bid | None \<Rightarrow> []) in
        if bid \<in> set seen then ring_walk r eligible idx (i + 1) seen
        else if eligible bid then Some bid
        else ring_walk r eligible idx (i + 1) (seen @ [bid])
      else None)"
  by pat_completeness auto
termination by (relation "measure (\<lambda>(r, e, idx, i, seen). length (rg_points r) - i)") auto

declare ring_walk.simps [simp del]

definition ring_lookup :: "digest \<Rightarrow> string \<Rightarrow> (string \<Rightarrow> bool) option \<Rightarrow> ring \<Rightarrow> string option" where
  "ring_lookup md5 key eligible r =
     (if rg_points r = [] then None
      else
        let h = ringHash md5 key;
            idx = sort_Search (length (rg_points r)) (\<lambda>i. rg_points r ! i \<ge> h);
            idx = (if idx = length (rg_points r) then 0 else idx)
        in ring_walk r (case eligible of None \<Rightarrow> \<lambda>_. True | Some e \<Rightarrow> e) idx 0 [])"

subsection \<open>Binary search\<close>

lemma search_loop_spec:
  assumes "i \<le> j" and "\<And>a b. a \<le> b \<Longrightarrow> b < j \<Longrightarrow> f a \<Longrightarrow> f b"
  shows "i \<le> search_loop f i j \<and> search_loop f i j \<le> j \<and> (\<forall>k. i \<le> k \<and> k < search_loop f i j \<longrightarrow> \<not> f k) \<and>
    (search_loop f i j < j \<longrightarrow> f (search_loop f i j))"
  using assms
proof (induction f i j rule: search_loop.induct)
  case (1 f i j)
  let ?m = "(i + j) div 2"
  show ?case
  proof (cases "i < j")
    case False
    then have "search_loop f i j = i" by (simp add: search_loop.simps [of f i j])
    with False 1(3) show ?thesis by auto
  next
    case True
    then have m: "i \<le> ?m" "?m < j" by auto
    show ?thesis
    proof (cases "f ?m")
      case False
      define s where "s = search_loop f (?m + 1) j"
      have eq: "search_loop f i j = s" using True False by (simp add: search_loop.simps [of f i j] Let_def s_def)
      have low: "\<not> f k" if "k \<le> ?m" for k using 1(4) [OF that m(2)] False by blast
      have ih: "?m + 1 \<le> s" "s \<le> j" "\<forall>k. ?m + 1 \<le> k \<and> k < s \<longrightarrow> \<not> f k" "s < j \<longrightarrow> f s"
        using 1(1) [OF True refl False _ 1(4)] m by (simp_all add: s_def)
      have "\<not> f k" if "k < s" for k using low [of k] ih(3) that by (cases "k \<le> ?m") auto
      with ih m show ?thesis unfolding eq by auto
    next
      case f: True
      define s where "s = search_loop f i ?m"
      have eq: "search_loop f i j = s" using True f by (simp add: search_loop.simps [of f i j] Let_def s_def)
      have mono: "f b" if "a \<le> b" "b < ?m" "f a" for a b using 1(4) [OF that(1) _ that(3)] that(2) m(2) by simp
      have ih: "i \<le> s" "s \<le> ?m" "\<forall>k. i \<le> k \<and> k < s \<longrightarrow> \<not> f k" "s < ?m \<longrightarrow> f s"
        using 1(2) [OF True refl _ m(1) mono] f by (simp_all add: s_def)
      have "f s" using ih(2,4) f by (cases "s = ?m") auto
      with ih m show ?thesis unfolding eq by auto
    qed
  qed
qed

lemma sort_Search_sorted:
  fixes xs :: "32 word list"
  assumes "sorted xs" and "k = sort_Search (length xs) (\<lambda>i. xs ! i \<ge> h)"
  shows "k \<le> length xs" and "drop k xs = filter (\<lambda>x. h \<le> x) xs" and "take k xs = filter (\<lambda>x. x < h) xs"
proof -
  have s: "k \<le> length xs" "\<forall>a < k. \<not> h \<le> xs ! a" "k < length xs \<longrightarrow> h \<le> xs ! k"
    using search_loop_spec [of 0 "length xs" "\<lambda>i. xs ! i \<ge> h"] assms sorted_nth_mono [OF assms(1)]
    by (auto simp: sort_Search_def intro: order_trans)
  have hi: "h \<le> x" if "x \<in> set (drop k xs)" for x
  proof -
    from that obtain a where a: "a < length xs - k" "x = xs ! (k + a)" by (auto simp: in_set_conv_nth)
    then have "xs ! k \<le> x" using sorted_nth_mono [OF assms(1), of k "k + a"] by simp
    with s(3) a(1) show ?thesis by force
  qed
  have lo: "x < h" if "x \<in> set (take k xs)" for x
    using that s(1,2) by (auto simp: in_set_conv_nth)
  have "filter (\<lambda>x. h \<le> x) (take k xs) = []" "filter (\<lambda>x. x < h) (take k xs) = take k xs"
    using lo leD by (fastforce simp: filter_empty_conv filter_id_conv)+
  moreover have "filter (\<lambda>x. h \<le> x) (drop k xs) = drop k xs" "filter (\<lambda>x. x < h) (drop k xs) = []"
    using hi leD by (fastforce simp: filter_empty_conv filter_id_conv)+
  ultimately have f: "filter (\<lambda>x. h \<le> x) (take k xs @ drop k xs) = drop k xs" "filter (\<lambda>x. x < h) (take k xs @ drop k xs) = take k xs"
    unfolding filter_append by simp_all
  then show "drop k xs = filter (\<lambda>x. h \<le> x) xs" "take k xs = filter (\<lambda>x. x < h) xs" by simp_all
  show "k \<le> length xs" by (rule s(1))
qed

subsection \<open>The walk\<close>

definition ring_ok :: "ring \<Rightarrow> bool" where
  "ring_ok r \<longleftrightarrow> distinct (rg_ids r) \<and> sorted (rg_points r) \<and>
     (\<forall>p \<in> set (rg_points r). \<exists>bid \<in> set (rg_ids r). rg_owner r p = Some bid)"

definition own :: "ring \<Rightarrow> 32 word \<Rightarrow> string" where
  "own r p = (case rg_owner r p of Some bid \<Rightarrow> bid | None \<Rightarrow> [])"

lemma own_in_ids: "ring_ok r \<Longrightarrow> p \<in> set (rg_points r) \<Longrightarrow> own r p \<in> set (rg_ids r)"
  by (force simp: ring_ok_def own_def)

lemma ring_walk_find:
  assumes r: "ring_ok r"
  shows "distinct seen \<Longrightarrow> set seen \<subseteq> set (rg_ids r) \<Longrightarrow> \<forall>x \<in> set seen. \<not> e x \<Longrightarrow>
    ring_walk r e idx i seen = find e (map (\<lambda>k. own r (rg_points r ! ((idx + k) mod length (rg_points r)))) [i..<length (rg_points r)])"
proof (induction "length (rg_points r) - i" arbitrary: i seen)
  case 0
  then show ?case by (simp add: ring_walk.simps [of r e idx i seen] Let_def)
next
  case (Suc d)
  let ?n = "length (rg_points r)" and ?bid = "\<lambda>k. own r (rg_points r ! ((idx + k) mod length (rg_points r)))"
  from Suc(2) have i: "i < ?n" "d = ?n - (i + 1)" by simp_all
  have mem: "?bid k \<in> set (rg_ids r)" for k using i(1) by (intro own_in_ids [OF r] nth_mem mod_less_divisor) auto
  have upt: "[i..<?n] = i # [i + 1..<?n]" using i(1) by (simp add: upt_conv_Cons)
  show ?case
  proof (cases "length seen < length (rg_ids r)")
    case False
    have "set seen = set (rg_ids r)"
    proof (rule card_subset_eq)
      show "card (set seen) = card (set (rg_ids r))"
        using False card_mono [OF _ Suc.prems(2)] Suc.prems(1) r by (simp add: distinct_card ring_ok_def)
    qed (use Suc.prems in simp_all)
    with mem Suc.prems(3) have "find e (map ?bid [i..<?n]) = None" by (auto simp: find_None_iff)
    moreover have "ring_walk r e idx i seen = None" using False by (simp add: ring_walk.simps [of r e idx i seen] Let_def)
    ultimately show ?thesis by simp
  next
    case True
    have step: "ring_walk r e idx i seen =
        (if ?bid i \<in> set seen then ring_walk r e idx (i + 1) seen
         else if e (?bid i) then Some (?bid i) else ring_walk r e idx (i + 1) (seen @ [?bid i]))"
      using i(1) True by (simp add: ring_walk.simps [of r e idx i seen] Let_def own_def)
    show ?thesis
    proof (cases "e (?bid i)")
      case True
      with Suc.prems(3) step show ?thesis unfolding upt by auto
    next
      case False
      have "ring_walk r e idx i seen = find e (map ?bid [i + 1..<?n])"
        using step False Suc.hyps(1) [OF i(2), of seen] Suc.hyps(1) [OF i(2), of "seen @ [?bid i]"] Suc.prems mem [of i] by auto
      with False show ?thesis unfolding upt by simp
    qed
  qed
qed

text \<open>The order in which a lookup meets the points: clockwise from the key's hash.\<close>

definition clockwise :: "ring \<Rightarrow> 32 word \<Rightarrow> 32 word list" where
  "clockwise r h = filter (\<lambda>p. h \<le> p) (rg_points r) @ filter (\<lambda>p. p < h) (rg_points r)"

lemma rotate_list: "k < length xs \<Longrightarrow> map (\<lambda>i. xs ! ((k + i) mod length xs)) [0..<length xs] = drop k xs @ take k xs"
proof -
  assume k: "k < length xs"
  then have "drop k xs @ take k xs = rotate k xs" by (simp add: rotate_drop_take)
  also have "\<dots> = map (\<lambda>i. xs ! ((k + i) mod length xs)) [0..<length xs]"
    by (intro nth_equalityI) (simp_all add: nth_rotate)
  finally show ?thesis ..
qed

lemma ring_lookup_find:
  assumes "ring_ok r"
  shows "ring_lookup md5 key e r =
    find (case e of None \<Rightarrow> \<lambda>_. True | Some e \<Rightarrow> e) (map (own r) (clockwise r (ringHash md5 key)))"
proof (cases "rg_points r = []")
  case True
  then show ?thesis by (simp add: ring_lookup_def clockwise_def)
next
  case False
  let ?n = "length (rg_points r)" and ?h = "ringHash md5 key" and ?e = "case e of None \<Rightarrow> \<lambda>_. True | Some e \<Rightarrow> e"
  define k where "k = sort_Search ?n (\<lambda>i. rg_points r ! i \<ge> ?h)"
  define idx where "idx = (if k = ?n then 0 else k)"
  have "sorted (rg_points r)" using assms by (simp add: ring_ok_def)
  note s = sort_Search_sorted [OF this k_def]
  have idx: "idx < ?n" using s(1) False by (auto simp: idx_def)
  have "ring_lookup md5 key e r = ring_walk r ?e idx 0 []"
    using False by (simp add: ring_lookup_def Let_def k_def idx_def)
  also have "\<dots> = find ?e (map (\<lambda>i. own r (rg_points r ! ((idx + i) mod ?n))) [0..<?n])"
    by (rule ring_walk_find [OF assms]) simp_all
  also have "map (\<lambda>i. own r (rg_points r ! ((idx + i) mod ?n))) [0..<?n] = map (own r) (drop idx (rg_points r) @ take idx (rg_points r))"
    unfolding rotate_list [OF idx, symmetric] by simp
  also have "drop idx (rg_points r) @ take idx (rg_points r) = clockwise r ?h"
    unfolding clockwise_def s(2,3) [symmetric] by (auto simp: idx_def)
  finally show ?thesis .
qed

subsection \<open>Building\<close>

lemma nudge_free: "nudge h ow = Some h' \<Longrightarrow> ow h' = None"
proof (induction rule: nudge.raw_induct [rotated 1, consumes 1])
  case (1 f h ow h')
  then show ?case by (cases "ow h = None") auto
qed

lemma nudge_self: "ow h = None \<Longrightarrow> nudge h ow = Some h"
  by (subst nudge.simps) simp

lemma nudge_reaches: "ow (h + of_nat k) = None \<Longrightarrow> nudge h ow \<noteq> None"
proof (induction k arbitrary: h)
  case 0
  then show ?case by (simp add: nudge_self)
next
  case (Suc k)
  then have "nudge (h + 1) ow \<noteq> None" by (intro Suc.IH) (simp add: algebra_simps)
  then show ?case by (subst nudge.simps) simp
qed

lemma nudge_total:
  assumes "card (dom ow) < 2 ^ 32"
  shows "nudge h ow \<noteq> None"
proof -
  have "dom ow \<noteq> UNIV" using assms by (auto simp: card_word)
  then obtain p where "ow p = None" by auto
  then have "ow (h + of_nat (unat (p - h))) = None" by simp
  then show ?thesis by (rule nudge_reaches)
qed

definition owned :: "ring \<Rightarrow> string \<Rightarrow> nat" where
  "owned r bid = length (filter (\<lambda>p. rg_owner r p = Some bid) (rg_points r))"

definition build_ok :: "ring \<Rightarrow> bool" where
  "build_ok r \<longleftrightarrow> distinct (rg_ids r) \<and> distinct (rg_points r) \<and> dom (rg_owner r) = set (rg_points r) \<and>
     ran (rg_owner r) \<subseteq> set (rg_ids r)"

lemma place_result:
  assumes "place bid h r = Some r'" and "build_ok r" and "bid \<in> set (rg_ids r)"
  shows "build_ok r'" "rg_ids r' = rg_ids r" "length (rg_points r') = length (rg_points r) + 1"
    "owned r' b = owned r b + (if b = bid then 1 else 0)"
proof -
  obtain h' where h': "nudge h (rg_owner r) = Some h'" and r': "r' = r\<lparr>rg_owner := (rg_owner r)(h' \<mapsto> bid), rg_points := rg_points r @ [h']\<rparr>"
    using assms(1) by (auto simp: place_def split: option.splits)
  have free: "h' \<notin> set (rg_points r)" using nudge_free [OF h'] assms(2) by (auto simp: build_ok_def)
  show "build_ok r'" using assms(2,3) free by (auto simp: build_ok_def r' ran_def)
  show "rg_ids r' = rg_ids r" "length (rg_points r') = length (rg_points r) + 1" by (simp_all add: r')
  have "filter (\<lambda>p. ((rg_owner r)(h' \<mapsto> bid)) p = Some b) (rg_points r) = filter (\<lambda>p. rg_owner r p = Some b) (rg_points r)"
    using free by (intro filter_cong) auto
  then show "owned r' b = owned r b + (if b = bid then 1 else 0)" by (simp add: owned_def r')
qed

lemma place_total: "build_ok r \<Longrightarrow> length (rg_points r) < 2 ^ 32 \<Longrightarrow> place bid h r \<noteq> None"
  using nudge_total [of "rg_owner r" h] distinct_card [of "rg_points r"] by (auto simp: place_def build_ok_def)

lemma place_all_result:
  assumes "build_ok r" and "bid \<in> set (rg_ids r)" and "length (rg_points r) + length hs \<le> 2 ^ 32"
  shows "\<exists>r'. place_all bid hs r = Some r' \<and> build_ok r' \<and> rg_ids r' = rg_ids r \<and>
    length (rg_points r') = length (rg_points r) + length hs \<and> (\<forall>b. owned r' b = owned r b + (if b = bid then length hs else 0))"
  using assms
proof (induction hs arbitrary: r)
  case (Cons h hs)
  obtain r1 where r1: "place bid h r = Some r1" using place_total [of r bid h] Cons.prems by auto
  note pr = place_result [OF r1 Cons.prems(1,2)]
  from Cons.IH [of r1] pr Cons.prems obtain r' where "place_all bid hs r1 = Some r'" "build_ok r'" "rg_ids r' = rg_ids r1"
    "length (rg_points r') = length (rg_points r1) + length hs" "\<forall>b. owned r' b = owned r1 b + (if b = bid then length hs else 0)"
    by auto
  with r1 pr show ?case by auto
qed simp

lemma id_hashes_length [simp]: "length (id_hashes md5 rounds bid) = 4 * rounds"
  by (simp add: id_hashes_def length_concat comp_def sum_list_triv)

lemma owned_new: "build_ok r \<Longrightarrow> bid \<notin> set (rg_ids r) \<Longrightarrow> owned r bid = 0"
  by (auto simp: owned_def build_ok_def filter_empty_conv ran_def)

lemma ring_add_result:
  assumes "build_ok r" and "\<forall>b \<in> set (rg_ids r). owned r b = 4 * n"
    and "length (rg_points r) + 4 * n * card (set ids - set (rg_ids r)) \<le> 2 ^ 32"
  shows "\<exists>r'. ring_add md5 n ids r = Some r' \<and> build_ok r' \<and> set (rg_ids r') = set (rg_ids r) \<union> set ids \<and>
    (\<forall>b \<in> set (rg_ids r'). owned r' b = 4 * n)"
  using assms
proof (induction ids arbitrary: r)
  case (Cons b ids)
  show ?case
  proof (cases "b \<in> set (rg_ids r)")
    case True
    then have "set (b # ids) - set (rg_ids r) = set ids - set (rg_ids r)" by auto
    with True Cons show ?thesis by (auto simp: insert_absorb)
  next
    case False
    let ?r = "r\<lparr>rg_ids := rg_ids r @ [b]\<rparr>" and ?hs = "id_hashes md5 n b"
    have card: "card (set (b # ids) - set (rg_ids r)) = Suc (card (set ids - set (rg_ids ?r)))"
    proof -
      have "set (b # ids) - set (rg_ids r) = insert b (set ids - set (rg_ids ?r))" using False by auto
      then show ?thesis by simp
    qed
    have ok: "build_ok ?r" using Cons.prems(1) False by (auto simp: build_ok_def)
    have own: "owned ?r x = owned r x" for x by (simp add: owned_def)
    have room: "length (rg_points ?r) + length ?hs \<le> 2 ^ 32" using Cons.prems(3) card by simp
    obtain r1 where r1: "place_all b ?hs ?r = Some r1" "build_ok r1" "rg_ids r1 = rg_ids ?r"
      "length (rg_points r1) = length (rg_points r) + 4 * n" "\<forall>x. owned r1 x = owned r x + (if x = b then 4 * n else 0)"
      using place_all_result [where bid = b, OF ok _ room] own by auto
    have "\<forall>x \<in> set (rg_ids r1). owned r1 x = 4 * n"
      using r1(3,5) Cons.prems(1,2) False owned_new [OF Cons.prems(1) False] by auto
    moreover have "length (rg_points r1) + 4 * n * card (set ids - set (rg_ids r1)) \<le> 2 ^ 32"
      using r1(3,4) Cons.prems(3) card by (simp add: algebra_simps)
    ultimately show ?thesis using Cons.IH [OF r1(2)] r1(1,3) False by auto
  qed
qed simp

lemma newRing_result:
  assumes "0 < replicas" and "4 * ((replicas + 3) div 4) * int (card (set ids)) \<le> 2 ^ 32"
  shows "\<exists>r. newRing md5 replicas ids = Some r \<and> ring_ok r \<and> set (rg_ids r) = set ids \<and> distinct (rg_ids r) \<and>
    (\<forall>b \<in> set ids. int (owned r b) = 4 * ((replicas + 3) div 4))"
proof -
  define n where "n = nat ((replicas + 3) div 4)"
  have n: "int n = (replicas + 3) div 4" using assms(1) by (simp add: n_def)
  let ?r0 = "\<lparr>rg_replicas = (replicas + 3) div 4 * 4, rg_points = [], rg_owner = Map.empty, rg_ids = []\<rparr>"
  have "int (4 * n * card (set ids)) \<le> int (2 ^ 32)" using assms(2) n by simp
  then have "4 * n * card (set ids) \<le> 2 ^ 32" unfolding of_nat_le_iff .
  then obtain r where r: "ring_add md5 n ids ?r0 = Some r" "build_ok r" "set (rg_ids r) = set ids" "\<forall>b \<in> set (rg_ids r). owned r b = 4 * n"
    using ring_add_result [of ?r0 n ids md5] by (auto simp: build_ok_def)
  let ?r = "r\<lparr>rg_points := sort (rg_points r)\<rparr>"
  have new: "newRing md5 replicas ids = Some ?r" using assms(1) r(1) by (simp add: newRing_def Let_def n_def)
  have "owned ?r b = owned r b" for b by (simp add: owned_def filter_sort)
  moreover have "ring_ok ?r" using r(2) by (auto simp: ring_ok_def build_ok_def ran_def dom_def)
  ultimately have "ring_ok ?r \<and> set (rg_ids ?r) = set ids \<and> distinct (rg_ids ?r) \<and>
      (\<forall>b \<in> set ids. int (owned ?r b) = 4 * ((replicas + 3) div 4))"
    using r(2,3,4) n by (auto simp: build_ok_def)
  with new show ?thesis by blast
qed

text \<open>C23: Building a ring returns whenever the virtual nodes fit the 32-bit space. The ring holds every
  backend once, its points are sorted, and, collisions or not, every backend owns exactly the same
  number of points, the replica count rounded up to a multiple of four.\<close>

theorem newRing_balanced:
  assumes "0 < replicas" and "4 * ((replicas + 3) div 4) * int (card (set ids)) \<le> 2 ^ 32"
  shows "\<exists>r. newRing md5 replicas ids = Some r \<and> ring_ok r \<and> set (rg_ids r) = set ids \<and> distinct (rg_ids r) \<and>
    (\<forall>b \<in> set ids. int (owned r b) = 4 * ((replicas + 3) div 4))"
  using assms by (rule newRing_result)

theorem newRing_balanced_witness:
  "\<exists>r. newRing (\<lambda>s j. of_nat (length s) + of_nat j) 8 [''a'', ''b'', ''a''] = Some r \<and> owned r ''a'' = 8 \<and> owned r ''b'' = 8"
proof -
  have "card (set [''a'', ''b'', ''a'']) = 2" by (simp add: card_insert_if)
  then show ?thesis using newRing_balanced [of 8 "[''a'', ''b'', ''a'']" "\<lambda>s j. of_nat (length s) + of_nat j"] by auto
qed

subsection \<open>Stability\<close>

lemma find_stable: "find P xs = Some x \<Longrightarrow> \<forall>y. Q y \<longrightarrow> P y \<Longrightarrow> Q x \<Longrightarrow> find Q xs = Some x"
  by (induction xs) (auto split: if_splits)

text \<open>Taking backends out of service moves only their own keys. When the backends eligible for a
  request shrink, a key whose backend is still eligible keeps it, and any other key goes to the next
  eligible backend clockwise; when none is left the lookup fails.\<close>

theorem ring_failover_stable:
  assumes "ring_ok r" and "\<forall>b. e' b \<longrightarrow> e b" and "ring_lookup md5 key (Some e) r = Some x"
  shows "(e' x \<longrightarrow> ring_lookup md5 key (Some e') r = Some x) \<and>
    ring_lookup md5 key (Some e') r =
      find e' (dropWhile (\<lambda>b. b \<noteq> x) (map (own r) (clockwise r (ringHash md5 key)))) \<and>
    (ring_lookup md5 key (Some e') r = None \<longleftrightarrow> (\<forall>p \<in> set (rg_points r). \<not> e' (own r p)))"
proof -
  let ?L = "map (own r) (clockwise r (ringHash md5 key))"
  have L: "ring_lookup md5 key (Some g) r = find g ?L" for g using ring_lookup_find [OF assms(1)] by simp
  have first: "find g xs = find g (dropWhile (\<lambda>b. b \<noteq> x) xs)" if "find e xs = Some x" "\<forall>b. g b \<longrightarrow> e b" for g xs
    using that by (induction xs) (auto split: if_splits)
  have "set (clockwise r h) = set (rg_points r)" for h by (auto simp: clockwise_def)
  then have "find e' ?L = None \<longleftrightarrow> (\<forall>p \<in> set (rg_points r). \<not> e' (own r p))" by (auto simp: find_None_iff)
  with assms(2,3) find_stable [of e ?L x e'] first [of ?L e'] show ?thesis unfolding L by blast
qed

definition tiny_ring :: ring where
  "tiny_ring = \<lparr>rg_replicas = 4, rg_points = [10, 20, 30], rg_owner = [10 \<mapsto> ''a'', 20 \<mapsto> ''b'', 30 \<mapsto> ''a''], rg_ids = [''a'', ''b'']\<rparr>"

lemma tiny_ring_ok: "ring_ok tiny_ring"
  by (simp add: ring_ok_def tiny_ring_def)

lemma tiny_lookup: "ring_lookup (\<lambda>s j. 15) key (Some e) tiny_ring = find e [''b'', ''a'', ''a'']"
  unfolding ring_lookup_find [OF tiny_ring_ok] by (simp add: clockwise_def ringHash_def tiny_ring_def own_def)

theorem ring_failover_stable_witness:
  "ring_lookup (\<lambda>s j. 15) ''k'' (Some (\<lambda>b. b \<noteq> ''a'')) tiny_ring = Some ''b'' \<and>
   ring_lookup (\<lambda>s j. 15) ''k'' (Some (\<lambda>b. b \<noteq> ''b'')) tiny_ring = Some ''a''"
proof -
  have all: "ring_lookup (\<lambda>s j. 15) ''k'' (Some (\<lambda>_. True)) tiny_ring = Some ''b''" by (simp add: tiny_lookup)
  from ring_failover_stable [OF tiny_ring_ok _ all, of "\<lambda>b. b \<noteq> ''a''"]
    ring_failover_stable [OF tiny_ring_ok _ all, of "\<lambda>b. b \<noteq> ''b''"]
  show ?thesis by (simp add: clockwise_def ringHash_def tiny_ring_def own_def)
qed

subsection \<open>Membership\<close>

lemma place_all_fresh:
  assumes "distinct hs" and "\<forall>h \<in> set hs. rg_owner r h = None"
  shows "place_all bid hs r =
    Some (r\<lparr>rg_owner := \<lambda>p. if p \<in> set hs then Some bid else rg_owner r p, rg_points := rg_points r @ hs\<rparr>)"
  using assms
proof (induction hs arbitrary: r)
  case (Cons h hs)
  let ?r = "r\<lparr>rg_owner := (rg_owner r)(h \<mapsto> bid), rg_points := rg_points r @ [h]\<rparr>"
  have "place bid h r = Some ?r" using Cons.prems by (simp add: place_def nudge_self)
  moreover have "place_all bid hs ?r =
      Some (?r\<lparr>rg_owner := \<lambda>p. if p \<in> set hs then Some bid else rg_owner ?r p, rg_points := rg_points ?r @ hs\<rparr>)"
    using Cons.prems by (intro Cons.IH) auto
  moreover have "(\<lambda>p. if p \<in> set hs then Some bid else rg_owner ?r p) = (\<lambda>p. if p \<in> set (h # hs) then Some bid else rg_owner r p)"
    by auto
  ultimately show ?case by simp
qed simp

text \<open>The backend of a point when no two virtual nodes collide.\<close>

definition point_owner :: "digest \<Rightarrow> nat \<Rightarrow> string list \<Rightarrow> 32 word \<Rightarrow> string option" where
  "point_owner md5 n ids p = find (\<lambda>b. p \<in> set (id_hashes md5 n b)) ids"

lemma ring_add_fresh:
  assumes "distinct (rg_ids r @ ids)" and "distinct (concat (map (id_hashes md5 n) ids))"
    and "\<forall>b \<in> set ids. \<forall>h \<in> set (id_hashes md5 n b). rg_owner r h = None"
  shows "ring_add md5 n ids r =
    Some (r\<lparr>rg_ids := rg_ids r @ ids, rg_points := rg_points r @ concat (map (id_hashes md5 n) ids),
      rg_owner := \<lambda>p. case point_owner md5 n ids p of Some b \<Rightarrow> Some b | None \<Rightarrow> rg_owner r p\<rparr>)"
  using assms
proof (induction ids arbitrary: r)
  case (Cons b ids)
  let ?hs = "id_hashes md5 n b"
  let ?r = "r\<lparr>rg_ids := rg_ids r @ [b], rg_owner := \<lambda>p. if p \<in> set ?hs then Some b else rg_owner r p, rg_points := rg_points r @ ?hs\<rparr>"
  have "place_all b ?hs (r\<lparr>rg_ids := rg_ids r @ [b]\<rparr>) = Some ?r"
    using place_all_fresh [of ?hs "r\<lparr>rg_ids := rg_ids r @ [b]\<rparr>" b] Cons.prems by (simp cong: if_cong)
  moreover have "ring_add md5 n ids ?r =
    Some (?r\<lparr>rg_ids := rg_ids ?r @ ids, rg_points := rg_points ?r @ concat (map (id_hashes md5 n) ids),
      rg_owner := \<lambda>p. case point_owner md5 n ids p of Some b \<Rightarrow> Some b | None \<Rightarrow> rg_owner ?r p\<rparr>)"
    using Cons.prems by (intro Cons.IH) auto
  moreover have "point_owner md5 n ids p = None" if "p \<in> set ?hs" for p
    using that Cons.prems(2) by (auto simp: point_owner_def find_None_iff)
  then have "(\<lambda>p. case point_owner md5 n ids p of Some b \<Rightarrow> Some b | None \<Rightarrow> if p \<in> set ?hs then Some b else rg_owner r p) =
      (\<lambda>p. case point_owner md5 n (b # ids) p of Some b \<Rightarrow> Some b | None \<Rightarrow> rg_owner r p)"
    by (auto simp: fun_eq_iff point_owner_def split: option.split)
  ultimately show ?case using Cons.prems(1) by (simp cong: option.case_cong)
qed (simp add: point_owner_def)

lemma newRing_fresh:
  assumes "distinct ids" and "distinct (concat (map (id_hashes md5 (nat ((replicas + 3) div 4))) ids))" and "0 < replicas"
  shows "\<exists>r. newRing md5 replicas ids = Some r \<and> rg_ids r = ids \<and>
    rg_points r = sort (concat (map (id_hashes md5 (nat ((replicas + 3) div 4))) ids)) \<and>
    rg_owner r = point_owner md5 (nat ((replicas + 3) div 4)) ids"
proof -
  let ?n = "nat ((replicas + 3) div 4)"
  have "(\<lambda>p. case point_owner md5 ?n ids p of Some b \<Rightarrow> Some b | None \<Rightarrow> None) = point_owner md5 ?n ids"
    by (auto simp: fun_eq_iff split: option.split)
  then show ?thesis
    using assms by (simp add: newRing_def Let_def ring_add_fresh cong: option.case_cong)
qed

text \<open>C24: Changing the membership moves only the keys of the changed backend. When no two virtual nodes
  collide, removing a backend leaves every key that it did not own with its backend; read the other
  way round, adding a backend only takes keys over, it never moves a key between two old ones.\<close>

theorem ring_membership_minimal:
  assumes "distinct ids" and "distinct (concat (map (id_hashes md5 (nat ((replicas + 3) div 4))) ids))" and "0 < replicas"
    and "newRing md5 replicas ids = Some r" and "newRing md5 replicas (filter (\<lambda>b. b \<noteq> d) ids) = Some r'"
    and "ring_lookup md5 key None r = Some x" and "x \<noteq> d"
  shows "ring_lookup md5 key None r' = Some x"
proof -
  let ?n = "nat ((replicas + 3) div 4)" and ?ids = "filter (\<lambda>b. b \<noteq> d) ids" and ?h = "ringHash md5 key"
  let ?H = "id_hashes md5 ?n"
  have sub: "distinct (concat (map ?H (filter P xs)))" if "distinct (concat (map ?H xs))" for P xs
    using that by (induction xs) auto
  have r: "rg_points r = sort (concat (map ?H ids))" "rg_owner r = point_owner md5 ?n ids" "rg_ids r = ids"
    using newRing_fresh [OF assms(1-3)] assms(4) by auto
  have r': "rg_points r' = sort (concat (map ?H ?ids))" "rg_owner r' = point_owner md5 ?n ?ids" "rg_ids r' = ?ids"
    using newRing_fresh [of ?ids md5 replicas] assms(1,3,5) sub [OF assms(2), of "\<lambda>b. b \<noteq> d"] by auto
  have uniq: "b = c" if "b \<in> set xs" "c \<in> set xs" "p \<in> set (?H b)" "p \<in> set (?H c)" "distinct (concat (map ?H xs))" for b c p xs
    using that by (induction xs) auto
  have po: "point_owner md5 ?n xs p = Some b \<longleftrightarrow> b \<in> set xs \<and> p \<in> set (?H b)" if "distinct (concat (map ?H xs))" for xs p b
  proof
    assume "b \<in> set xs \<and> p \<in> set (?H b)"
    moreover then obtain c where "find (\<lambda>b. p \<in> set (?H b)) xs = Some c" by (metis (mono_tags, lifting) find_None_iff option.exhaust)
    ultimately show "point_owner md5 ?n xs p = Some b" using find_SomeD [of _ xs c] uniq [OF _ _ _ _ that] by (simp add: point_owner_def) blast
  qed (auto simp: point_owner_def dest: find_SomeD)
  have own: "own r p = b" if "b \<in> set ids" "p \<in> set (?H b)" for p b
    using that po [OF assms(2), of p b] by (simp add: own_def r(2))
  have own': "own r' p = b" if "b \<in> set ?ids" "p \<in> set (?H b)" for p b
    using that po [OF sub [OF assms(2)], of "\<lambda>b. b \<noteq> d" p b] by (simp add: own_def r'(2))
  have ok: "ring_ok r" "ring_ok r'"
    using assms(1) po [OF assms(2)] po [OF sub [OF assms(2), of "\<lambda>b. b \<noteq> d"]] by (fastforce simp: ring_ok_def r r')+
  have "rg_points r' = filter (\<lambda>p. own r p \<noteq> d) (rg_points r)"
  proof (rule sorted_distinct_set_unique)
    show "set (rg_points r') = set (filter (\<lambda>p. own r p \<noteq> d) (rg_points r))" using own by (auto simp: r r')
    show "distinct (rg_points r')" using sub [OF assms(2)] by (simp add: r')
    show "distinct (filter (\<lambda>p. own r p \<noteq> d) (rg_points r))" using assms(2) by (simp add: r)
  qed (simp_all add: r r' filter_sort)
  then have cw: "clockwise r' ?h = filter (\<lambda>p. own r p \<noteq> d) (clockwise r ?h)"
    by (simp add: clockwise_def conj_commute)
  have same: "own r' p = own r p" if "p \<in> set (clockwise r' ?h)" for p
    using that own own' unfolding clockwise_def r' by auto
  have "find (\<lambda>_. True) (map (own r) (clockwise r ?h)) = Some x" using assms(6) ring_lookup_find [OF ok(1), of md5 key None] by simp
  then obtain p ps where p: "clockwise r ?h = p # ps" "own r p = x" by (cases "clockwise r ?h") auto
  with assms(7) have "clockwise r' ?h = p # filter (\<lambda>p. own r p \<noteq> d) ps" by (simp add: cw)
  with same [of p] p(2) show ?thesis using ring_lookup_find [OF ok(2), of md5 key None] by simp
qed

definition two_digest :: digest where
  "two_digest s j =
     (let a = (if s = ''0-a'' then [1, 2, 3, 4] else if s = ''0-b'' then [8, 9, 10, 11] else [6, 6, 6, 6]) in a ! j)"

theorem ring_membership_minimal_witness:
  "\<exists>r r'. newRing two_digest 4 [''a'', ''b''] = Some r \<and> newRing two_digest 4 [''b''] = Some r' \<and>
     ring_lookup two_digest ''k'' None r = Some ''b'' \<and> ring_lookup two_digest ''k'' None r' = Some ''b''"
proof -
  have "map_option (ring_lookup two_digest ''k'' None) (newRing two_digest 4 [''a'', ''b'']) = Some (Some ''b'')" by code_simp
  then obtain r where r: "newRing two_digest 4 [''a'', ''b''] = Some r" "ring_lookup two_digest ''k'' None r = Some ''b''" by auto
  have d: "distinct (concat (map (id_hashes two_digest (nat ((4 + 3) div 4))) [''a'', ''b'']))" by code_simp
  then have "distinct (concat (map (id_hashes two_digest (nat ((4 + 3) div 4))) [''b'']))" by simp
  with newRing_fresh [of "[''b'']" two_digest 4] obtain r' where r': "newRing two_digest 4 [''b''] = Some r'" by auto
  have "ring_lookup two_digest ''k'' None r' = Some ''b''"
    using ring_membership_minimal [OF _ d _ r(1) _ r(2), of "''a''" r'] r' by simp
  with r r' show ?thesis by blast
qed

end
