(* ===== verification/Health.thy ===== *)
theory Health
  imports GoNum "HOL-Library.Signed_Division"
begin

text \<open>
  The health state machine of a backend, \<open>internal/lb/health.go\<close>, and the acceptance test of a probe's
  status, \<open>HealthSpec\<close> of \<open>internal/lb/config.go\<close>. The ring buffer is shown to be the window of the last
  outcomes, and the machine to follow the windowed specification.
\<close>

record healthFSM =
  hf_window :: nat
  hf_threshold :: nat
  hf_results :: "bool list"
  hf_idx :: nat
  hf_filled :: nat
  hf_up :: bool

definition newHealthFSM :: "int \<Rightarrow> int \<Rightarrow> bool \<Rightarrow> healthFSM" where
  "newHealthFSM window threshold startUp =
     (let window = (if window \<le> 0 then 1 else window);
          threshold = (if threshold \<le> 0 then 1 else threshold);
          threshold = (if threshold > window then window else threshold)
      in \<lparr>hf_window = nat window, hf_threshold = nat threshold, hf_results = replicate (nat window) False,
          hf_idx = 0, hf_filled = 0, hf_up = startUp\<rparr>)"

definition fsm_record :: "bool \<Rightarrow> healthFSM \<Rightarrow> bool \<times> healthFSM" where
  "fsm_record success f =
     (let f = f\<lparr>hf_results := (hf_results f)[hf_idx f := success]\<rparr>;
          f = f\<lparr>hf_idx := (hf_idx f + 1) mod hf_window f\<rparr>;
          f = (if hf_filled f < hf_window f then f\<lparr>hf_filled := hf_filled f + 1\<rparr> else f);
          succ = length (filter (\<lambda>r. r) (take (hf_filled f) (hf_results f)));
          fail = length (filter (\<lambda>r. \<not> r) (take (hf_filled f) (hf_results f)))
      in if \<not> hf_up f \<and> succ \<ge> hf_threshold f then (True, f\<lparr>hf_up := True\<rparr>)
         else if hf_up f \<and> fail \<ge> hf_threshold f then (True, f\<lparr>hf_up := False\<rparr>)
         else (False, f))"

definition healthy :: "healthFSM \<Rightarrow> bool" where
  "healthy f = hf_up f"

record HealthSpec =
  hs_Method :: string
  hs_Path :: string
  hs_ExpectCode :: int
  hs_ExpectCodes :: "int list"
  hs_ExpectClasses :: "int list"
  hs_Interval :: int
  hs_Window :: int
  hs_Threshold :: int

definition Matches :: "HealthSpec \<Rightarrow> int \<Rightarrow> bool" where
  "Matches h code =
     (if hs_ExpectCode h \<noteq> 0 \<and> code = hs_ExpectCode h then True
      else if list_ex (\<lambda>c. code = c) (hs_ExpectCodes h) then True
      else list_ex (\<lambda>cls. code sdiv 100 = cls) (hs_ExpectClasses h))"

definition hasExpect :: "HealthSpec \<Rightarrow> bool" where
  "hasExpect h = (hs_ExpectCode h \<noteq> 0 \<or> length (hs_ExpectCodes h) > 0 \<or> length (hs_ExpectClasses h) > 0)"

text \<open>A probe: the status the HTTP client obtained for the request line, \<^const>\<open>None\<close> for a transport
  error.\<close>

definition upper_byte :: "char \<Rightarrow> char" where
  "upper_byte c = (if 97 \<le> byte c \<and> byte c \<le> 122 then char_of (byte c - 32) else c)"

definition TrimRight_slash :: "string \<Rightarrow> string" where
  "TrimRight_slash s = rev (dropWhile (\<lambda>c. c = CHR ''/'') (rev s))"

definition probe :: "(string \<Rightarrow> string \<Rightarrow> int option) \<Rightarrow> string \<Rightarrow> HealthSpec \<Rightarrow> healthFSM \<Rightarrow> bool \<times> healthFSM" where
  "probe doer base spec f =
     (let method = map upper_byte (hs_Method spec);
          method = (if method = [] then ''GET'' else method);
          path = hs_Path spec;
          path = (if path = [] then ''/'' else path);
          path = (if \<not> HasPrefix path ''/'' then ''/'' @ path else path);
          url = TrimRight_slash base @ path;
          success = (case doer method url of None \<Rightarrow> False | Some code \<Rightarrow> Matches spec code)
      in fsm_record success f)"

subsection \<open>The windowed specification\<close>

text \<open>The state is up or down with the outcomes so far, newest first, of which the last \<open>w\<close> count.\<close>

definition spec_record :: "nat \<Rightarrow> nat \<Rightarrow> bool \<Rightarrow> bool \<times> bool list \<Rightarrow> bool \<times> bool list" where
  "spec_record w t b s =
     (let hist = b # snd s; recent = take w hist in
      (if \<not> fst s \<and> t \<le> count_list recent True then True
       else if fst s \<and> t \<le> count_list recent False then False
       else fst s, hist))"

text \<open>The buffer in the order of time, newest first.\<close>

definition hf_recent :: "healthFSM \<Rightarrow> bool list" where
  "hf_recent f = rev (if hf_filled f < hf_window f then take (hf_filled f) (hf_results f)
     else drop (hf_idx f) (hf_results f) @ take (hf_idx f) (hf_results f))"

definition fsm_ok :: "healthFSM \<Rightarrow> bool" where
  "fsm_ok f \<longleftrightarrow> 0 < hf_window f \<and> length (hf_results f) = hf_window f \<and> hf_idx f < hf_window f \<and>
     hf_filled f \<le> hf_window f \<and> (hf_filled f < hf_window f \<longrightarrow> hf_idx f = hf_filled f) \<and>
     0 < hf_threshold f \<and> hf_threshold f \<le> hf_window f"

definition refines :: "healthFSM \<Rightarrow> bool \<times> bool list \<Rightarrow> bool" where
  "refines f s \<longleftrightarrow> fsm_ok f \<and> hf_up f = fst s \<and> hf_recent f = take (hf_window f) (snd s) \<and>
     hf_filled f = min (hf_window f) (length (snd s))"

lemma count_filter: "length (filter (\<lambda>r. r) xs) = count_list xs True" "length (filter (\<lambda>r. \<not> r) xs) = count_list xs False"
  by (induction xs) auto

lemma new_refines: "refines (newHealthFSM w t up) (up, [])"
  by (auto simp: refines_def fsm_ok_def newHealthFSM_def hf_recent_def Let_def)

text \<open>Writing the newest outcome over the oldest.\<close>

lemma recent_record:
  fixes f :: healthFSM and b :: bool
  assumes "fsm_ok f"
  defines "f' \<equiv> f\<lparr>hf_results := (hf_results f)[hf_idx f := b], hf_idx := (hf_idx f + 1) mod hf_window f,
     hf_filled := (if hf_filled f < hf_window f then hf_filled f + 1 else hf_filled f)\<rparr>"
  shows "hf_recent f' = take (hf_window f) (b # hf_recent f)"
    and "count_list (take (hf_filled f') (hf_results f')) x = count_list (hf_recent f') x" and "fsm_ok f'"
proof -
  note ok = assms(1) [unfolded fsm_ok_def]
  let ?w = "hf_window f" and ?i = "hf_idx f" and ?xs = "hf_results f"
  show ok': "fsm_ok f'" using ok by (auto simp: fsm_ok_def f'_def mod_Suc)
  show cnt: "count_list (take (hf_filled f') (hf_results f')) x = count_list (hf_recent f') x"
  proof (cases "hf_filled f' < hf_window f'")
    case True
    then show ?thesis by (simp add: hf_recent_def)
  next
    case False
    with ok' have "hf_filled f' = length (hf_results f')" by (simp add: fsm_ok_def)
    moreover have "count_list (hf_results f') x = count_list (take (hf_idx f') (hf_results f') @ drop (hf_idx f') (hf_results f')) x" by simp
    ultimately show ?thesis using False unfolding hf_recent_def count_list_rev by (simp del: append_take_drop_id)
  qed
  show "hf_recent f' = take ?w (b # hf_recent f)"
  proof (cases "hf_filled f < ?w")
    case True
    with ok have i: "?i = hf_filled f" by simp
    have t: "take (Suc ?i) (?xs[?i := b]) = take ?i ?xs @ [b]" using ok by (simp add: take_Suc_conv_app_nth)
    show ?thesis
    proof (cases "Suc (hf_filled f) < ?w")
      case True
      with i t ok show ?thesis by (simp add: hf_recent_def f'_def)
    next
      case False
      with True have eq: "Suc ?i = ?w" using i by simp
      have "?xs[?i := b] = take ?i ?xs @ [b]" using ok eq by (simp add: upd_conv_take_nth_drop)
      with eq i ok True show ?thesis by (simp add: hf_recent_def f'_def)
    qed
  next
    case False
    with ok have fl: "hf_filled f = ?w" by simp
    show ?thesis
    proof (cases "Suc ?i < ?w")
      case True
      have d: "drop ?i ?xs = ?xs ! ?i # drop (Suc ?i) ?xs" using ok True by (simp add: Cons_nth_drop_Suc)
      have t: "take (Suc ?i) (?xs[?i := b]) = take ?i ?xs @ [b]" using ok by (simp add: take_Suc_conv_app_nth)
      have "hf_recent f' = rev (drop (Suc ?i) ?xs @ take ?i ?xs @ [b])" using fl True t by (simp add: hf_recent_def f'_def)
      moreover have "hf_recent f = rev (drop ?i ?xs @ take ?i ?xs)" using fl by (simp add: hf_recent_def)
      ultimately show ?thesis using ok True unfolding d by (simp add: take_Cons')
    next
      case False
      with ok have eq: "Suc ?i = ?w" by simp
      have d: "drop ?i ?xs = [?xs ! ?i]" using ok eq by (metis Cons_nth_drop_Suc drop_all order_refl)
      have "?xs[?i := b] = take ?i ?xs @ [b]" using ok eq by (simp add: upd_conv_take_nth_drop)
      then have "hf_recent f' = rev (take ?i ?xs @ [b])" using fl eq by (simp add: hf_recent_def f'_def)
      moreover have "hf_recent f = rev (drop ?i ?xs @ take ?i ?xs)" using fl by (simp add: hf_recent_def)
      ultimately show ?thesis using ok eq unfolding d by (simp add: take_Cons')
    qed
  qed
qed

lemma record_refines:
  assumes "refines f s"
  shows "refines (snd (fsm_record b f)) (spec_record (hf_window f) (hf_threshold f) b s)"
    and "fst (fsm_record b f) \<longleftrightarrow> hf_up (snd (fsm_record b f)) \<noteq> hf_up f"
    and "hf_window (snd (fsm_record b f)) = hf_window f" and "hf_threshold (snd (fsm_record b f)) = hf_threshold f"
proof -
  let ?w = "hf_window f"
  define f' where "f' = f\<lparr>hf_results := (hf_results f)[hf_idx f := b], hf_idx := (hf_idx f + 1) mod hf_window f,
     hf_filled := (if hf_filled f < hf_window f then hf_filled f + 1 else hf_filled f)\<rparr>"
  have ok: "fsm_ok f" and up: "hf_up f = fst s" and rec: "hf_recent f = take ?w (snd s)"
    and fl: "hf_filled f = min ?w (length (snd s))" using assms by (simp_all add: refines_def)
  note rr = recent_record [OF ok, of b, folded f'_def]
  have rec': "hf_recent f' = take ?w (b # snd s)" using rr(1) rec ok by (simp add: take_Cons' fsm_ok_def min_def)
  have same: "hf_window f' = ?w" "hf_threshold f' = hf_threshold f" "hf_up f' = hf_up f" by (simp_all add: f'_def)
  have fl': "hf_filled f' = min ?w (length (b # snd s))" using fl by (simp add: f'_def)
  have r: "fsm_record b f =
      (if \<not> hf_up f' \<and> count_list (hf_recent f') True \<ge> hf_threshold f' then (True, f'\<lparr>hf_up := True\<rparr>)
       else if hf_up f' \<and> count_list (hf_recent f') False \<ge> hf_threshold f' then (True, f'\<lparr>hf_up := False\<rparr>)
       else (False, f'))"
    unfolding rr(2) [symmetric] by (simp add: fsm_record_def Let_def count_filter f'_def)
  have upd: "fsm_ok (f'\<lparr>hf_up := u\<rparr>) = fsm_ok f'" "hf_recent (f'\<lparr>hf_up := u\<rparr>) = hf_recent f'" for u
    by (simp_all add: fsm_ok_def hf_recent_def)
  show "refines (snd (fsm_record b f)) (spec_record ?w (hf_threshold f) b s)"
    using rr(3) rec' same up fl' unfolding r spec_record_def refines_def by (auto simp: upd Let_def)
  show "fst (fsm_record b f) \<longleftrightarrow> hf_up (snd (fsm_record b f)) \<noteq> hf_up f" "hf_window (snd (fsm_record b f)) = hf_window f"
    "hf_threshold (snd (fsm_record b f)) = hf_threshold f"
    using same unfolding r by auto
qed

subsection \<open>Properties\<close>

definition run :: "bool list \<Rightarrow> healthFSM \<Rightarrow> healthFSM" where
  "run bs f = fold (\<lambda>b f. snd (fsm_record b f)) bs f"

lemma run_snoc [simp]: "run (bs @ [b]) f = snd (fsm_record b (run bs f))" and run_Nil [simp]: "run [] f = f"
  by (simp_all add: run_def)

lemma run_refines:
  assumes "refines f s"
  shows "refines (run bs f) (fold (spec_record (hf_window f) (hf_threshold f)) bs s) \<and>
    hf_window (run bs f) = hf_window f \<and> hf_threshold (run bs f) = hf_threshold f"
proof (induction bs rule: rev_induct)
  case (snoc b bs)
  with record_refines [of "run bs f" "fold (spec_record (hf_window f) (hf_threshold f)) bs s" b] show ?case by simp
qed (use assms in simp)

text \<open>C13: The ring buffer implements the documented window. After any sequence of probes the machine is
  up exactly when the specification is that counts the successes and failures among the last
  \<open>window\<close> outcomes, and every reported change is a change of that state.\<close>

theorem health_window_refinement:
  assumes "0 < t" and "t \<le> w"
  shows "healthy (run bs (newHealthFSM (int w) (int t) up)) = fst (fold (spec_record w t) bs (up, [])) \<and>
    (fst (fsm_record b (run bs (newHealthFSM (int w) (int t) up))) \<longleftrightarrow>
       fst (fold (spec_record w t) (bs @ [b]) (up, [])) \<noteq> fst (fold (spec_record w t) bs (up, [])))"
proof -
  let ?f = "newHealthFSM (int w) (int t) up"
  have wt: "hf_window ?f = w" "hf_threshold ?f = t" using assms by (simp_all add: newHealthFSM_def Let_def)
  note rr = run_refines [OF new_refines, of bs "int w" "int t" up, unfolded wt]
  have "hf_up (run bs ?f) = fst (fold (spec_record w t) bs (up, []))" using rr by (simp add: refines_def)
  moreover have "hf_up (run (bs @ [b]) ?f) = fst (fold (spec_record w t) (bs @ [b]) (up, []))"
    using run_refines [OF new_refines, of "bs @ [b]" "int w" "int t" up, unfolded wt] by (simp add: refines_def)
  moreover have "fst (fsm_record b (run bs ?f)) \<longleftrightarrow> hf_up (run (bs @ [b]) ?f) \<noteq> hf_up (run bs ?f)"
    using record_refines(2) rr by (metis run_snoc)
  ultimately show ?thesis by (simp add: healthy_def)
qed

theorem health_window_refinement_witness:
  "healthy (run [True, False, True] (newHealthFSM 3 2 False)) \<and> \<not> healthy (run [True, False, False] (newHealthFSM 3 2 False))"
  using health_window_refinement [of 2 3 "[True, False, True]" False] health_window_refinement [of 2 3 "[True, False, False]" False]
  by (simp add: spec_record_def)

text \<open>With a threshold of more than half the window the two conditions exclude each other.\<close>

definition settled :: "healthFSM \<Rightarrow> bool" where
  "settled f \<longleftrightarrow> count_list (hf_recent f) (\<not> hf_up f) < hf_threshold f"

lemma count_take_Cons: "count_list (take w (x # xs)) y \<le> count_list (take w xs) y + (if x = y then 1 else 0)"
proof (cases w)
  case (Suc v)
  have "count_list (take v xs) y \<le> count_list (take w xs) y"
    using Suc by (simp add: take_Suc_conv_app_nth split: if_splits) (metis count_list_append le_add1 take_add Suc_eq_plus1)
  with Suc show ?thesis by simp
qed simp

lemma count_both: "count_list xs True + count_list xs False = length xs"
  by (induction xs) auto

lemma spec_settled:
  assumes "w < 2 * t" and "count_list (take w (snd s)) (\<not> fst s) < t"
  shows "count_list (take w (snd (spec_record w t b s))) (\<not> fst (spec_record w t b s)) < t"
proof -
  let ?r = "take w (b # snd s)"
  have "count_list ?r True + count_list ?r False \<le> w" unfolding count_both by simp
  with assms show ?thesis by (cases "fst s") (auto simp: spec_record_def Let_def)
qed

lemma spec_keep: "count_list (take w (b # snd s)) (\<not> fst s) < t \<Longrightarrow> fst (spec_record w t b s) = fst s"
  by (cases "fst s") (auto simp: spec_record_def Let_def)

text \<open>When the threshold is more than half the window the state does not flap: a backend that is up
  stays up as long as its probes succeed, and one that is down stays down as long as they fail.\<close>

theorem health_no_flap:
  assumes "0 < t" and "t \<le> w" and "w < 2 * t"
  shows "healthy (run (bs @ replicate n (healthy (run bs (newHealthFSM (int w) (int t) up)))) (newHealthFSM (int w) (int t) up)) =
    healthy (run bs (newHealthFSM (int w) (int t) up))"
proof -
  let ?S = "\<lambda>bs. fold (spec_record w t) bs (up, [])"
  have run: "healthy (run bs (newHealthFSM (int w) (int t) up)) = fst (?S bs)" for bs
  proof -
    have "hf_window (newHealthFSM (int w) (int t) up) = w" "hf_threshold (newHealthFSM (int w) (int t) up) = t"
      using assms by (simp_all add: newHealthFSM_def Let_def)
    with run_refines [OF new_refines, of bs "int w" "int t" up] show ?thesis by (simp add: refines_def healthy_def)
  qed
  have inv: "count_list (take w (snd (?S bs))) (\<not> fst (?S bs)) < t" for bs
  proof (induction bs rule: rev_induct)
    case (snoc b bs)
    with spec_settled [OF assms(3), of "?S bs" b] show ?case by simp
  qed (use assms(1) in simp)
  have "fst (?S (bs @ replicate n (fst (?S bs)))) = fst (?S bs)"
  proof (induction n)
    case (Suc n)
    let ?s = "?S (bs @ replicate n (fst (?S bs)))"
    have eq: "?S (bs @ replicate (Suc n) (fst (?S bs))) = spec_record w t (fst (?S bs)) ?s"
    proof -
      have "bs @ replicate (Suc n) v = (bs @ replicate n v) @ [v]" for v :: bool by (simp add: replicate_append_same)
      then show ?thesis by (simp del: replicate_Suc append_assoc)
    qed
    have "count_list (take w (fst (?S bs) # snd ?s)) (\<not> fst ?s) < t"
      using inv [of "bs @ replicate n (fst (?S bs))"] count_take_Cons [of w "fst (?S bs)" "snd ?s" "\<not> fst ?s"] Suc by simp
    from spec_keep [OF this] Suc show ?case unfolding eq by metis
  qed simp
  then show ?thesis by (simp add: run)
qed

theorem health_no_flap_witness:
  "healthy (run ([True, True] @ replicate 5 True) (newHealthFSM 3 2 False))"
proof -
  have "healthy (run [True, True] (newHealthFSM 3 2 False))" by code_simp
  with health_no_flap [of 2 3 "[True, True]" 5 False] show ?thesis by simp
qed

text \<open>With a smaller threshold a backend that answers every probe is taken out of service again.\<close>

lemma health_flaps:
  "map (\<lambda>n. healthy (run ([False, False] @ replicate n True) (newHealthFSM 6 2 False))) [0..<6] = [False, False, True, False, True, True]"
  by code_simp

end
