(* ===== verification/Upstream.thy ===== *)
theory Upstream
  imports Ring Health
begin

text \<open>
  Backend selection and failover of a load-balanced pool, \<open>internal/lb/upstream.go\<close> with the policies of
  \<open>internal/lb/config.go\<close>, the routing key of \<open>internal/lb/doc.go\<close> and \<open>AnyHealthy\<close> of
  \<open>internal/lb/snapshot.go\<close>.

  A pointer to a backend is its id; the pool's \<open>byID\<close> map is also the store of the backends. What a
  backend's origin answers to a request is a parameter. Instants and durations are nanoseconds.
\<close>

subsection \<open>Types\<close>

datatype Policy = RoundRobin | LeastConn | Sticky | Shard

datatype ShardKey = ShardNone | ShardURL | ShardKeyVal

record lbConfig =
  lc_Policy :: Policy
  lc_Shard :: ShardKey
  lc_Health :: "HealthSpec option"
  lc_MaxConns :: int
  lc_Replicas :: int

record backend =
  bk_id :: string
  bk_baseURL :: string
  bk_target :: "string option"
  bk_inflight :: int
  bk_sem :: "int option"
  bk_fsm :: healthFSM
  bk_consecFail :: int
  bk_ejectUntil :: int

record Upstream =
  us_cfg :: lbConfig
  us_backends :: "string list"
  us_byID :: "backend gomap"
  us_ring :: ring
  us_rr :: "64 word"
  us_inflight :: int
  us_passiveThreshold :: int
  us_ejectDuration :: int

text \<open>The request as far as the pool looks at it: the object key, whether there is a body, and the
  values attached to the context.\<close>

record lbRequest =
  rq_Key :: string
  rq_hasBody :: bool
  rq_routingKey :: string
  rq_exclude :: string

subsection \<open>Backends\<close>

definition bk_eligible :: "int \<Rightarrow> backend \<Rightarrow> bool" where
  "bk_eligible now b = (if \<not> healthy (bk_fsm b) then False else \<not> bk_ejectUntil b > now)"

definition underCap :: "int \<Rightarrow> backend \<Rightarrow> bool" where
  "underCap maxConns b = (maxConns = 0 \<or> bk_inflight b < maxConns)"

definition passiveSuccess :: "backend \<Rightarrow> backend" where
  "passiveSuccess b = b\<lparr>bk_consecFail := 0, bk_ejectUntil := 0\<rparr>"

definition passiveFailure :: "int \<Rightarrow> int \<Rightarrow> int \<Rightarrow> backend \<Rightarrow> backend" where
  "passiveFailure threshold now dur b =
     (let b = b\<lparr>bk_consecFail := bk_consecFail b + 1\<rparr>
      in if bk_consecFail b \<ge> threshold then b\<lparr>bk_ejectUntil := now + dur\<rparr> else b)"

definition with_backend :: "string \<Rightarrow> (backend \<Rightarrow> backend) \<Rightarrow> Upstream \<Rightarrow> Upstream" where
  "with_backend bid g u =
     (case map_of (us_byID u) bid of
        None \<Rightarrow> u
      | Some b \<Rightarrow> u\<lparr>us_byID := AList.update bid (g b) (us_byID u)\<rparr>)"

subsection \<open>Selection\<close>

definition RoutingKey :: "lbRequest \<Rightarrow> string \<times> bool" where
  "RoutingKey rq = (if rq_routingKey rq = [] then ([], False) else (rq_routingKey rq, True))"

definition shardKey :: "lbConfig \<Rightarrow> lbRequest \<Rightarrow> string \<times> bool" where
  "shardKey cfg rq =
     (case lc_Shard cfg of ShardURL \<Rightarrow> (rq_Key rq, True) | ShardKeyVal \<Rightarrow> RoutingKey rq | ShardNone \<Rightarrow> ([], False))"

definition bk_ok :: "int \<Rightarrow> lbRequest \<Rightarrow> string list \<Rightarrow> Upstream \<Rightarrow> string \<Rightarrow> bool" where
  "bk_ok now rq tried u bid =
     (case map_of (us_byID u) bid of
        None \<Rightarrow> False
      | Some b \<Rightarrow>
          if rq_exclude rq \<noteq> [] \<and> bk_baseURL b = rq_exclude rq then False
          else bk_id b \<notin> set tried \<and> bk_eligible now b \<and> underCap (lc_MaxConns (us_cfg u)) b)"

text \<open>The round-robin loop. The cursor is converted to a signed number; a negative index panics, which
  is the outer \<^const>\<open>None\<close>.\<close>

fun rr_loop :: "(string \<Rightarrow> bool) \<Rightarrow> string list \<Rightarrow> int \<Rightarrow> nat list \<Rightarrow> string option option" where
  "rr_loop ok bs start [] = Some None"
| "rr_loop ok bs start (i # is) =
     (let k = i64 (start + int i) smod int (length bs) in
      if k < 0 then None
      else if ok (bs ! nat k) then Some (Some (bs ! nat k))
      else rr_loop ok bs start is)"

definition pickRoundRobin :: "(string \<Rightarrow> bool) \<Rightarrow> Upstream \<Rightarrow> (string option \<times> Upstream) option" where
  "pickRoundRobin ok u =
     (let start = sint (us_rr u); u' = u\<lparr>us_rr := us_rr u + 1\<rparr>; bs = us_backends u
      in case rr_loop ok bs start [0..<length bs] of None \<Rightarrow> None | Some b \<Rightarrow> Some (b, u'))"

definition least_step :: "(string \<Rightarrow> bool) \<Rightarrow> Upstream \<Rightarrow> string \<Rightarrow> (string \<times> int) option \<Rightarrow> (string \<times> int) option" where
  "least_step ok u bid best =
     (if \<not> ok bid then best
      else
        let n = (case map_of (us_byID u) bid of None \<Rightarrow> 0 | Some b \<Rightarrow> bk_inflight b)
        in case best of None \<Rightarrow> Some (bid, n) | Some (b', m) \<Rightarrow> if n < m then Some (bid, n) else best)"

definition pickLeastConn :: "(string \<Rightarrow> bool) \<Rightarrow> Upstream \<Rightarrow> string option" where
  "pickLeastConn ok u = map_option fst (fold (least_step ok u) (us_backends u) None)"

definition pickRing :: "digest \<Rightarrow> string \<Rightarrow> (string \<Rightarrow> bool) \<Rightarrow> Upstream \<Rightarrow> string option" where
  "pickRing md5 key ok u =
     ring_lookup md5 key (Some (\<lambda>bid. map_of (us_byID u) bid \<noteq> None \<and> ok bid)) (us_ring u)"

definition pick :: "digest \<Rightarrow> int \<Rightarrow> lbRequest \<Rightarrow> string list \<Rightarrow> Upstream \<Rightarrow> (string option \<times> Upstream) option" where
  "pick md5 now rq tried u =
     (if us_backends u = [] then Some (None, u)
      else
        let ok = bk_ok now rq tried u in
        case lc_Policy (us_cfg u) of
          LeastConn \<Rightarrow> Some (pickLeastConn ok u, u)
        | Sticky \<Rightarrow>
            (let (key, has) = RoutingKey rq
             in if \<not> has then pickRoundRobin ok u else Some (pickRing md5 key ok u, u))
        | Shard \<Rightarrow>
            (let (key, has) = shardKey (us_cfg u) rq
             in if \<not> has then pickRoundRobin ok u else Some (pickRing md5 key ok u, u))
        | RoundRobin \<Rightarrow> pickRoundRobin ok u)"

subsection \<open>Fetching\<close>

datatype fetch_error = ErrNotFound | StatusError int | ConnError | ErrNoBackend | errAtCapacity | CtxError

definition StatusOf :: "fetch_error \<Rightarrow> int" where
  "StatusOf e = (case e of ErrNotFound \<Rightarrow> 404 | StatusError s \<Rightarrow> s | _ \<Rightarrow> 0)"

definition retriable :: "fetch_error \<Rightarrow> bool" where
  "retriable e = (if e = errAtCapacity then True else let st = StatusOf e in st = 0 \<or> (500 \<le> st \<and> st \<le> 599))"

text \<open>\<^const>\<open>None\<close> is a successful fetch.\<close>

definition recordOutcome :: "int \<Rightarrow> string \<Rightarrow> fetch_error option \<Rightarrow> Upstream \<Rightarrow> Upstream" where
  "recordOutcome now bid err u =
     (case err of
        None \<Rightarrow> with_backend bid passiveSuccess u
      | Some e \<Rightarrow>
          let st = StatusOf e in
          if st = 0 \<or> (500 \<le> st \<and> st \<le> 599)
          then with_backend bid (passiveFailure (us_passiveThreshold u) now (us_ejectDuration u)) u
          else with_backend bid passiveSuccess u)"

text \<open>Giving back the slot of a request, once per request.\<close>

definition us_release :: "string \<Rightarrow> Upstream \<Rightarrow> Upstream" where
  "us_release bid u =
     (with_backend bid (\<lambda>b. b\<lparr>bk_inflight := bk_inflight b - 1, bk_sem := map_option (\<lambda>n. n - 1) (bk_sem b)\<rparr>) u)
       \<lparr>us_inflight := us_inflight u - 1\<rparr>"

text \<open>The slots of the semaphore in use are counted up to its capacity, \<open>MaxConns\<close>.\<close>

definition fetchOne :: "(string \<Rightarrow> fetch_error option) \<Rightarrow> int \<Rightarrow> string \<Rightarrow> Upstream \<Rightarrow> fetch_error option \<times> Upstream" where
  "fetchOne org now bid u =
     (let full = (case map_of (us_byID u) bid of None \<Rightarrow> False
                  | Some b \<Rightarrow> (case bk_sem b of None \<Rightarrow> False | Some n \<Rightarrow> n \<ge> lc_MaxConns (us_cfg u)))
      in if full then (Some errAtCapacity, u)
         else
           let u = (with_backend bid (\<lambda>b. b\<lparr>bk_inflight := bk_inflight b + 1, bk_sem := map_option (\<lambda>n. n + 1) (bk_sem b)\<rparr>) u)
                     \<lparr>us_inflight := us_inflight u + 1\<rparr>
           in case org bid of
                Some e \<Rightarrow> (Some e, recordOutcome now bid (Some e) (us_release bid u))
              | None \<Rightarrow> (None, recordOutcome now bid None u))"

text \<open>The failover loop: the outcome, the backends tried in order, and the pool afterwards; a panic or
  an endless loop is \<^const>\<open>None\<close>. \<open>cancelled n\<close> is whether the request's context is over when it is
  looked at after \<open>n\<close> attempts, and \<open>now n\<close> has the readings of the clock when the next backend is picked and
  when its outcome is recorded. The backends and their counters are those of this fetch alone: what other
  requests and a reconcile change meanwhile is not part of the loop.\<close>

partial_function (option) fetch_loop ::
  "digest \<Rightarrow> (nat \<Rightarrow> bool) \<Rightarrow> (string \<Rightarrow> fetch_error option) \<Rightarrow> (nat \<Rightarrow> int \<times> int) \<Rightarrow> lbRequest \<Rightarrow> string list \<Rightarrow> fetch_error option \<Rightarrow> Upstream \<Rightarrow>
    ((fetch_error + string) \<times> string list \<times> Upstream) option" where
  "fetch_loop md5 cancelled org now rq tried lastErr u =
     (if cancelled (length tried) then Some (Inl (case lastErr of Some e \<Rightarrow> e | None \<Rightarrow> CtxError), tried, u)
      else
        case pick md5 (fst (now (length tried))) rq tried u of
          None \<Rightarrow> None
        | Some (None, u) \<Rightarrow> Some (Inl (case lastErr of Some e \<Rightarrow> e | None \<Rightarrow> ErrNoBackend), tried, u)
        | Some (Some bid, u) \<Rightarrow>
            (case fetchOne org (snd (now (length tried))) bid u of
               (None, u) \<Rightarrow> Some (Inr bid, tried @ [bid], u)
             | (Some e, u) \<Rightarrow>
                 if \<not> retriable e then Some (Inl e, tried @ [bid], u)
                 else if rq_hasBody rq then Some (Inl e, tried @ [bid], u)
                 else fetch_loop md5 cancelled org now rq (tried @ [bid]) (Some e) u))"

declare fetch_loop.simps [code]

definition Fetch ::
  "digest \<Rightarrow> (nat \<Rightarrow> bool) \<Rightarrow> (string \<Rightarrow> fetch_error option) \<Rightarrow> (nat \<Rightarrow> int \<times> int) \<Rightarrow> lbRequest \<Rightarrow> Upstream \<Rightarrow>
    ((fetch_error + string) \<times> string list \<times> Upstream) option" where
  "Fetch md5 cancelled org now rq u = fetch_loop md5 cancelled org now rq [] None u"

text \<open>The body of a response, which gives the slot back when it is closed for the first time.\<close>

record trackedBody =
  tb_backend :: string
  tb_done :: bool

definition trackedBody_Close :: "trackedBody \<Rightarrow> Upstream \<Rightarrow> trackedBody \<times> Upstream" where
  "trackedBody_Close t u = (if tb_done t then (t, u) else (t\<lparr>tb_done := True\<rparr>, us_release (tb_backend t) u))"

subsection \<open>Observing the pool\<close>

definition Owner :: "digest \<Rightarrow> int \<Rightarrow> string \<Rightarrow> bool \<Rightarrow> Upstream \<Rightarrow> string option" where
  "Owner md5 now key healthyOnly u =
     (if us_backends u = [] then None
      else
        let eligible = (if healthyOnly
                        then Some (\<lambda>bid. case map_of (us_byID u) bid of None \<Rightarrow> False
                                         | Some b \<Rightarrow> bk_eligible now b \<and> underCap (lc_MaxConns (us_cfg u)) b)
                        else None)
        in case ring_lookup md5 key eligible (us_ring u) of
             None \<Rightarrow> None
           | Some bid \<Rightarrow> map_option bk_baseURL (map_of (us_byID u) bid))"

definition Endpoints :: "Upstream \<Rightarrow> string list" where
  "Endpoints u = map (\<lambda>bid. case map_of (us_byID u) bid of None \<Rightarrow> [] | Some b \<Rightarrow> bk_baseURL b) (us_backends u)"

definition AnyHealthy :: "int \<Rightarrow> Upstream \<Rightarrow> bool" where
  "AnyHealthy now u =
     list_ex (\<lambda>bid. case map_of (us_byID u) bid of None \<Rightarrow> False | Some b \<Rightarrow> bk_eligible now b) (us_backends u)"

subsection \<open>Reconciling with the resolver\<close>

record endpoint =
  ep_id :: string
  ep_baseURL :: string
  ep_target :: string

definition makeBackend :: "(endpoint \<Rightarrow> bool) \<Rightarrow> lbConfig \<Rightarrow> endpoint \<Rightarrow> backend option" where
  "makeBackend newOrigin cfg e =
     (if \<not> newOrigin e then None
      else
        let (window, threshold, startUp) =
              (case lc_Health cfg of None \<Rightarrow> (1, 1, True) | Some hs \<Rightarrow> (hs_Window hs, hs_Threshold hs, False))
        in Some \<lparr>bk_id = ep_id e, bk_baseURL = ep_baseURL e, bk_target = Some (ep_target e), bk_inflight = 0,
                 bk_sem = (if lc_MaxConns cfg > 0 then Some 0 else None),
                 bk_fsm = newHealthFSM window threshold startUp, bk_consecFail = 0, bk_ejectUntil = 0\<rparr>)"

text \<open>The desired endpoints in the order in which the map is iterated.\<close>

definition desired_backends :: "(endpoint \<Rightarrow> bool) \<Rightarrow> Upstream \<Rightarrow> (string \<times> endpoint) list \<Rightarrow> backend gomap" where
  "desired_backends newOrigin u desired =
     List.map_filter (\<lambda>(bid, e).
        case map_of (us_byID u) bid of
          Some old \<Rightarrow> Some (bid, old)
        | None \<Rightarrow> map_option (\<lambda>b. (bid, b)) (makeBackend newOrigin (us_cfg u) e)) desired"

definition retained_backends :: "Upstream \<Rightarrow> backend gomap \<Rightarrow> string list \<Rightarrow> backend gomap" where
  "retained_backends u newByID failed =
     filter (\<lambda>(bid, b). bid \<notin> fst ` set newByID \<and> (case bk_target b of None \<Rightarrow> False | Some raw \<Rightarrow> raw \<in> set failed)) (us_byID u)"

definition reconcile :: "digest \<Rightarrow> (endpoint \<Rightarrow> bool) \<Rightarrow> (string \<times> endpoint) list \<Rightarrow> string list \<Rightarrow> Upstream \<Rightarrow> Upstream option" where
  "reconcile md5 newOrigin desired failed u =
     (let kept = desired_backends newOrigin u desired;
          all = kept @ retained_backends u kept failed
      in case newRing md5 (lc_Replicas (us_cfg u)) (map (\<lambda>(bid, b). bk_id b) all) of
           None \<Rightarrow> None
         | Some r \<Rightarrow> Some (u\<lparr>us_backends := map fst all, us_byID := all, us_ring := r\<rparr>))"

end
