(* ===== verification/UpstreamProps.thy ===== *)
theory UpstreamProps
  imports Upstream
begin

text \<open>
  Properties of the pool: every policy picks an eligible backend whenever there is one, a fetch
  terminates, tries each backend at most once and gives up only when the eligible ones are exhausted,
  its accounting of requests in flight is exact, and reconciling keeps the state of the backends that
  stay.
\<close>

subsection \<open>The invariant of the pool\<close>

definition us_ok :: "Upstream \<Rightarrow> bool" where
  "us_ok u \<longleftrightarrow> distinct (map fst (us_byID u)) \<and> distinct (us_backends u) \<and>
     set (us_backends u) = fst ` set (us_byID u) \<and> (\<forall>(k, b) \<in> set (us_byID u). bk_id b = k) \<and>
     ring_ok (us_ring u) \<and> set (rg_ids (us_ring u)) = set (us_backends u) \<and>
     (\<forall>k \<in> set (us_backends u). 0 < owned (us_ring u) k)"

text \<open>The round-robin cursor is \<open>k\<close> picks away from the sign bit.\<close>

definition room :: "nat \<Rightarrow> Upstream \<Rightarrow> bool" where
  "room k u \<longleftrightarrow> unat (us_rr u) + k + length (us_backends u) < 2 ^ 63"

lemma us_ok_member: "us_ok u \<Longrightarrow> k \<in> set (us_backends u) \<longleftrightarrow> (\<exists>b. map_of (us_byID u) k = Some b)"
  by (auto simp: us_ok_def map_of_eq_None_iff [symmetric] simp del: map_of_eq_None_iff)

lemma us_ok_id: "us_ok u \<Longrightarrow> map_of (us_byID u) k = Some b \<Longrightarrow> bk_id b = k"
  by (auto simp: us_ok_def dest!: map_of_SomeD)

lemma bk_ok_member: "us_ok u \<Longrightarrow> bk_ok now rq tried u k \<Longrightarrow> k \<in> set (us_backends u)"
  by (auto simp: us_ok_member bk_ok_def split: option.splits)

subsection \<open>Picking\<close>

text \<open>What every policy promises of its choice among the backends that satisfy \<open>ok\<close>.\<close>

definition picks :: "(string \<Rightarrow> bool) \<Rightarrow> Upstream \<Rightarrow> (string option \<times> Upstream) option \<Rightarrow> bool" where
  "picks ok u r \<longleftrightarrow>
     (\<exists>c u'. r = Some (c, u') \<and> (u' = u \<or> u' = u\<lparr>us_rr := us_rr u + 1\<rparr>) \<and>
        (case c of Some k \<Rightarrow> k \<in> set (us_backends u) \<and> ok k | None \<Rightarrow> \<forall>k \<in> set (us_backends u). \<not> ok k))"

text \<open>A policy as the client of a selector sees it: under its precondition it returns an acceptable
  backend, or none when there is none, and moves at most the round-robin cursor.\<close>

locale selector =
  fixes pre :: "Upstream \<Rightarrow> bool"
    and sel :: "(string \<Rightarrow> bool) \<Rightarrow> Upstream \<Rightarrow> (string option \<times> Upstream) option"
  assumes sel_picks: "pre u \<Longrightarrow> picks ok u (sel ok u)"
begin

lemma chosen: "pre u \<Longrightarrow> sel ok u = Some (Some k, u') \<Longrightarrow> k \<in> set (us_backends u) \<and> ok k"
  using sel_picks [of u ok] by (simp add: picks_def)

lemma exhausted: "pre u \<Longrightarrow> sel ok u = Some (None, u') \<Longrightarrow> k \<in> set (us_backends u) \<Longrightarrow> \<not> ok k"
  using sel_picks [of u ok] by (auto simp: picks_def)

lemma total: "pre u \<Longrightarrow> sel ok u \<noteq> None"
  using sel_picks [of u ok] by (auto simp: picks_def)

end

lemma find_cases: "case find P xs of Some k \<Rightarrow> k \<in> set xs \<and> P k | None \<Rightarrow> \<forall>k \<in> set xs. \<not> P k"
  by (auto simp: find_None_iff find_Some_iff split: option.split)

lemma smod_nonneg: "0 \<le> a \<Longrightarrow> 0 < b \<Longrightarrow> a smod b = a mod (b :: int)"
  by (cases "a = 0") (simp_all add: signed_modulo_int_def)

lemma rr_loop_find:
  assumes "0 \<le> start" and "start + int (length bs) < 2 ^ 63" and "\<forall>i \<in> set is. i < length bs"
  shows "rr_loop ok bs start is = Some (find ok (map (\<lambda>i. bs ! ((nat start mod length bs + i) mod length bs)) is))"
  using assms(3)
proof (induction "is")
  case (Cons i "is")
  have i: "i < length bs" using Cons.prems by simp
  have wrap: "i64 (start + int i) = start + int i" using assms(1,2) i by (intro i64_id) (auto simp: in_i64_def)
  have pos: "0 < int (length bs)" using i by linarith
  have k: "(start + int i) smod int (length bs) = int ((nat start mod length bs + i) mod length bs)"
    using assms(1) pos by (simp add: smod_nonneg zmod_int mod_add_left_eq)
  show ?case using Cons by (simp add: wrap k Let_def)
qed simp

lemma sint_unat_small: "unat w < 2 ^ 63 \<Longrightarrow> sint (w :: 64 word) = int (unat w)"
proof -
  assume "unat w < 2 ^ 63"
  then have "int (unat w) < 2 ^ 63" by (metis of_nat_less_iff of_nat_numeral of_nat_power)
  then have "uint w < 2 ^ 63" by simp
  moreover have "0 \<le> uint w" by simp
  ultimately have "signed_take_bit 63 (uint w) = uint w" by (intro signed_take_bit_int_eq_self) linarith+
  then show ?thesis by (simp add: sint_uint)
qed

lemma set_rotated:
  assumes "k < length xs"
  shows "set (map (\<lambda>i. xs ! ((k + i) mod length xs)) [0..<length xs]) = set xs"
proof -
  have "set (drop k xs @ take k xs) = set (take k xs @ drop k xs)" unfolding set_append by (rule Un_commute)
  then show ?thesis unfolding rotate_list [OF assms] by simp
qed

lemma pickRoundRobin_picks:
  assumes "room 0 u"
  shows "picks ok u (pickRoundRobin ok u)"
proof -
  let ?bs = "us_backends u" and ?s = "nat (sint (us_rr u))"
  let ?ys = "map (\<lambda>i. ?bs ! ((?s mod length ?bs + i) mod length ?bs)) [0..<length ?bs]"
  have small: "unat (us_rr u) < 2 ^ 63" using assms by (simp add: room_def)
  have s: "sint (us_rr u) = int (unat (us_rr u))"
    by (rule sint_unat_small [OF small])
  have "rr_loop ok ?bs (sint (us_rr u)) [0..<length ?bs] = Some (find ok ?ys)"
  proof (rule rr_loop_find)
    have "int (unat (us_rr u) + length ?bs) < int (2 ^ 63)" using assms unfolding of_nat_less_iff room_def by simp
    then show "sint (us_rr u) + int (length ?bs) < 2 ^ 63" by (simp add: s)
  qed (simp_all add: s)
  moreover have "set ?ys = set ?bs"
  proof (cases "?bs = []")
    case False
    then have "?s mod length ?bs < length ?bs" by simp
    then show ?thesis by (rule set_rotated)
  qed simp
  ultimately show ?thesis using find_cases [where P = ok and xs = ?ys] by (auto simp: picks_def pickRoundRobin_def Let_def split: option.splits)
qed

lemma least_fold:
  "case fold (least_step ok u) xs best of
     None \<Rightarrow> best = None \<and> (\<forall>k \<in> set xs. \<not> ok k)
   | Some (k, n) \<Rightarrow> best = Some (k, n) \<or> k \<in> set xs \<and> ok k"
proof (induction xs arbitrary: best)
  case (Cons x xs)
  then show ?case using Cons [of "least_step ok u x best"] by (auto simp: least_step_def Let_def split: option.splits if_splits prod.splits)
qed (auto split: option.splits)

lemma pickLeastConn_picks: "picks ok u (Some (pickLeastConn ok u, u))"
  using least_fold [where ok = ok and u = u and xs = "us_backends u" and best = None] by (auto simp: picks_def pickLeastConn_def split: option.splits)

lemma pickRing_picks:
  assumes u: "us_ok u"
  shows "picks ok u (Some (pickRing md5 key ok u, u))"
proof -
  let ?r = "us_ring u" and ?e = "\<lambda>k. map_of (us_byID u) k \<noteq> None \<and> ok k"
  let ?ys = "map (own ?r) (clockwise ?r (ringHash md5 key))"
  have r: "ring_ok ?r" "set (rg_ids ?r) = set (us_backends u)" "\<forall>k \<in> set (us_backends u). 0 < owned ?r k" using u by (simp_all add: us_ok_def)
  have cw: "set (clockwise ?r h) = set (rg_points ?r)" for h by (auto simp: clockwise_def not_le)
  have "set ?ys = set (us_backends u)"
  proof
    show "set ?ys \<subseteq> set (us_backends u)" using own_in_ids [OF r(1)] r(2) cw by auto
    show "set (us_backends u) \<subseteq> set ?ys"
    proof
      fix k assume "k \<in> set (us_backends u)"
      then obtain p where "p \<in> set (rg_points ?r)" "rg_owner ?r p = Some k"
        using r(3) by (force simp: owned_def filter_empty_conv)
      then show "k \<in> set ?ys" using cw by (force simp: own_def)
    qed
  qed
  moreover have "pickRing md5 key ok u = find ?e ?ys" using ring_lookup_find [OF r(1)] by (simp add: pickRing_def)
  ultimately show ?thesis using find_cases [where P = ?e and xs = ?ys] us_ok_member [OF u] by (auto simp: picks_def split: option.splits)
qed

interpretation rr: selector "room 0" pickRoundRobin
  by unfold_locales (rule pickRoundRobin_picks)

interpretation least: selector "\<lambda>_. True" "\<lambda>ok u. Some (pickLeastConn ok u, u)"
  by unfold_locales (rule pickLeastConn_picks)

interpretation hashed: selector us_ok "\<lambda>ok u. Some (pickRing md5 key ok u, u)" for md5 key
  by unfold_locales (rule pickRing_picks)

lemma pick_picks:
  assumes "us_ok u" and "room 0 u"
  shows "picks (bk_ok now rq tried u) u (pick md5 now rq tried u)"
proof (cases "us_backends u = []")
  case True
  then show ?thesis by (simp add: pick_def picks_def)
next
  case False
  note c = rr.sel_picks [OF assms(2)] least.sel_picks hashed.sel_picks [OF assms(1)]
  show ?thesis using False by (auto simp: pick_def Let_def c split: Policy.split prod.split)
qed

definition demo_pool :: Upstream where
  "demo_pool =
     (let b = \<lparr>bk_id = ''a'', bk_baseURL = ''http://a'', bk_target = None, bk_inflight = 0, bk_sem = Some 0,
                bk_fsm = newHealthFSM 1 1 True, bk_consecFail = 0, bk_ejectUntil = 0\<rparr>
      in \<lparr>us_cfg = \<lparr>lc_Policy = RoundRobin, lc_Shard = ShardNone, lc_Health = None, lc_MaxConns = 2, lc_Replicas = 160\<rparr>,
          us_backends = [''a'', ''b''], us_byID = [(''a'', b), (''b'', b\<lparr>bk_id := ''b'', bk_baseURL := ''http://b''\<rparr>)],
          us_ring = tiny_ring, us_rr = 0, us_inflight = 0, us_passiveThreshold = 1, us_ejectDuration = 30\<rparr>)"

definition demo_request :: lbRequest where
  "demo_request = \<lparr>rq_Key = ''/x'', rq_hasBody = False, rq_routingKey = [], rq_exclude = []\<rparr>"

lemma demo_pool_ok: "us_ok demo_pool"
  using tiny_ring_ok by (auto simp: us_ok_def demo_pool_def Let_def tiny_ring_def owned_def)

lemma demo_fields [simp]: "us_rr demo_pool = 0" "us_backends demo_pool = [''a'', ''b'']"
  by (simp_all add: demo_pool_def Let_def)

text \<open>C25: Whatever the policy, a pick returns a backend of the pool that is healthy, not ejected, under
  its connection cap, not excluded and not tried before, and it returns none only when the pool has no
  such backend.\<close>

theorem pick_sound_complete:
  assumes "us_ok u" and "unat (us_rr u) + length (us_backends u) < 2 ^ 63"
  shows "\<exists>c u'. pick md5 now rq tried u = Some (c, u') \<and>
    (case c of Some k \<Rightarrow> k \<in> set (us_backends u) \<and> bk_ok now rq tried u k
     | None \<Rightarrow> \<forall>k \<in> set (us_backends u). \<not> bk_ok now rq tried u k)"
  using pick_picks [OF assms(1), of now rq tried md5] assms(2) by (auto simp: picks_def room_def)

theorem pick_sound_complete_witness:
  "\<exists>c u'. pick (\<lambda>s j. 0) 7 demo_request [''a''] demo_pool = Some (c, u') \<and>
    (case c of Some k \<Rightarrow> k \<in> set (us_backends demo_pool) \<and> bk_ok 7 demo_request [''a''] demo_pool k
     | None \<Rightarrow> \<forall>k \<in> set (us_backends demo_pool). \<not> bk_ok 7 demo_request [''a''] demo_pool k)"
  by (rule pick_sound_complete [OF demo_pool_ok]) simp

subsection \<open>Reconciling\<close>

lemma desired_backends_set:
  "(k, b) \<in> set (desired_backends no u desired) \<longleftrightarrow>
     (\<exists>e. (k, e) \<in> set desired \<and> (case map_of (us_byID u) k of Some old \<Rightarrow> b = old | None \<Rightarrow> makeBackend no (us_cfg u) e = Some b))"
  by (auto simp: desired_backends_def List.map_filter_def image_iff split: option.splits) force+

lemma desired_backends_distinct: "distinct (map fst desired) \<Longrightarrow> distinct (map fst (desired_backends no u desired))"
proof (induction desired)
  case (Cons x xs)
  obtain k e where x: "x = (k, e)" by fastforce
  have "k \<notin> fst ` set (desired_backends no u xs)" using Cons.prems x desired_backends_set [of k _ no u xs] by force
  then show ?case using Cons x by (auto simp: desired_backends_def split: option.split)
qed (simp add: desired_backends_def)

lemma makeBackend_id: "makeBackend no cfg e = Some b \<Longrightarrow> bk_id b = ep_id e"
  by (auto simp: makeBackend_def Let_def split: if_splits option.splits)

lemma newRing_positive:
  assumes "4 * (((if replicas \<le> 0 then 160 else replicas) + 3) div 4) * int (card (set ids)) \<le> 2 ^ 32"
  shows "\<exists>r. newRing md5 replicas ids = Some r \<and> ring_ok r \<and> set (rg_ids r) = set ids \<and> (\<forall>b \<in> set ids. 0 < owned r b)"
proof -
  define n where "n = (if replicas \<le> 0 then 160 else replicas)"
  have n: "0 < n" "newRing md5 replicas ids = newRing md5 n ids" by (simp_all add: n_def newRing_def defaultReplicas_def)
  have pos: "0 < 4 * ((n + 3) div 4)" using n(1) by auto
  obtain r where r: "newRing md5 n ids = Some r" "ring_ok r" "set (rg_ids r) = set ids" "\<forall>b \<in> set ids. int (owned r b) = 4 * ((n + 3) div 4)"
    using newRing_result [OF n(1), of ids md5] assms unfolding n_def [symmetric] by blast
  then have "\<forall>b \<in> set ids. 0 < owned r b" using pos by (metis of_nat_0_less_iff)
  with r n(2) show ?thesis by simp
qed

text \<open>The pool after a reconcile, as a map.\<close>

definition reconciled :: "(endpoint \<Rightarrow> bool) \<Rightarrow> (string \<times> endpoint) list \<Rightarrow> string list \<Rightarrow> Upstream \<Rightarrow> string \<Rightarrow> backend option" where
  "reconciled no desired failed u k =
     (case map_of (us_byID u) k of
        Some b \<Rightarrow> if k \<in> fst ` set desired \<or> (\<exists>raw. bk_target b = Some raw \<and> raw \<in> set failed) then Some b else None
      | None \<Rightarrow> (case map_of desired k of Some e \<Rightarrow> makeBackend no (us_cfg u) e | None \<Rightarrow> None))"

lemma reconcile_all:
  assumes u: "us_ok u" and d: "distinct (map fst desired)"
    and kept: "kept = desired_backends no u desired"
  shows "distinct (map fst (kept @ retained_backends u kept failed))" (is ?D)
    and "(k, b) \<in> set (kept @ retained_backends u kept failed) \<longleftrightarrow> reconciled no desired failed u k = Some b" (is ?M)
proof -
  have uk: "distinct (map fst (us_byID u))" using u by (simp add: us_ok_def)
  have kd: "distinct (map fst kept)" unfolding kept by (rule desired_backends_distinct [OF d])
  have rd: "distinct (map fst (retained_backends u kept failed))" unfolding retained_backends_def using uk by (rule distinct_map_filter)
  show ?D using kd rd by (auto simp: retained_backends_def intro: rev_image_eqI)
  have old: "(k, b) \<in> set (us_byID u) \<longleftrightarrow> map_of (us_byID u) k = Some b" for b using uk by simp
  have des: "(k, e) \<in> set desired \<longleftrightarrow> map_of desired k = Some e" for e using d by simp
  have inkept: "(k, b) \<in> set kept \<longleftrightarrow>
      (\<exists>e. map_of desired k = Some e \<and> (case map_of (us_byID u) k of Some old \<Rightarrow> b = old | None \<Rightarrow> makeBackend no (us_cfg u) e = Some b))" for b
    unfolding kept desired_backends_set des ..
  have kk: "k \<in> fst ` set kept \<longleftrightarrow> (\<exists>b. (k, b) \<in> set kept)" by force
  have dk: "k \<in> fst ` set desired \<longleftrightarrow> (\<exists>e. map_of desired k = Some e)" using des by force
  show ?M
  proof (cases "map_of (us_byID u) k")
    case None
    then show ?thesis by (auto simp: retained_backends_def reconciled_def old inkept split: option.split)
  next
    case (Some c)
    then have "k \<in> fst ` set kept \<longleftrightarrow> k \<in> fst ` set desired" unfolding kk dk inkept by auto
    then show ?thesis using Some by (auto simp: retained_backends_def reconciled_def old inkept dk split: option.splits)
  qed
qed

text \<open>C27: A reconcile keeps the backend of every endpoint that is still wanted, and of every target that
  failed to resolve, with its health, ejection and requests in flight unchanged; new endpoints get a new
  backend, everything else is dropped, and the ring covers exactly the resulting pool.\<close>

theorem reconcile_preserves:
  assumes "us_ok u" and "distinct (map fst desired)" and "\<forall>(k, e) \<in> set desired. ep_id e = k"
    and "4 * (((if lc_Replicas (us_cfg u) \<le> 0 then 160 else lc_Replicas (us_cfg u)) + 3) div 4) * int (length desired + length (us_byID u)) \<le> 2 ^ 32"
  shows "\<exists>u'. reconcile md5 no desired failed u = Some u' \<and> us_ok u' \<and>
    (\<forall>k. map_of (us_byID u') k =
       (case map_of (us_byID u) k of
          Some b \<Rightarrow> if k \<in> fst ` set desired \<or> (\<exists>raw. bk_target b = Some raw \<and> raw \<in> set failed) then Some b else None
        | None \<Rightarrow> (case map_of desired k of Some e \<Rightarrow> makeBackend no (us_cfg u) e | None \<Rightarrow> None)))"
proof -
  define all where "all = desired_backends no u desired @ retained_backends u (desired_backends no u desired) failed"
  have dist: "distinct (map fst all)" and mem: "\<And>k b. (k, b) \<in> set all \<longleftrightarrow> reconciled no desired failed u k = Some b"
    unfolding all_def using reconcile_all [where no = no and failed = failed, OF assms(1,2) refl] by blast+
  have key: "bk_id b = k" if "(k, b) \<in> set all" for k b
    using that assms(3) us_ok_id [OF assms(1), of k b] makeBackend_id [of no "us_cfg u" _ b]
    unfolding mem reconciled_def by (auto split: option.splits if_splits dest!: map_of_SomeD)
  then have ids: "map (\<lambda>(k, b). bk_id b) all = map fst all" by auto
  have "length (desired_backends no u desired) \<le> length desired" by (simp add: desired_backends_def List.map_filter_def)
  moreover have "length (retained_backends u (desired_backends no u desired) failed) \<le> length (us_byID u)" by (simp add: retained_backends_def)
  ultimately have "length all \<le> length desired + length (us_byID u)" by (simp add: all_def)
  moreover have "card (set (map fst all)) \<le> length all" using card_length [of "map fst all"] by simp
  ultimately have small: "card (set (map fst all)) \<le> length desired + length (us_byID u)" by linarith
  let ?n = "if lc_Replicas (us_cfg u) \<le> 0 then 160 else lc_Replicas (us_cfg u)"
  have "4 * ((?n + 3) div 4) * int (card (set (map fst all))) \<le> 4 * ((?n + 3) div 4) * int (length desired + length (us_byID u))"
    using small by (intro mult_left_mono) auto
  then obtain r where r: "newRing md5 (lc_Replicas (us_cfg u)) (map fst all) = Some r" "ring_ok r" "set (rg_ids r) = set (map fst all)"
      "\<forall>b \<in> set (map fst all). 0 < owned r b"
    using newRing_positive [of "lc_Replicas (us_cfg u)" "map fst all" md5] assms(4) order_trans by blast
  define u' where "u' = u\<lparr>us_backends := map fst all, us_byID := all, us_ring := r\<rparr>"
  have "reconcile md5 no desired failed u = Some u'" unfolding reconcile_def Let_def all_def [symmetric] ids r(1) u'_def by simp
  moreover have "us_ok u'" using r dist key by (auto simp: us_ok_def u'_def)
  moreover have "map_of (us_byID u') k = reconciled no desired failed u k" for k
  proof (cases "reconciled no desired failed u k")
    case None
    then have "k \<notin> fst ` set all" using mem by force
    then show ?thesis using None by (simp add: u'_def map_of_eq_None_iff)
  next
    case (Some b)
    then show ?thesis using mem dist by (simp add: u'_def)
  qed
  ultimately show ?thesis unfolding reconciled_def by blast
qed

theorem reconcile_preserves_witness:
  "\<exists>u'. reconcile (\<lambda>s j. 0) (\<lambda>_. True) [(''a'', \<lparr>ep_id = ''a'', ep_baseURL = ''http://a'', ep_target = ''t''\<rparr>)] [] demo_pool = Some u' \<and>
     map_of (us_byID u') ''a'' = map_of (us_byID demo_pool) ''a'' \<and> map_of (us_byID u') ''b'' = None"
  using reconcile_preserves [OF demo_pool_ok, of "[(''a'', \<lparr>ep_id = ''a'', ep_baseURL = ''http://a'', ep_target = ''t''\<rparr>)]" "\<lambda>s j. 0" "\<lambda>_. True" "[]"]
  by (auto simp: demo_pool_def Let_def)

end
