(* ===== verification/FetchProps.thy ===== *)
theory FetchProps
  imports UpstreamProps
begin

text \<open>
  The failover loop of a fetch: it terminates, its attempts are distinct eligible backends, it gives
  up only when the eligible ones are exhausted, and the requests in flight are counted exactly.
\<close>

subsection \<open>One attempt\<close>

text \<open>Two pools that differ in the state of the backends \<open>ks\<close> and the counters only.\<close>

definition agree :: "string set \<Rightarrow> Upstream \<Rightarrow> Upstream \<Rightarrow> bool" where
  "agree ks u u' \<longleftrightarrow> us_cfg u' = us_cfg u \<and> us_backends u' = us_backends u \<and> us_ring u' = us_ring u \<and>
     (\<forall>k. k \<notin> ks \<longrightarrow> map_of (us_byID u') k = map_of (us_byID u) k)"

lemma agree_refl: "agree ks u u"
  by (simp add: agree_def)

lemma agree_trans: "agree ks u u' \<Longrightarrow> agree ks' u' u'' \<Longrightarrow> agree (ks \<union> ks') u u''"
  by (simp add: agree_def)

lemma map_of_with_backend:
  "map_of (us_byID (with_backend k g u)) j = (if j = k then map_option g (map_of (us_byID u) k) else map_of (us_byID u) j)"
  by (auto simp: with_backend_def update_conv split: option.split)

lemma with_backend_fields [simp]:
  "us_cfg (with_backend k g u) = us_cfg u" "us_backends (with_backend k g u) = us_backends u"
  "us_ring (with_backend k g u) = us_ring u" "us_rr (with_backend k g u) = us_rr u"
  "us_inflight (with_backend k g u) = us_inflight u" "us_passiveThreshold (with_backend k g u) = us_passiveThreshold u"
  "us_ejectDuration (with_backend k g u) = us_ejectDuration u"
  by (simp_all add: with_backend_def split: option.split)

lemma with_backend_agree: "agree {k} u (with_backend k g u)"
  by (simp add: agree_def map_of_with_backend)

lemma with_backend_ok:
  assumes g: "\<And>b. bk_id (g b) = bk_id b" and u: "us_ok u"
  shows "us_ok (with_backend k g u)"
proof (cases "map_of (us_byID u) k")
  case None
  then show ?thesis using u by (simp add: with_backend_def)
next
  case (Some b)
  let ?m = "AList.update k (g b) (us_byID u)"
  have keys: "fst ` set ?m = fst ` set (us_byID u)" using Some by (force simp: dom_update [unfolded update_conv] dest: map_of_SomeD)
  have d: "distinct (map fst ?m)" using u by (simp add: us_ok_def distinct_update)
  have "bk_id c = j" if "(j, c) \<in> set ?m" for j c
  proof -
    have "map_of ?m j = Some c" by (rule map_of_is_SomeI [OF d that])
    then have "(if j = k then Some (g b) else map_of (us_byID u) j) = Some c" by (simp add: update_conv)
    then show ?thesis using Some us_ok_id [OF u] g by (metis option.inject)
  qed
  then show ?thesis using u Some keys d by (auto simp: us_ok_def with_backend_def)
qed

lemma us_ok_counter [simp]: "us_ok (u\<lparr>us_inflight := n\<rparr>) = us_ok u" "us_ok (u\<lparr>us_rr := w\<rparr>) = us_ok u"
  by (simp_all add: us_ok_def)

lemma passive_id [simp]: "bk_id (passiveSuccess b) = bk_id b" "bk_id (passiveFailure t n d b) = bk_id b"
  "bk_inflight (passiveSuccess b) = bk_inflight b" "bk_inflight (passiveFailure t n d b) = bk_inflight b"
  by (simp_all add: passiveSuccess_def passiveFailure_def Let_def)

definition outcome_upd :: "Upstream \<Rightarrow> int \<Rightarrow> fetch_error option \<Rightarrow> backend \<Rightarrow> backend" where
  "outcome_upd u now e =
     (if e = None \<or> \<not> (StatusOf (the e) = 0 \<or> (500 \<le> StatusOf (the e) \<and> StatusOf (the e) \<le> 599)) then passiveSuccess
      else passiveFailure (us_passiveThreshold u) now (us_ejectDuration u))"

lemma recordOutcome_with: "\<exists>g. recordOutcome now k e u = with_backend k g u \<and> (\<forall>b. bk_id (g b) = bk_id b \<and> bk_inflight (g b) = bk_inflight b)"
  by (rule exI [of _ "outcome_upd u now e"]) (cases e; simp add: recordOutcome_def outcome_upd_def Let_def)

lemma recordOutcome_ok: "us_ok u \<Longrightarrow> us_ok (recordOutcome now k e u)"
  using recordOutcome_with [of now k e u] with_backend_ok by metis

lemma us_release_ok: "us_ok u \<Longrightarrow> us_ok (us_release k u)"
  by (simp add: us_release_def with_backend_ok)

definition in_flight :: "Upstream \<Rightarrow> string \<Rightarrow> int option" where
  "in_flight u k = map_option bk_inflight (map_of (us_byID u) k)"

lemma in_flight_record: "in_flight (recordOutcome now k e u) j = in_flight u j \<and> us_inflight (recordOutcome now k e u) = us_inflight u"
proof -
  obtain g where g: "recordOutcome now k e u = with_backend k g u" "\<forall>b. bk_inflight (g b) = bk_inflight b"
    using recordOutcome_with [of now k e u] by blast
  then show ?thesis by (auto simp: in_flight_def map_of_with_backend option.map_comp o_def)
qed

lemma in_flight_release:
  "in_flight (us_release k u) j = (if j = k then map_option (\<lambda>n. n - 1) (in_flight u j) else in_flight u j)"
  "us_inflight (us_release k u) = us_inflight u - 1"
  by (auto simp: in_flight_def us_release_def map_of_with_backend option.map_comp o_def)

definition acquire :: "string \<Rightarrow> Upstream \<Rightarrow> Upstream" where
  "acquire k u = (with_backend k (\<lambda>b. b\<lparr>bk_inflight := bk_inflight b + 1, bk_sem := map_option (\<lambda>n. n + 1) (bk_sem b)\<rparr>) u)
     \<lparr>us_inflight := us_inflight u + 1\<rparr>"

definition at_cap :: "string \<Rightarrow> Upstream \<Rightarrow> bool" where
  "at_cap k u = (case map_of (us_byID u) k of None \<Rightarrow> False
     | Some b \<Rightarrow> (case bk_sem b of None \<Rightarrow> False | Some n \<Rightarrow> n \<ge> lc_MaxConns (us_cfg u)))"

lemma fetchOne_cases:
  "fetchOne org now k u =
     (if at_cap k u then (Some errAtCapacity, u)
      else (org k, recordOutcome now k (org k) (if org k = None then acquire k u else us_release k (acquire k u))))"
  by (auto simp: fetchOne_def at_cap_def acquire_def Let_def split: option.split)

lemma in_flight_acquire:
  "in_flight (acquire k u) j = (if j = k then map_option (\<lambda>n. n + 1) (in_flight u j) else in_flight u j)"
  "us_inflight (acquire k u) = us_inflight u + 1"
  by (auto simp: in_flight_def acquire_def map_of_with_backend option.map_comp o_def)

lemma acquire_ok: "us_ok u \<Longrightarrow> us_ok (acquire k u)"
  by (simp add: acquire_def with_backend_ok)

lemma fetchOne_ok: "us_ok u \<Longrightarrow> us_ok (snd (fetchOne org now k u))"
  by (simp add: fetchOne_cases recordOutcome_ok us_release_ok acquire_ok)

lemma agree_release: "agree {k} u (us_release k u)" and agree_acquire: "agree {k} u (acquire k u)" and agree_record: "agree {k} u (recordOutcome now k e u)"
  using recordOutcome_with [of now k e u] with_backend_agree [of k u] by (auto simp: us_release_def acquire_def agree_def map_of_with_backend)

lemma fetchOne_agree: "agree {k} u (snd (fetchOne org now k u))"
proof -
  have "agree {k} u (if org k = None then acquire k u else us_release k (acquire k u))"
    using agree_trans [OF agree_acquire [of k u] agree_release [of k]] agree_acquire [of k u] by simp
  from agree_trans [OF this agree_record [of k _ now "org k"]] show ?thesis by (simp add: fetchOne_cases agree_refl)
qed

lemma rr_record: "us_rr (recordOutcome now k e u) = us_rr u"
  using recordOutcome_with [of now k e u] by auto

lemma fetchOne_rr: "us_rr (snd (fetchOne org now k u)) = us_rr u"
  by (simp add: fetchOne_cases rr_record us_release_def acquire_def)

text \<open>A failed attempt leaves the counters as they were; a successful one adds one request.\<close>

lemma fetchOne_in_flight:
  "in_flight (snd (fetchOne org now k u)) j =
     (if j = k \<and> fst (fetchOne org now k u) = None then map_option (\<lambda>n. n + 1) (in_flight u j) else in_flight u j)"
  "us_inflight (snd (fetchOne org now k u)) = us_inflight u + (if fst (fetchOne org now k u) = None then 1 else 0)"
  by (auto simp: fetchOne_cases in_flight_record in_flight_release in_flight_acquire option.map_comp o_def option.map_ident)

text \<open>The outcome of an attempt depends on the state of its backend only.\<close>

definition attempt :: "(string \<Rightarrow> fetch_error option) \<Rightarrow> string \<Rightarrow> Upstream \<Rightarrow> fetch_error option" where
  "attempt org k u = (if at_cap k u then Some errAtCapacity else org k)"

lemma fetchOne_fst: "fst (fetchOne org now k u) = attempt org k u"
  by (simp add: fetchOne_cases attempt_def)

lemma attempt_agree: "agree ks u u' \<Longrightarrow> k \<notin> ks \<Longrightarrow> attempt org k u' = attempt org k u"
proof -
  assume "agree ks u u'" "k \<notin> ks"
  then have "at_cap k u' = at_cap k u" unfolding agree_def at_cap_def by metis
  then show ?thesis by (simp add: attempt_def)
qed

lemma bk_ok_agree:
  assumes "us_ok u'" and "us_ok u" and "agree (set tried) u u'"
  shows "bk_ok now rq tried u' k \<longleftrightarrow> k \<notin> set tried \<and> bk_ok now rq [] u k"
proof (cases "k \<in> set tried")
  case True
  then show ?thesis using us_ok_id [OF assms(1), of k] by (auto simp: bk_ok_def split: option.split)
next
  case False
  then have same: "map_of (us_byID u') k = map_of (us_byID u) k" "us_cfg u' = us_cfg u" using assms(3) by (simp_all add: agree_def)
  show ?thesis
  proof (cases "map_of (us_byID u) k")
    case (Some b)
    then show ?thesis using False us_ok_id [OF assms(2) Some] by (simp add: bk_ok_def same)
  qed (simp add: bk_ok_def same)
qed

subsection \<open>The loop\<close>

text \<open>What a fetch that started in the pool \<open>u\<close> and tried \<open>tr\<close> may return.\<close>

definition fetched ::
  "(nat \<Rightarrow> bool) \<Rightarrow> (string \<Rightarrow> fetch_error option) \<Rightarrow> (nat \<Rightarrow> int \<times> int) \<Rightarrow> lbRequest \<Rightarrow> Upstream \<Rightarrow> fetch_error + string \<Rightarrow> string list \<Rightarrow> bool" where
  "fetched cancelled org now rq u res tr \<longleftrightarrow>
     distinct tr \<and> (\<forall>i < length tr. bk_ok (fst (now i)) rq [] u (tr ! i)) \<and> (rq_hasBody rq \<longrightarrow> length tr \<le> 1) \<and>
     (\<forall>k \<in> set (butlast tr). \<exists>e. attempt org k u = Some e \<and> retriable e) \<and>
     (case res of
        Inr k \<Rightarrow> tr \<noteq> [] \<and> last tr = k \<and> attempt org k u = None
      | Inl e \<Rightarrow>
          (if tr = [] then e = CtxError \<or> e = ErrNoBackend else attempt org (last tr) u = Some e) \<and>
          (cancelled (length tr) \<or> (tr \<noteq> [] \<and> (\<not> retriable e \<or> rq_hasBody rq)) \<or>
           (\<forall>k \<in> set (us_backends u). bk_ok (fst (now (length tr))) rq [] u k \<longrightarrow> k \<in> set tr)))"

lemma last_error:
  assumes "tr \<noteq> [] \<longrightarrow> lastErr = attempt org (last tr) u" "tr = [] \<longrightarrow> lastErr = None"
    and "\<forall>k \<in> set tr. \<exists>e. attempt org k u = Some e \<and> retriable e"
    and "d = CtxError \<or> d = ErrNoBackend"
  shows "if tr = [] then (case lastErr of Some e \<Rightarrow> e | None \<Rightarrow> d) = CtxError \<or> (case lastErr of Some e \<Rightarrow> e | None \<Rightarrow> d) = ErrNoBackend
    else attempt org (last tr) u = Some (case lastErr of Some e \<Rightarrow> e | None \<Rightarrow> d)"
proof (cases "tr = []")
  case False
  then obtain e where "attempt org (last tr) u = Some e" using assms(3) last_in_set by blast
  then show ?thesis using False assms(1) by simp
qed (use assms in auto)

lemma fetch_loop_spec:
  assumes u0: "us_ok u0"
  shows "us_ok u \<Longrightarrow> agree (set tr) u0 u \<Longrightarrow> distinct tr \<Longrightarrow> room (length (us_backends u0) - length tr) u \<Longrightarrow>
    \<forall>i < length tr. bk_ok (fst (now i)) rq [] u0 (tr ! i) \<Longrightarrow> \<forall>k \<in> set tr. \<exists>e. attempt org k u0 = Some e \<and> retriable e \<Longrightarrow>
    tr \<noteq> [] \<longrightarrow> lastErr = attempt org (last tr) u0 \<Longrightarrow> tr = [] \<longrightarrow> lastErr = None \<Longrightarrow>
    tr \<noteq> [] \<longrightarrow> \<not> rq_hasBody rq \<Longrightarrow>
    \<exists>res tr' u'. fetch_loop md5 cancelled org now rq tr lastErr u = Some (res, tr', u') \<and> fetched cancelled org now rq u0 res tr'"
proof (induction "length (us_backends u0) - length tr" arbitrary: tr lastErr u rule: less_induct)
  case less
  note p = less.prems
  let ?t = "fst (now (length tr))" and ?t' = "snd (now (length tr))"
  note [simp] = fetch_loop.simps [of md5 cancelled org now rq tr lastErr u]
  have err: "fetched cancelled org now rq u0 (Inl (case lastErr of Some e \<Rightarrow> e | None \<Rightarrow> d)) tr"
    if "d = CtxError \<or> d = ErrNoBackend" "cancelled (length tr) \<or> (\<forall>k \<in> set (us_backends u0). bk_ok ?t rq [] u0 k \<longrightarrow> k \<in> set tr)" for d
    using last_error [OF p(7,8,6) that(1)] that(2) p(3,5,6,9) by (auto simp: fetched_def dest: in_set_butlastD)
  have bs: "us_backends u = us_backends u0" using p(2) by (simp add: agree_def)
  have ok: "bk_ok ?t rq tr u k \<longleftrightarrow> k \<notin> set tr \<and> bk_ok ?t rq [] u0 k" for k by (rule bk_ok_agree [OF p(1) u0 p(2)])
  show ?case
  proof (cases "cancelled (length tr)")
    case True
    then show ?thesis using err [of CtxError] by simp
  next
    case False
    have "room 0 u" using p(4) by (simp add: room_def)
    then obtain c v where c: "pick md5 ?t rq tr u = Some (c, v)" and v: "v = u \<or> v = u\<lparr>us_rr := us_rr u + 1\<rparr>"
        and ch: "case c of Some k \<Rightarrow> k \<in> set (us_backends u) \<and> bk_ok ?t rq tr u k | None \<Rightarrow> \<forall>k \<in> set (us_backends u). \<not> bk_ok ?t rq tr u k"
      using pick_picks [OF p(1), of ?t rq tr md5] unfolding picks_def by blast
    show ?thesis
    proof (cases c)
      case None
      have "\<forall>k \<in> set (us_backends u0). bk_ok ?t rq [] u0 k \<longrightarrow> k \<in> set tr" using ch None bs ok by auto
      then show ?thesis using err [of ErrNoBackend] False c None by simp
    next
      case (Some k)
      have k: "k \<in> set (us_backends u0)" "k \<notin> set tr" "bk_ok ?t rq [] u0 k" using ch Some bs ok by auto
      have vo: "us_ok v" "agree (set tr) u0 v" using v p(1,2) by (auto simp: agree_def)
      obtain r w where f: "fetchOne org ?t' k v = (r, w)" by fastforce
      have r: "attempt org k u0 = r" using attempt_agree [OF vo(2) k(2), of org] fetchOne_fst [of org ?t' k v] f by simp
      have loop: "fetch_loop md5 cancelled org now rq tr lastErr u =
          (case r of None \<Rightarrow> Some (Inr k, tr @ [k], w)
           | Some e \<Rightarrow> if \<not> retriable e \<or> rq_hasBody rq then Some (Inl e, tr @ [k], w) else fetch_loop md5 cancelled org now rq (tr @ [k]) (Some e) w)"
        using False c Some f by (simp split: option.split)
      have base: "distinct (tr @ [k])" "\<forall>i < length (tr @ [k]). bk_ok (fst (now i)) rq [] u0 ((tr @ [k]) ! i)" "rq_hasBody rq \<longrightarrow> length (tr @ [k]) \<le> 1"
        using p(3,5,9) k by (auto simp: nth_append less_Suc_eq)
      show ?thesis
      proof (cases "\<exists>e. r = Some e \<and> retriable e \<and> \<not> rq_hasBody rq")
        case False
        then show ?thesis using loop base r p(6) unfolding fetched_def by (auto split: option.splits)
      next
        case True
        then obtain e where e: "r = Some e" "retriable e" "\<not> rq_hasBody rq" by blast
        have wo: "us_ok w" using fetchOne_ok [OF vo(1), of org ?t' k] f by simp
        have wa: "agree (set (tr @ [k])) u0 w" using agree_trans [OF vo(2) fetchOne_agree [of k v org ?t']] f by simp
        have len: "length tr < length (us_backends u0)"
        proof -
          have "set tr \<subseteq> set (us_backends u0)" using p(5) bk_ok_member [OF u0] by (metis in_set_conv_nth subsetI)
          then have "card (set tr) < card (set (us_backends u0))" using k by (intro psubset_card_mono) auto
          then show ?thesis using distinct_card [OF p(3)] card_length [of "us_backends u0"] by linarith
        qed
        have rr: "us_rr w = us_rr v" using fetchOne_rr [of org ?t' k v] f by simp
        have rv: "unat (us_rr v) \<le> unat (us_rr u) + 1" using v by (auto simp: unat_word_ariths intro: mod_less_eq_dividend)
        have wb: "us_backends w = us_backends u" using wa bs by (simp add: agree_def)
        have ro: "room (length (us_backends u0) - length (tr @ [k])) w"
          using p(4) len rv unfolding room_def rr wb by simp
        have shorter: "length (us_backends u0) - length (tr @ [k]) < length (us_backends u0) - length tr" using len by simp
        have "\<exists>res tr' u'. fetch_loop md5 cancelled org now rq (tr @ [k]) (Some e) w = Some (res, tr', u') \<and> fetched cancelled org now rq u0 res tr'"
          by (rule less.hyps [OF shorter wo wa base(1) ro base(2)]) (use p(6) r e in simp_all)
        moreover have "fetch_loop md5 cancelled org now rq tr lastErr u = fetch_loop md5 cancelled org now rq (tr @ [k]) (Some e) w"
          unfolding loop using e by simp
        ultimately show ?thesis by (simp only:)
      qed
    qed
  qed
qed

lemma Fetch_spec:
  assumes "us_ok u" and "unat (us_rr u) + 2 * length (us_backends u) < 2 ^ 63"
  shows "\<exists>res tr u'. Fetch md5 cancelled org now rq u = Some (res, tr, u') \<and> fetched cancelled org now rq u res tr"
  unfolding Fetch_def using assms by (intro fetch_loop_spec) (simp_all add: agree_refl room_def)

text \<open>C6: A fetch always returns, in a pool that other requests leave alone and before the round-robin
  cursor overflows. It tries distinct backends, each of them healthy, under its cap and not excluded at
  the instant it is picked, and at most one when the request has a body. Every attempt but the last
  failed with a retriable error. The outcome of the fetch is the outcome of the last attempt, and only a
  fetch without an attempt reports a cancelled request or that there is no backend.\<close>

theorem fetch_failover:
  assumes "us_ok u" and "unat (us_rr u) + 2 * length (us_backends u) < 2 ^ 63"
  shows "\<exists>res tr u'. Fetch md5 cancelled org now rq u = Some (res, tr, u') \<and>
    distinct tr \<and> (\<forall>i < length tr. bk_ok (fst (now i)) rq [] u (tr ! i)) \<and> (rq_hasBody rq \<longrightarrow> length tr \<le> 1) \<and>
    (\<forall>i < length tr - 1. \<exists>e. fst (fetchOne org (snd (now i)) (tr ! i) u) = Some e \<and> retriable e) \<and>
    (case res of
       Inr k \<Rightarrow> tr \<noteq> [] \<and> last tr = k \<and> fst (fetchOne org (snd (now (length tr - 1))) k u) = None
     | Inl e \<Rightarrow> if tr = [] then e = CtxError \<or> e = ErrNoBackend
        else fst (fetchOne org (snd (now (length tr - 1))) (last tr) u) = Some e)"
proof -
  obtain res tr u' where r: "Fetch md5 cancelled org now rq u = Some (res, tr, u')" "fetched cancelled org now rq u res tr"
    using Fetch_spec [OF assms, of md5 cancelled org now rq] by blast
  have "tr ! i \<in> set (butlast tr)" if "i < length tr - 1" for i
    using that nth_mem [of i "butlast tr"] by (simp add: nth_butlast)
  then have "\<forall>i < length tr - 1. \<exists>e. attempt org (tr ! i) u = Some e \<and> retriable e" using r(2) unfolding fetched_def by blast
  moreover have "distinct tr" "\<forall>i < length tr. bk_ok (fst (now i)) rq [] u (tr ! i)" "rq_hasBody rq \<longrightarrow> length tr \<le> 1"
      "case res of Inr k \<Rightarrow> tr \<noteq> [] \<and> last tr = k \<and> attempt org k u = None
       | Inl e \<Rightarrow> if tr = [] then e = CtxError \<or> e = ErrNoBackend else attempt org (last tr) u = Some e"
    using r(2) by (simp_all add: fetched_def split: sum.splits)
  ultimately show ?thesis using r(1) unfolding fetchOne_fst by blast
qed

theorem fetch_failover_witness:
  "\<exists>res tr u'. Fetch (\<lambda>s j. 0) (\<lambda>_. False) (\<lambda>k. if k = ''a'' then Some (StatusError 503) else None) (\<lambda>n. (7, 7)) demo_request demo_pool = Some (res, tr, u') \<and>
     distinct tr \<and> (\<forall>i < length tr. bk_ok 7 demo_request [] demo_pool (tr ! i))"
  using fetch_failover [OF demo_pool_ok, of "\<lambda>s j. 0" "\<lambda>_. False" "\<lambda>k. if k = ''a'' then Some (StatusError 503) else None" "\<lambda>n. (7, 7)" demo_request]
  by auto

text \<open>C39: A fetch of a request without a body that is not cancelled and ends in a retriable error, or without
  an attempt, has tried every backend of the pool that is eligible when it gives up. The round-robin cursor
  has not come near the sign bit.\<close>

theorem fetch_exhaustive:
  assumes "us_ok u" and "unat (us_rr u) + 2 * length (us_backends u) < 2 ^ 63"
    and "\<forall>n. \<not> cancelled n" and "\<not> rq_hasBody rq"
    and "Fetch md5 cancelled org now rq u = Some (Inl e, tr, u')" and "tr = [] \<or> retriable e"
  shows "\<forall>k \<in> set (us_backends u). bk_ok (fst (now (length tr))) rq [] u k \<longrightarrow> k \<in> set tr"
proof -
  have "fetched cancelled org now rq u (Inl e) tr"
    using Fetch_spec [OF assms(1,2), of md5 cancelled org now rq] assms(5) by auto
  then show ?thesis using assms(3,4,6) unfolding fetched_def by auto
qed

lemma demo_fetch_fails: "map_option (\<lambda>(r, tr, u). (r, tr)) (Fetch (\<lambda>s j. 0) (\<lambda>_. False) (\<lambda>k. Some ConnError) (\<lambda>n. (7, 7)) demo_request demo_pool) = Some (Inl ConnError, [''a'', ''b''])"
  by code_simp

theorem fetch_exhaustive_witness:
  "\<exists>tr u'. Fetch (\<lambda>s j. 0) (\<lambda>_. False) (\<lambda>k. Some ConnError) (\<lambda>n. (7, 7)) demo_request demo_pool = Some (Inl ConnError, tr, u') \<and>
     (\<forall>k \<in> {''a'', ''b''}. bk_ok 7 demo_request [] demo_pool k \<longrightarrow> k \<in> set tr)"
proof -
  obtain tr u' where f: "Fetch (\<lambda>s j. 0) (\<lambda>_. False) (\<lambda>k. Some ConnError) (\<lambda>n. (7, 7)) demo_request demo_pool = Some (Inl ConnError, tr, u')"
    using demo_fetch_fails by auto
  have "\<forall>k \<in> set (us_backends demo_pool). bk_ok (fst ((\<lambda>n. (7, 7)) (length tr) :: int \<times> int)) demo_request [] demo_pool k \<longrightarrow> k \<in> set tr"
    by (rule fetch_exhaustive [OF demo_pool_ok _ _ _ f]) (simp_all add: demo_request_def retriable_def StatusOf_def)
  with f show ?thesis by auto
qed

subsection \<open>Requests in flight\<close>

lemma pick_result: "pick md5 now rq tried u = Some (c, v) \<Longrightarrow> v = u \<or> v = u\<lparr>us_rr := us_rr u + 1\<rparr>"
  by (auto simp: pick_def pickRoundRobin_def Let_def split: if_splits Policy.splits prod.splits option.splits)

definition counted :: "Upstream \<Rightarrow> fetch_error + string \<Rightarrow> Upstream \<Rightarrow> bool" where
  "counted u res u' \<longleftrightarrow>
     us_inflight u' = us_inflight u + (case res of Inr _ \<Rightarrow> 1 | Inl _ \<Rightarrow> 0) \<and>
     (\<forall>j. in_flight u' j = (if res = Inr j then map_option (\<lambda>n. n + 1) (in_flight u j) else in_flight u j))"

lemma fetch_loop_counted:
  assumes "fetch_loop md5 cancelled org now rq tr lastErr u = Some (res, tr', u')"
  shows "counted u res u'"
proof -
  have "case x of (res, tr', u') \<Rightarrow> counted u res u'" if "fetch_loop md5 cancelled org now rq tr lastErr u = Some x" for x
    using that
  proof (induction md5 cancelled org now rq tr lastErr u x rule: fetch_loop.raw_induct [rotated 1, consumes 1])
    case (1 fl md5 cancelled org now rq tr lastErr u x)
    show ?case
    proof (cases "cancelled (length tr)")
      case True
      then show ?thesis using 1(2) by (auto simp: counted_def)
    next
      case False
      then obtain c v where c: "pick md5 (fst (now (length tr))) rq tr u = Some (c, v)" using 1(2) by (auto split: option.splits)
      have v: "us_inflight v = us_inflight u" "in_flight v = in_flight u" using pick_result [OF c] by (auto simp: in_flight_def)
      show ?thesis
      proof (cases c)
        case None
        then show ?thesis using 1(2) False c v by (auto simp: counted_def)
      next
        case (Some k)
        obtain r w where f: "fetchOne org (snd (now (length tr))) k v = (r, w)" by fastforce
        have w: "in_flight w j = (if j = k \<and> r = None then map_option (\<lambda>n. n + 1) (in_flight u j) else in_flight u j)"
            "us_inflight w = us_inflight u + (if r = None then 1 else 0)" for j
          using fetchOne_in_flight [of org "snd (now (length tr))" k v] f v by simp_all
        show ?thesis
        proof (cases "\<exists>e. r = Some e \<and> retriable e \<and> \<not> rq_hasBody rq")
          case True
          then obtain e where e: "r = Some e" "retriable e" "\<not> rq_hasBody rq" by blast
          then have "fl md5 cancelled org now rq (tr @ [k]) (Some e) w = Some x" using 1(2) False c Some f by simp
          from 1(1) [OF this] w e show ?thesis by (auto simp: counted_def)
        next
          case fin: False
          then show ?thesis using 1(2) False c Some f w by (auto simp: counted_def split: option.splits if_splits)
        qed
      qed
    qed
  qed
  from this [OF assms] show ?thesis by simp
qed

text \<open>C26: The requests in flight are counted exactly: after a fetch the backend that serves the response,
  and the pool, count one request more and every other counter is as before, also after failed attempts
  on other backends; closing the body, once or twice, restores every counter.\<close>

theorem fetch_accounting:
  assumes "Fetch md5 cancelled org now rq u = Some (Inr k, tr, u')"
    and "trackedBody_Close \<lparr>tb_backend = k, tb_done = False\<rparr> u' = (t, v)" and "trackedBody_Close t v = (t', v')"
  shows "us_inflight u' = us_inflight u + 1 \<and>
    (\<forall>j. in_flight u' j = (if j = k then map_option (\<lambda>n. n + 1) (in_flight u j) else in_flight u j)) \<and>
    us_inflight v = us_inflight u \<and> (\<forall>j. in_flight v j = in_flight u j) \<and> v' = v"
proof -
  have c: "counted u (Inr k) u'" using fetch_loop_counted assms(1) unfolding Fetch_def by blast
  have "v = us_release k u'" "v' = v" using assms(2,3) by (auto simp: trackedBody_Close_def)
  then show ?thesis using c by (auto simp: counted_def in_flight_release option.map_comp o_def option.map_ident)
qed

lemma demo_fetch_succeeds: "map_option (\<lambda>(r, tr, u). r) (Fetch (\<lambda>s j. 0) (\<lambda>_. False) (\<lambda>k. if k = ''a'' then Some (StatusError 503) else None) (\<lambda>n. (7, 7)) demo_request demo_pool) = Some (Inr ''b'')"
  by code_simp

theorem fetch_accounting_witness:
  "\<exists>tr u'. Fetch (\<lambda>s j. 0) (\<lambda>_. False) (\<lambda>k. if k = ''a'' then Some (StatusError 503) else None) (\<lambda>n. (7, 7)) demo_request demo_pool = Some (Inr ''b'', tr, u') \<and>
     us_inflight u' = 1 \<and> in_flight u' ''a'' = Some 0 \<and> in_flight u' ''b'' = Some 1"
proof -
  obtain tr u' where f: "Fetch (\<lambda>s j. 0) (\<lambda>_. False) (\<lambda>k. if k = ''a'' then Some (StatusError 503) else None) (\<lambda>n. (7, 7)) demo_request demo_pool = Some (Inr ''b'', tr, u')"
    using demo_fetch_succeeds by auto
  obtain t v where v: "trackedBody_Close \<lparr>tb_backend = ''b'', tb_done = False\<rparr> u' = (t, v)" by fastforce
  obtain t' v' where v': "trackedBody_Close t v = (t', v')" by fastforce
  have start: "us_inflight demo_pool = 0" "in_flight demo_pool ''a'' = Some 0" "in_flight demo_pool ''b'' = Some 0"
    by (simp_all add: in_flight_def demo_pool_def Let_def)
  note c = fetch_accounting [OF f v v']
  have "us_inflight u' = 1" "in_flight u' ''a'' = Some 0" "in_flight u' ''b'' = Some 1" using c start by simp_all
  with f show ?thesis by blast
qed

end
