(* ===== verification/RateLimit.thy ===== *)
theory RateLimit
  imports Prelude Complex_Main "HOL-Library.Word"
begin

unbundle bit_operations_syntax

text \<open>
  The token-bucket rate limiter, \<open>internal/ratelimit/limiter.go\<close>. Tokens and rates are rational numbers,
  so the rounding of \<open>float64\<close> is not modelled. Instants and durations are nanoseconds. The seeded hash of
  a key is a parameter.
\<close>

definition numShards :: nat where "numShards = 64"

definition idleTTL :: int where "idleTTL = 10 * 60 * 1000000000"

definition maxBucketsPerShard :: nat where "maxBucketsPerShard = 4096"

record Rule =
  rl_RatePerSec :: rat
  rl_Burst :: int

definition capacity :: "Rule \<Rightarrow> rat" where
  "capacity r = (let c = of_int (rl_Burst r) in if c < 1 then 1 else c)"

record Decision =
  dc_OK :: bool
  dc_RetryAfter :: int

record bucket =
  bu_tokens :: rat
  bu_lastFill :: int
  bu_lastSeen :: int

type_synonym rl_shard = "bucket gomap"

record Limiter =
  li_shards :: "rl_shard list"

definition evictOldestLocked :: "nat \<Rightarrow> rl_shard \<Rightarrow> rl_shard" where
  "evictOldestLocked target bs =
     (if length bs \<le> target then bs
      else
        let times = sort (map (\<lambda>(k, b). bu_lastSeen b) bs); cutoff = times ! (length times - target)
        in filter (\<lambda>(k, b). \<not> bu_lastSeen b < cutoff) bs)"

definition NewLimiter :: Limiter where
  "NewLimiter = \<lparr>li_shards = replicate numShards []\<rparr>"

definition rl_shardIndex :: "(string \<Rightarrow> 64 word) \<Rightarrow> string \<Rightarrow> nat" where
  "rl_shardIndex hash key = unat (hash key AND 63)"

definition refill :: "Rule \<Rightarrow> int \<Rightarrow> bucket \<Rightarrow> bucket" where
  "refill r now b =
     (let elapsed = now - bu_lastFill b in
      if elapsed > 0 then
        let t = bu_tokens b + rl_RatePerSec r * (of_int elapsed / 1000000000)
        in b\<lparr>bu_tokens := (if t > capacity r then capacity r else t), bu_lastFill := now\<rparr>
      else b)"

definition retry_after :: "Rule \<Rightarrow> rat \<Rightarrow> int" where
  "retry_after r tokens =
     (if rl_RatePerSec r > 0 then
        let retry = \<lfloor>(1 - tokens) / rl_RatePerSec r * 1000000000\<rfloor> in if retry \<le> 0 then 1 else retry
      else idleTTL)"

text \<open>The call under the lock of the shard.\<close>

definition shard_Allow :: "int \<Rightarrow> string \<Rightarrow> Rule \<Rightarrow> rl_shard \<Rightarrow> Decision \<times> rl_shard" where
  "shard_Allow now key r bs =
     (let (b, bs) =
        (case map_of bs key of
           None \<Rightarrow>
             (\<lparr>bu_tokens = capacity r, bu_lastFill = now, bu_lastSeen = now\<rparr>,
              if length bs \<ge> maxBucketsPerShard then evictOldestLocked (maxBucketsPerShard * 7 div 8) bs else bs)
         | Some b \<Rightarrow> (refill r now b, bs));
          b = b\<lparr>bu_lastSeen := now\<rparr>
      in if bu_tokens b \<ge> 1
         then (\<lparr>dc_OK = True, dc_RetryAfter = 0\<rparr>, AList.update key (b\<lparr>bu_tokens := bu_tokens b - 1\<rparr>) bs)
         else (\<lparr>dc_OK = False, dc_RetryAfter = retry_after r (bu_tokens b)\<rparr>, AList.update key b bs))"

text \<open>\<^const>\<open>None\<close> is the nil limiter, which admits everything.\<close>

definition Allow :: "(string \<Rightarrow> 64 word) \<Rightarrow> int \<Rightarrow> string \<Rightarrow> Rule \<Rightarrow> Limiter option \<Rightarrow> Decision \<times> Limiter option" where
  "Allow hash now key r l =
     (case l of
        None \<Rightarrow> (\<lparr>dc_OK = True, dc_RetryAfter = 0\<rparr>, None)
      | Some l \<Rightarrow>
          let i = rl_shardIndex hash key; (d, sh) = shard_Allow now key r (li_shards l ! i)
          in (d, Some (l\<lparr>li_shards := (li_shards l)[i := sh]\<rparr>)))"

definition limiter_Len :: "Limiter option \<Rightarrow> nat" where
  "limiter_Len l = (case l of None \<Rightarrow> 0 | Some l \<Rightarrow> sum_list (map length (li_shards l)))"

definition limiter_sweep :: "int \<Rightarrow> Limiter option \<Rightarrow> Limiter option" where
  "limiter_sweep now l =
     (case l of
        None \<Rightarrow> None
      | Some l \<Rightarrow>
          let cutoff = now - idleTTL
          in Some (l\<lparr>li_shards := map (filter (\<lambda>(k, b). \<not> bu_lastSeen b < cutoff)) (li_shards l)\<rparr>))"

definition RetryAfterSeconds :: "int \<Rightarrow> int" where
  "RetryAfterSeconds d = (let s = \<lceil>of_int d / (1000000000 :: rat)\<rceil> in if s < 1 then 1 else s)"

subsection \<open>One bucket\<close>

lemma rl_shardIndex_less: "rl_shardIndex hash key < numShards"
proof -
  have "unat (hash key AND 63) \<le> unat (63 :: 64 word)" by (intro word_le_nat_alt [THEN iffD1] word_and_le1)
  then show ?thesis by (simp add: rl_shardIndex_def numShards_def)
qed

lemma capacity_ge_1: "1 \<le> capacity r"
  by (simp add: capacity_def Let_def)

text \<open>The tokens a rule yields in a span of time.\<close>

definition gain :: "Rule \<Rightarrow> int \<Rightarrow> rat" where
  "gain r d = rl_RatePerSec r * (of_int d / 1000000000)"

lemma gain_add: "gain r (a + b) = gain r a + gain r b"
  by (simp add: gain_def add_divide_distrib distrib_left)

lemma gain_mono: "0 \<le> rl_RatePerSec r \<Longrightarrow> a \<le> b \<Longrightarrow> gain r a \<le> gain r b"
  unfolding gain_def by (intro mult_left_mono divide_right_mono) simp_all

lemma gain_nonneg: "0 \<le> rl_RatePerSec r \<Longrightarrow> 0 \<le> a \<Longrightarrow> 0 \<le> gain r a"
  by (simp add: gain_def)

lemma gain_0 [simp]: "gain r 0 = 0"
  by (simp add: gain_def)

lemma refill_gain:
  "refill r now b = (if bu_lastFill b < now then b\<lparr>bu_tokens := min (capacity r) (bu_tokens b + gain r (now - bu_lastFill b)), bu_lastFill := now\<rparr> else b)"
  by (auto simp: refill_def gain_def Let_def min_def)

text \<open>The tokens a key could spend now: those of its bucket with what it has gained since, or the whole
  capacity when it has no bucket.\<close>

definition avail :: "Rule \<Rightarrow> int \<Rightarrow> bucket option \<Rightarrow> rat" where
  "avail r now ob = (case ob of None \<Rightarrow> capacity r | Some b \<Rightarrow> min (capacity r) (bu_tokens b + gain r (now - bu_lastFill b)))"

definition bucket_ok :: "Rule \<Rightarrow> int \<Rightarrow> bucket option \<Rightarrow> bool" where
  "bucket_ok r now ob =
     (case ob of
        None \<Rightarrow> True
      | Some b \<Rightarrow> 0 \<le> bu_tokens b \<and> bu_tokens b \<le> capacity r \<and> bu_lastFill b \<le> bu_lastSeen b \<and> bu_lastSeen b \<le> now)"

lemma avail_capacity: "avail r now ob \<le> capacity r"
  by (simp add: avail_def split: option.split)

lemma avail_nonneg: "bucket_ok r now ob \<Longrightarrow> 0 \<le> rl_RatePerSec r \<Longrightarrow> 0 \<le> avail r now ob"
  using capacity_ge_1 [of r] gain_nonneg [of r] by (auto simp: avail_def bucket_ok_def split: option.split)

lemma bucket_ok_later: "bucket_ok r now ob \<Longrightarrow> now \<le> t \<Longrightarrow> bucket_ok r t ob"
  by (auto simp: bucket_ok_def split: option.splits)

lemma avail_later:
  assumes "0 \<le> rl_RatePerSec r" and "now \<le> t"
  shows "avail r t ob \<le> avail r now ob + gain r (t - now)"
proof (cases ob)
  case None
  then show ?thesis using assms by (simp add: avail_def gain_nonneg)
next
  case (Some b)
  have "gain r (t - bu_lastFill b) = gain r (now - bu_lastFill b) + gain r (t - now)"
    using gain_add [of r "now - bu_lastFill b" "t - now"] by simp
  moreover have "0 \<le> gain r (t - now)" using assms by (simp add: gain_nonneg)
  ultimately show ?thesis using Some by (auto simp: avail_def)
qed

text \<open>A call takes one token from what is available when it admits the request, and none otherwise.\<close>

lemma shard_Allow_bucket:
  assumes "bucket_ok r t (map_of bs key)" and "0 \<le> rl_RatePerSec r" and "shard_Allow t key r bs = (d, bs')"
  shows "bucket_ok r t (map_of bs' key) \<and> avail r t (map_of bs' key) = avail r t (map_of bs key) - (if dc_OK d then 1 else 0)"
proof (cases "map_of bs key")
  case None
  then show ?thesis using assms(3) capacity_ge_1 [of r]
    by (auto simp: shard_Allow_def Let_def bucket_ok_def avail_def split: if_splits)
next
  case (Some b)
  have b: "0 \<le> bu_tokens b" "bu_tokens b \<le> capacity r" "bu_lastFill b \<le> t" using assms(1) Some by (simp_all add: bucket_ok_def)
  let ?b = "(refill r t b)\<lparr>bu_lastSeen := t\<rparr>"
  have fill: "bu_lastFill ?b = t" "bu_lastSeen ?b = t" "bu_tokens ?b = avail r t (Some b)"
    using b by (auto simp: refill_gain avail_def min_absorb2)
  have "0 \<le> gain r (t - bu_lastFill b)" using assms(2) b(3) by (simp add: gain_nonneg)
  then have "0 \<le> avail r t (Some b)" using b capacity_ge_1 [of r] by (simp add: avail_def)
  moreover have "map_of bs' key = Some (if dc_OK d then ?b\<lparr>bu_tokens := bu_tokens ?b - 1\<rparr> else ?b)" and "dc_OK d \<longleftrightarrow> 1 \<le> bu_tokens ?b"
    using assms(3) Some by (auto simp: shard_Allow_def Let_def split: if_splits)
  ultimately show ?thesis using fill avail_capacity [of r t "Some b"] Some by (auto simp: bucket_ok_def avail_def [of r t "Some _"])
qed

lemma avail_idle:
  assumes "bucket_ok r t (Some b)" and "bu_lastSeen b < t - idleTTL" and "capacity r \<le> gain r idleTTL" and "0 \<le> rl_RatePerSec r"
  shows "avail r t (Some b) = capacity r"
proof -
  have "gain r idleTTL \<le> gain r (t - bu_lastFill b)" using assms by (intro gain_mono) (auto simp: bucket_ok_def)
  then show ?thesis using assms(1,3) by (simp add: avail_def bucket_ok_def)
qed

lemma shard_Allow_keys:
  assumes "map_of bs key \<noteq> None \<or> length bs < maxBucketsPerShard" and "shard_Allow now key r bs = (d, bs')"
  shows "j \<noteq> key \<Longrightarrow> map_of bs' j = map_of bs j" and "fst ` set bs' = insert key (fst ` set bs)"
    and "distinct (map fst bs) \<Longrightarrow> distinct (map fst bs')"
proof -
  obtain b where b: "bs' = AList.update key b bs"
    using assms by (auto simp: shard_Allow_def Let_def split: if_splits option.splits)
  show "j \<noteq> key \<Longrightarrow> map_of bs' j = map_of bs j" "distinct (map fst bs) \<Longrightarrow> distinct (map fst bs')" unfolding b by (simp_all add: distinct_update)
  show "fst ` set bs' = insert key (fst ` set bs)" unfolding b dom_map_of_conv_image_fst [symmetric] by (auto simp: update_conv split: if_splits)
qed

subsection \<open>A run of requests\<close>

text \<open>Requests that consult the limiter one after the other, interleaved with sweeps. Every key has its
  rule. The oks has the keys that asked and whether they were admitted.\<close>

datatype rl_op = Ask (op_time: int) (op_key: string) | Sweep (op_time: int)

fun rl_run :: "(string \<Rightarrow> 64 word) \<Rightarrow> (string \<Rightarrow> Rule) \<Rightarrow> rl_op list \<Rightarrow> Limiter option \<Rightarrow> (string \<times> bool) list \<times> Limiter option" where
  "rl_run hash rules [] l = ([], l)"
| "rl_run hash rules (Ask t k # ops) l =
     (let (d, l) = Allow hash t k (rules k) l; (oks, l) = rl_run hash rules ops l in ((k, dc_OK d) # oks, l))"
| "rl_run hash rules (Sweep t # ops) l = rl_run hash rules ops (limiter_sweep t l)"

definition admitted :: "string \<Rightarrow> (string \<times> bool) list \<Rightarrow> nat" where
  "admitted k oks = length (filter (\<lambda>e. e = (k, True)) oks)"

text \<open>The keys of a run that share the shard of \<open>k\<close>, and the bucket of \<open>k\<close>.\<close>

definition shard_keys :: "(string \<Rightarrow> 64 word) \<Rightarrow> string \<Rightarrow> rl_op list \<Rightarrow> string set" where
  "shard_keys hash k ops = {j. \<exists>t. Ask t j \<in> set ops \<and> rl_shardIndex hash j = rl_shardIndex hash k}"

definition key_shard :: "(string \<Rightarrow> 64 word) \<Rightarrow> string \<Rightarrow> Limiter \<Rightarrow> rl_shard" where
  "key_shard hash k l = li_shards l ! rl_shardIndex hash k"

definition rl_inv :: "(string \<Rightarrow> 64 word) \<Rightarrow> Rule \<Rightarrow> string set \<Rightarrow> string \<Rightarrow> int \<Rightarrow> Limiter \<Rightarrow> bool" where
  "rl_inv hash r K k now l \<longleftrightarrow>
     length (li_shards l) = numShards \<and> distinct (map fst (key_shard hash k l)) \<and> fst ` set (key_shard hash k l) \<subseteq> K \<and>
     bucket_ok r now (map_of (key_shard hash k l) k)"

lemma shard_room:
  assumes "distinct (map fst bs)" and "fst ` set bs \<subseteq> K" and "finite K" "card K \<le> maxBucketsPerShard" "key \<in> K"
  shows "map_of bs key \<noteq> None \<or> length bs < maxBucketsPerShard"
proof (cases "map_of bs key")
  case None
  then have "fst ` set bs \<subset> K" using assms(2,5) by (auto simp: map_of_eq_None_iff)
  then have "card (fst ` set bs) < card K" using assms(3) by (rule psubset_card_mono [rotated])
  then show ?thesis using assms(4) distinct_card [OF assms(1)] by simp
qed simp

lemma rl_Ask_step:
  assumes inv: "rl_inv hash (rules k) K k now l" and K: "finite K" "card K \<le> maxBucketsPerShard"
    and key: "rl_shardIndex hash key = rl_shardIndex hash k \<Longrightarrow> key \<in> K"
    and "0 \<le> rl_RatePerSec (rules k)" "now \<le> t" and allow: "Allow hash t key (rules key) (Some l) = (d, l')"
  shows "\<exists>l2. l' = Some l2 \<and> rl_inv hash (rules k) K k t l2 \<and>
    avail (rules k) t (map_of (key_shard hash k l2) k) =
      avail (rules k) t (map_of (key_shard hash k l) k) - (if key = k \<and> dc_OK d then 1 else 0)"
proof -
  define i where "i = rl_shardIndex hash key"
  have i: "i < length (li_shards l)" using inv rl_shardIndex_less by (simp add: rl_inv_def i_def)
  obtain bs' where s: "shard_Allow t key (rules key) (li_shards l ! i) = (d, bs')" and l': "l' = Some (l\<lparr>li_shards := (li_shards l)[i := bs']\<rparr>)"
    using allow by (auto simp: Allow_def Let_def i_def split: prod.splits)
  let ?l = "l\<lparr>li_shards := (li_shards l)[i := bs']\<rparr>"
  have ok: "bucket_ok (rules k) t (map_of (key_shard hash k l) k)" using inv assms(6) by (auto simp: rl_inv_def intro: bucket_ok_later)
  show ?thesis
  proof (cases "i = rl_shardIndex hash k")
    case False
    then have "key_shard hash k ?l = key_shard hash k l" "key \<noteq> k" by (auto simp: key_shard_def i_def)
    then show ?thesis using inv ok l' by (auto simp: rl_inv_def)
  next
    case True
    then have sh: "key_shard hash k ?l = bs'" "key_shard hash k l = li_shards l ! i" using i by (simp_all add: key_shard_def)
    have inK: "key \<in> K" using key True by (simp add: i_def)
    have old: "distinct (map fst (li_shards l ! i))" "fst ` set (li_shards l ! i) \<subseteq> K" using inv sh(2) by (simp_all add: rl_inv_def)
    note keys = shard_Allow_keys [OF shard_room [OF old K inK] s]
    have "bucket_ok (rules k) t (map_of bs' k) \<and> avail (rules k) t (map_of bs' k) =
        avail (rules k) t (map_of (li_shards l ! i) k) - (if key = k \<and> dc_OK d then 1 else 0)"
    proof (cases "key = k")
      case same: True
      then show ?thesis using shard_Allow_bucket [OF _ assms(5), of t "li_shards l ! i" k d bs'] ok s sh(2) by auto
    next
      case False
      then show ?thesis using keys(1) [of k] ok sh(2) by simp
    qed
    then show ?thesis using keys old inK inv sh l' by (auto simp: rl_inv_def)
  qed
qed

lemma map_of_filter_distinct:
  "distinct (map fst bs) \<Longrightarrow> map_of (filter P bs) k = (case map_of bs k of None \<Rightarrow> None | Some b \<Rightarrow> if P (k, b) then Some b else None)"
proof (induction bs)
  case (Cons e bs)
  have "map_of bs (fst e) = None" using Cons.prems by (simp add: map_of_eq_None_iff)
  then show ?case using Cons by (cases e) (auto split: option.split)
qed simp

lemma rl_Sweep_step:
  assumes inv: "rl_inv hash r K k now l" and "0 \<le> rl_RatePerSec r" "now \<le> t" and fast: "capacity r \<le> gain r idleTTL"
  shows "\<exists>l2. limiter_sweep t (Some l) = Some l2 \<and> rl_inv hash r K k t l2 \<and>
    avail r t (map_of (key_shard hash k l2) k) = avail r t (map_of (key_shard hash k l) k)"
proof -
  let ?P = "\<lambda>(k :: string, b). \<not> bu_lastSeen b < t - idleTTL" and ?bs = "key_shard hash k l"
  let ?l = "l\<lparr>li_shards := map (filter ?P) (li_shards l)\<rparr>"
  have sh: "key_shard hash k ?l = filter ?P ?bs"
    using inv rl_shardIndex_less [of hash k] by (simp add: rl_inv_def key_shard_def)
  have ok: "distinct (map fst ?bs)" "fst ` set ?bs \<subseteq> K" "bucket_ok r t (map_of ?bs k)"
    using inv assms(3) by (auto simp: rl_inv_def intro: bucket_ok_later)
  have look: "map_of (filter ?P ?bs) k = (case map_of ?bs k of None \<Rightarrow> None | Some b \<Rightarrow> if bu_lastSeen b < t - idleTTL then None else Some b)"
    by (simp add: map_of_filter_distinct [OF ok(1)] split: option.split)
  have "bucket_ok r t (map_of (filter ?P ?bs) k) \<and> avail r t (map_of (filter ?P ?bs) k) = avail r t (map_of ?bs k)"
  proof (cases "map_of ?bs k")
    case (Some b)
    then show ?thesis using ok(3) avail_idle [of r t b] fast assms(2) by (auto simp: look avail_def [of r t None] bucket_ok_def [of r t None])
  qed (simp add: look bucket_ok_def)
  moreover have "distinct (map fst (filter ?P ?bs))" using ok(1) by (rule distinct_map_filter)
  ultimately have "rl_inv hash r K k t ?l" "avail r t (map_of (key_shard hash k ?l) k) = avail r t (map_of ?bs k)"
    using inv ok(2) unfolding rl_inv_def sh by auto
  then show ?thesis by (simp add: limiter_sweep_def Let_def)
qed

text \<open>What is admitted in a run, together with what is still available after it, is what was available
  before it and what was gained during it.\<close>

lemma rl_run_bound:
  assumes K: "finite K" "card K \<le> maxBucketsPerShard" and rate: "0 \<le> rl_RatePerSec (rules k)"
  shows "rl_inv hash (rules k) K k now l \<Longrightarrow> sorted (now # map op_time ops) \<Longrightarrow> shard_keys hash k ops \<subseteq> K \<Longrightarrow>
    (\<exists>t. Sweep t \<in> set ops) \<longrightarrow> capacity (rules k) \<le> gain (rules k) idleTTL \<Longrightarrow>
    rl_run hash rules ops (Some l) = (oks, l') \<Longrightarrow>
    \<exists>l2. l' = Some l2 \<and> rl_inv hash (rules k) K k (last (now # map op_time ops)) l2 \<and>
      of_nat (admitted k oks) + avail (rules k) (last (now # map op_time ops)) (map_of (key_shard hash k l2) k) \<le>
        avail (rules k) now (map_of (key_shard hash k l) k) + gain (rules k) (last (now # map op_time ops) - now)"
proof (induction ops arbitrary: now l oks)
  case Nil
  then show ?case by (auto simp: admitted_def)
next
  case (Cons op ops)
  let ?r = "rules k"
  define t where "t = op_time op"
  have t: "now \<le> t" "sorted (t # map op_time ops)" using Cons.prems(2) by (auto simp: t_def)
  have sub: "shard_keys hash k ops \<subseteq> K" using Cons.prems(3) by (auto simp: shard_keys_def)
  have fast: "(\<exists>t. Sweep t \<in> set ops) \<longrightarrow> capacity ?r \<le> gain ?r idleTTL" using Cons.prems(4) by auto
  have "\<exists>l1 oks' n. rl_run hash rules ops (Some l1) = (oks', l') \<and> rl_inv hash ?r K k t l1 \<and> admitted k oks = n + admitted k oks' \<and>
      avail ?r t (map_of (key_shard hash k l1) k) = avail ?r t (map_of (key_shard hash k l) k) - of_nat n"
  proof (cases op)
    case (Ask t' key)
    obtain d l1 where a: "Allow hash t key (rules key) (Some l) = (d, l1)" by fastforce
    have "key \<in> K" if "rl_shardIndex hash key = rl_shardIndex hash k" using Cons.prems(3) that Ask by (auto simp: shard_keys_def)
    from rl_Ask_step [where rules = rules, OF Cons.prems(1) K this rate t(1) a] obtain l2 where
      l2: "l1 = Some l2" "rl_inv hash ?r K k t l2" "avail ?r t (map_of (key_shard hash k l2) k) =
        avail ?r t (map_of (key_shard hash k l) k) - (if key = k \<and> dc_OK d then 1 else 0)" by auto
    obtain oks' where "rl_run hash rules ops (Some l2) = (oks', l')" "oks = (key, dc_OK d) # oks'"
      using Cons.prems(5) Ask a l2(1) by (auto simp: Let_def t_def split: prod.splits)
    then show ?thesis using l2
      by (intro exI [of _ l2] exI [of _ oks'] exI [of _ "if key = k \<and> dc_OK d then 1 else 0"]) (auto simp: admitted_def)
  next
    case (Sweep t')
    then have "capacity ?r \<le> gain ?r idleTTL" using Cons.prems(4) by auto
    from rl_Sweep_step [OF Cons.prems(1) rate t(1) this] Sweep Cons.prems(5) show ?thesis
      by (fastforce simp: t_def intro!: exI [of _ "0 :: nat"])
  qed
  then obtain l1 oks' n where run: "rl_run hash rules ops (Some l1) = (oks', l')" "rl_inv hash ?r K k t l1" "admitted k oks = n + admitted k oks'"
    "avail ?r t (map_of (key_shard hash k l1) k) = avail ?r t (map_of (key_shard hash k l) k) - of_nat n" by blast
  let ?e = "last (t # map op_time ops)"
  have e: "last (now # map op_time (op # ops)) = ?e" by (simp add: t_def)
  obtain l2 where l2: "l' = Some l2" "rl_inv hash ?r K k ?e l2" "of_nat (admitted k oks') + avail ?r ?e (map_of (key_shard hash k l2) k) \<le>
      avail ?r t (map_of (key_shard hash k l1) k) + gain ?r (?e - t)"
    using Cons.IH [OF run(2) t(2) sub fast run(1)] by blast
  have "gain ?r (?e - now) = gain ?r (?e - t) + gain ?r (t - now)" using gain_add [of ?r "?e - t" "t - now"] by simp
  then have "of_nat (admitted k oks) + avail ?r ?e (map_of (key_shard hash k l2) k) \<le>
      avail ?r now (map_of (key_shard hash k l) k) + gain ?r (?e - now)"
    using l2(3) run(3,4) avail_later [OF rate t(1), of "map_of (key_shard hash k l) k"] by simp
  then show ?case using l2 unfolding e by blast
qed

lemma NewLimiter_inv: "rl_inv hash r K k now NewLimiter"
  using rl_shardIndex_less [of hash k] by (simp add: rl_inv_def key_shard_def NewLimiter_def bucket_ok_def)

text \<open>C12: In every window of a run, however the requests of all clients interleave, a key is admitted no
  more often than its burst capacity plus its rate times the length of the window. The clock does not go
  back, at most 4096 keys of the run share the shard of the key, and the run is swept only if the rule
  refills its capacity within the idle time.\<close>

theorem rate_limit_bound:
  assumes "0 \<le> rl_RatePerSec (rules k)" and "sorted (map op_time (pre @ ops))" and "ops \<noteq> []"
    and "card (shard_keys hash k (pre @ ops)) \<le> maxBucketsPerShard"
    and "(\<exists>t. Sweep t \<in> set (pre @ ops)) \<longrightarrow> capacity (rules k) \<le> rl_RatePerSec (rules k) * (of_int idleTTL / 1000000000)"
    and "rl_run hash rules pre (Some NewLimiter) = (oks0, l0)" and "rl_run hash rules ops l0 = (oks, l)"
  shows "of_nat (admitted k oks) \<le> capacity (rules k) + rl_RatePerSec (rules k) * (of_int (op_time (last ops) - op_time (hd ops)) / 1000000000)"
proof -
  let ?r = "rules k" and ?K = "shard_keys hash k (pre @ ops)" and ?s = "op_time (hd (pre @ ops))" and ?t = "op_time (hd ops)"
  have fin: "finite ?K"
    by (rule finite_subset [of _ "op_key ` {op \<in> set (pre @ ops). case op of Ask t j \<Rightarrow> True | Sweep t \<Rightarrow> False}"]) (force simp: shard_keys_def image_iff)+
  have sub: "shard_keys hash k pre \<subseteq> ?K" "shard_keys hash k ops \<subseteq> ?K" by (auto simp: shard_keys_def)
  have fast: "(\<exists>t. Sweep t \<in> set pre) \<longrightarrow> capacity ?r \<le> gain ?r idleTTL" "(\<exists>t. Sweep t \<in> set ops) \<longrightarrow> capacity ?r \<le> gain ?r idleTTL"
    using assms(5) by (auto simp: gain_def)
  have ord: "sorted (?s # map op_time pre)" "sorted (?t # map op_time ops)" "last (?s # map op_time pre) \<le> ?t"
    using assms(2,3) by (cases pre; cases ops; auto simp: sorted_append last_map)+
  obtain l1 where l1: "l0 = Some l1" "rl_inv hash ?r ?K k (last (?s # map op_time pre)) l1"
    using rl_run_bound [where rules = rules, OF fin assms(4,1) NewLimiter_inv ord(1) sub(1) fast(1) assms(6)] by blast
  have "rl_inv hash ?r ?K k ?t l1" using l1(2) bucket_ok_later [OF _ ord(3)] by (simp add: rl_inv_def)
  from rl_run_bound [where rules = rules, OF fin assms(4,1) this ord(2) sub(2) fast(2)] assms(7) l1(1) obtain l2 where
    l2: "rl_inv hash ?r ?K k (last (?t # map op_time ops)) l2" "of_nat (admitted k oks) + avail ?r (last (?t # map op_time ops)) (map_of (key_shard hash k l2) k) \<le>
        avail ?r ?t (map_of (key_shard hash k l1) k) + gain ?r (last (?t # map op_time ops) - ?t)" by blast
  have "0 \<le> avail ?r (last (?t # map op_time ops)) (map_of (key_shard hash k l2) k)"
    using avail_nonneg [OF _ assms(1)] l2(1) by (simp add: rl_inv_def)
  then show ?thesis using l2(2) avail_capacity [of ?r ?t "map_of (key_shard hash k l1) k"] assms(3) by (simp add: gain_def last_map)
qed

text \<open>A key that spends its burst, a window that begins later, and a sweep in between.\<close>

definition sample_rule :: Rule where
  "sample_rule = \<lparr>rl_RatePerSec = 1, rl_Burst = 2\<rparr>"

definition sample_window :: "rl_op list" where
  "sample_window = [Ask 700000000000 ''a'', Sweep 700000000000, Ask 700000000000 ''a'', Ask 700000000000 ''a'', Ask 701000000000 ''a'']"

theorem rate_limit_bound_witness:
  "let l0 = snd (rl_run (\<lambda>_. 5) (\<lambda>_. sample_rule) [Ask 0 ''a'', Ask 0 ''b''] (Some NewLimiter))
   in fst (rl_run (\<lambda>_. 5) (\<lambda>_. sample_rule) sample_window l0) = [(''a'', True), (''a'', True), (''a'', False), (''a'', True)] \<and>
     of_nat (admitted ''a'' (fst (rl_run (\<lambda>_. 5) (\<lambda>_. sample_rule) sample_window l0))) \<le> (3 :: rat)"
proof -
  let ?run = "rl_run (\<lambda>_. 5) (\<lambda>_. sample_rule)" and ?pre = "[Ask 0 ''a'', Ask 0 ''b'']"
  let ?l0 = "snd (?run ?pre (Some NewLimiter))"
  have run: "?run ?pre (Some NewLimiter) = (fst (?run ?pre (Some NewLimiter)), ?l0)"
    "?run sample_window ?l0 = (fst (?run sample_window ?l0), snd (?run sample_window ?l0))" by simp_all
  have keys: "shard_keys (\<lambda>_. 5) ''a'' (?pre @ sample_window) \<subseteq> {''a'', ''b''}" by (auto simp: shard_keys_def sample_window_def)
  have few: "card (shard_keys (\<lambda>_. 5) ''a'' (?pre @ sample_window)) \<le> maxBucketsPerShard"
    using card_mono [OF _ keys] by (simp add: maxBucketsPerShard_def)
  have "of_nat (admitted ''a'' (fst (?run sample_window ?l0))) \<le> capacity sample_rule + rl_RatePerSec sample_rule *
      (of_int (op_time (last sample_window) - op_time (hd sample_window)) / 1000000000)"
    by (rule rate_limit_bound [where rules = "\<lambda>_. sample_rule", OF _ _ _ few _ run]) (simp_all add: sample_rule_def sample_window_def capacity_def idleTTL_def)
  then have "of_nat (admitted ''a'' (fst (?run sample_window ?l0))) \<le> (3 :: rat)"
    by (simp add: capacity_def sample_rule_def sample_window_def)
  moreover have "fst (?run sample_window ?l0) = [(''a'', True), (''a'', True), (''a'', False), (''a'', True)]" by code_simp
  ultimately show ?thesis unfolding Let_def by blast
qed

subsection \<open>Sweeping and eviction\<close>

text \<open>The idle sweep refills the bucket of a slow rule. Under a rule of one request an hour with a burst
  of two, a key spends its burst and is throttled; a sweep ten minutes and one second later drops the
  bucket, and the key is admitted twice more, although the rule allows fewer than three requests in
  that time.\<close>

lemma rate_sweep_resets:
  assumes "r = \<lparr>rl_RatePerSec = 1 / 3600, rl_Burst = 2\<rparr>"
  shows "map snd (fst (rl_run hash (\<lambda>_. r) [Ask 0 k, Ask 0 k, Ask 0 k, Sweep 601000000000, Ask 601000000000 k, Ask 601000000000 k] (Some NewLimiter))) =
      [True, True, False, True, True] \<and> capacity r + rl_RatePerSec r * 601 < 3"
proof -
  have i: "rl_shardIndex hash k < 64" using rl_shardIndex_less [of hash k] by (simp add: numShards_def)
  show ?thesis using i
    by (simp add: assms Allow_def shard_Allow_def Let_def NewLimiter_def limiter_sweep_def idleTTL_def maxBucketsPerShard_def capacity_def refill_def numShards_def)
qed

text \<open>The cap of a shard is not strict: when the buckets were all seen at the same instant the eviction
  drops none.\<close>

lemma evict_ties:
  assumes "\<forall>(k, b) \<in> set bs. bu_lastSeen b = t" and "0 < target" and "target \<le> length bs"
  shows "evictOldestLocked target bs = bs"
proof -
  have "map (\<lambda>(k, b). bu_lastSeen b) bs = replicate (length bs) t" using assms(1) by (intro replicate_eqI) auto
  then have "sort (map (\<lambda>(k, b). bu_lastSeen b) bs) = replicate (length bs) t" by (simp add: sorted_sort_id)
  then show ?thesis using assms by (auto simp: evictOldestLocked_def Let_def filter_id_conv)
qed

end
