(* ===== verification/Glob.thy ===== *)
theory Glob
  imports GoStrings "HOL-Library.AList"
begin

text \<open>
  Path, name and host patterns, \<open>internal/pipeline/glob.go\<close> with the name sets of
  \<open>internal/pipeline/cachekey.go\<close> and the host normalisation of \<open>internal/pipeline/request.go\<close>. A path set
  sorts its patterns into an exact set, a byte trie and a list of compiled globs. It is shown to
  implement the plain meaning of the patterns, where a star stands for any run of bytes.
\<close>

subsection \<open>Strings\<close>

text \<open>\<open>strings.Split\<close> with a separator of one byte.\<close>

fun Split :: "char \<Rightarrow> string \<Rightarrow> string list" where
  "Split c [] = [[]]"
| "Split c (x # xs) = (if x = c then [] # Split c xs else (case Split c xs of [] \<Rightarrow> [[x]] | y # ys \<Rightarrow> (x # y) # ys))"

definition StrIndex :: "string \<Rightarrow> string \<Rightarrow> nat option" where
  "StrIndex s p = find (\<lambda>i. HasPrefix (drop i s) p) [0..<Suc (length s)]"

abbreviation star :: char where "star \<equiv> CHR ''*''"

subsection \<open>The trie of prefixes\<close>

datatype trieNode = TrieNode (terminal: bool) (children: "(char \<times> trieNode) list")

definition newTrie :: trieNode where
  "newTrie = TrieNode False []"

fun trie_insert :: "string \<Rightarrow> trieNode \<Rightarrow> trieNode" where
  "trie_insert [] (TrieNode t cs) = TrieNode True cs"
| "trie_insert (b # p) (TrieNode t cs) =
     TrieNode t (AList.update b (trie_insert p (case map_of cs b of None \<Rightarrow> newTrie | Some n \<Rightarrow> n)) cs)"

fun hasPrefixOf :: "trieNode \<Rightarrow> string \<Rightarrow> bool" where
  "hasPrefixOf (TrieNode t cs) [] = t"
| "hasPrefixOf (TrieNode t cs) (b # s) =
     (if t then True else case map_of cs b of None \<Rightarrow> False | Some n \<Rightarrow> hasPrefixOf n s)"

lemma newTrie_empty [simp]: "\<not> hasPrefixOf newTrie s"
  by (cases s) (simp_all add: newTrie_def)

text \<open>After inserting a prefix the trie accepts what it accepted and every string with that prefix.\<close>

lemma hasPrefixOf_insert: "hasPrefixOf (trie_insert p n) s \<longleftrightarrow> HasPrefix s p \<or> hasPrefixOf n s"
proof (induction p n arbitrary: s rule: trie_insert.induct)
  case (1 t cs)
  then show ?case by (cases s) (simp_all add: HasPrefix_def)
next
  case (2 b p t cs)
  show ?case
  proof (cases s)
    case Nil
    then show ?thesis by (simp add: HasPrefix_def)
  next
    case (Cons x xs)
    then show ?thesis using 2 [of xs] by (auto simp: HasPrefix_def update_conv split: option.splits)
  qed
qed

subsection \<open>Globs\<close>

record glob =
  gl_leadingStar :: bool
  gl_trailingStar :: bool
  gl_parts :: "string list"

definition compileGlob :: "string \<Rightarrow> glob" where
  "compileGlob pat =
     \<lparr>gl_leadingStar = HasPrefix pat [star], gl_trailingStar = HasSuffix pat [star],
      gl_parts = filter (\<lambda>p. p \<noteq> []) (Split star pat)\<rparr>"

text \<open>The loop over the parts: what is left of the string, if every part is found in order.\<close>

fun glob_parts :: "string list \<Rightarrow> string \<Rightarrow> string option" where
  "glob_parts [] s = Some s"
| "glob_parts (p # ps) s = (case StrIndex s p of None \<Rightarrow> None | Some i \<Rightarrow> glob_parts ps (drop (i + length p) s))"

definition glob_match :: "glob \<Rightarrow> string \<Rightarrow> bool" where
  "glob_match g s =
     (if gl_parts g = [] then True
      else if \<not> gl_leadingStar g \<and> \<not> HasPrefix s (hd (gl_parts g)) then False
      else
        let (s, parts) = (if \<not> gl_leadingStar g then (drop (length (hd (gl_parts g))) s, tl (gl_parts g)) else (s, gl_parts g));
            (suffix, parts) = (if \<not> gl_trailingStar g \<and> parts \<noteq> [] then (last parts, butlast parts) else ([], parts))
        in case glob_parts parts s of
             None \<Rightarrow> False
           | Some s \<Rightarrow> if suffix \<noteq> [] then HasSuffix s suffix else True)"

subsection \<open>Path sets\<close>

record pathSet =
  ps_exact :: "string list"
  ps_prefixes :: trieNode
  ps_globs :: "glob list"
  ps_matchAll :: bool

definition newPathSet :: pathSet where
  "newPathSet = \<lparr>ps_exact = [], ps_prefixes = newTrie, ps_globs = [], ps_matchAll = False\<rparr>"

definition pathSet_add :: "string \<Rightarrow> pathSet \<Rightarrow> pathSet" where
  "pathSet_add pat s =
     (if pat = [star] then s\<lparr>ps_matchAll := True\<rparr>
      else if star \<notin> set pat then s\<lparr>ps_exact := List.insert pat (ps_exact s)\<rparr>
      else if count_list pat star = 1 \<and> HasSuffix pat [star]
        then s\<lparr>ps_prefixes := trie_insert (take (length pat - 1) pat) (ps_prefixes s)\<rparr>
      else s\<lparr>ps_globs := ps_globs s @ [compileGlob pat]\<rparr>)"

definition pathSet_Match :: "pathSet \<Rightarrow> string \<Rightarrow> bool" where
  "pathSet_Match s path =
     (if ps_matchAll s then True
      else if path \<in> set (ps_exact s) then True
      else if hasPrefixOf (ps_prefixes s) path then True
      else list_ex (\<lambda>g. glob_match g path) (ps_globs s))"

record nameGlobSet =
  ng_exact :: "string list"
  ng_globs :: "glob list"
  ng_matchAll :: bool

definition nameGlobSet_add :: "string \<Rightarrow> nameGlobSet \<Rightarrow> nameGlobSet" where
  "nameGlobSet_add n s =
     (if n = [star] then s\<lparr>ng_matchAll := True\<rparr>
      else if star \<notin> set n then s\<lparr>ng_exact := List.insert n (ng_exact s)\<rparr>
      else s\<lparr>ng_globs := ng_globs s @ [compileGlob n]\<rparr>)"

definition newNameGlobSet :: "string list \<Rightarrow> nameGlobSet" where
  "newNameGlobSet names = fold nameGlobSet_add names \<lparr>ng_exact = [], ng_globs = [], ng_matchAll = False\<rparr>"

definition nameGlobSet_match :: "nameGlobSet \<Rightarrow> string \<Rightarrow> bool" where
  "nameGlobSet_match s name =
     (if ng_matchAll s then True else if name \<in> set (ng_exact s) then True else list_ex (\<lambda>g. glob_match g name) (ng_globs s))"

subsection \<open>The meaning of a pattern\<close>

fun wild :: "string \<Rightarrow> string \<Rightarrow> bool" where
  "wild [] s \<longleftrightarrow> s = []"
| "wild (c # p) [] \<longleftrightarrow> c = star \<and> wild p []"
| "wild (c # p) (x # s) \<longleftrightarrow> (if c = star then wild p (x # s) \<or> wild (c # p) s else c = x \<and> wild p s)"

lemma wild_star: "wild (star # p) s \<longleftrightarrow> (\<exists>k. wild p (drop k s))"
proof (induction s)
  case (Cons x s)
  have "(\<exists>k. wild p (drop k (x # s))) \<longleftrightarrow> wild p (x # s) \<or> (\<exists>k. wild p (drop k s))"
    by (metis drop0 drop_Suc_Cons not0_implies_Suc)
  then show ?case using Cons by simp
qed simp

text \<open>A star followed by the parts \<open>ps\<close>, with stars between them: each part is found in order and the
  last one is at the end.\<close>

fun spread :: "string list \<Rightarrow> string \<Rightarrow> bool" where
  "spread [] s \<longleftrightarrow> True"
| "spread [p] s \<longleftrightarrow> (\<exists>t. s = t @ p)"
| "spread (p # q # ps) s \<longleftrightarrow> (\<exists>a t. s = a @ p @ t \<and> spread (q # ps) t)"

lemma Split_nonempty [simp]: "Split c s \<noteq> []"
  by (cases s) (auto split: list.split)

lemma drop_split: "(\<exists>k. drop k s = u) \<longleftrightarrow> (\<exists>a. s = a @ u)"
  by (metis append_eq_conv_conj append_take_drop_id)

lemma wild_Split: "wild pat s \<longleftrightarrow> (\<exists>t. s = hd (Split star pat) @ t \<and> (if tl (Split star pat) = [] then t = [] else spread (tl (Split star pat)) t))"
proof (induction pat arbitrary: s)
  case (Cons c pat)
  obtain p ps where sp: "Split star pat = p # ps" by (meson Split_nonempty neq_Nil_conv)
  show ?case
  proof (cases "c = star")
    case True
    have "wild (star # pat) s \<longleftrightarrow> (\<exists>k t. drop k s = p @ t \<and> (if ps = [] then t = [] else spread ps t))"
      unfolding wild_star using Cons sp by auto
    also have "\<dots> \<longleftrightarrow> (\<exists>a t. s = a @ p @ t \<and> (if ps = [] then t = [] else spread ps t))"
      using drop_split [of s] by blast
    also have "\<dots> \<longleftrightarrow> spread (p # ps) s" by (cases ps) auto
    finally show ?thesis using True sp by simp
  next
    case False
    then show ?thesis using sp Cons [of "tl s"] by (cases s) (auto split: if_splits)
  qed
qed simp

lemma spread_mono: "spread ps t \<Longrightarrow> spread ps (a @ t)"
proof (induction ps t rule: spread.induct)
  case (3 p q ps s)
  then obtain b t where "s = b @ p @ t" "spread (q # ps) t" by auto
  then have "a @ s = (a @ b) @ p @ t \<and> spread (q # ps) t" by simp
  then show ?case unfolding spread.simps by blast
qed auto

lemma spread_skip: "spread ([] # q # ps) s \<longleftrightarrow> spread (q # ps) s"
  using spread_mono by auto

lemma spread_filter: "spread (bs @ [l]) s \<longleftrightarrow> spread (filter (\<lambda>p. p \<noteq> []) bs @ [l]) s"
proof (induction bs arbitrary: s)
  case (Cons b bs)
  obtain q qs where q: "bs @ [l] = q # qs" by (cases "bs @ [l]") auto
  obtain r rs where r: "filter (\<lambda>p. p \<noteq> []) bs @ [l] = r # rs" by (cases "filter (\<lambda>p. p \<noteq> []) bs @ [l]") auto
  show ?case
  proof (cases "b = []")
    case True
    then show ?thesis using Cons q spread_skip [of q qs s] by simp
  next
    case False
    then show ?thesis using Cons q r by simp
  qed
qed simp

lemma StrIndex_None: "StrIndex s p = None \<Longrightarrow> s \<noteq> a @ p @ t"
proof
  assume n: "StrIndex s p = None" and s: "s = a @ p @ t"
  have "HasPrefix (drop (length a) s) p" using s by (simp add: HasPrefix_def)
  moreover have "length a < Suc (length s)" using s by simp
  moreover have "\<not> HasPrefix (drop i s) p" if "i < Suc (length s)" for i
    using n that unfolding StrIndex_def find_None_iff by (simp only: set_upt atLeastLessThan_iff) blast
  ultimately show False by blast
qed

lemma StrIndex_Some:
  assumes "StrIndex s p = Some i"
  shows "s = take i s @ p @ drop (i + length p) s" and "s = a @ p @ t \<Longrightarrow> i \<le> length a"
proof -
  have pre: "HasPrefix (drop i s) p" and least: "\<And>j. j < i \<Longrightarrow> \<not> HasPrefix (drop j s) p"
    using assms by (auto simp: StrIndex_def find_Some_iff nth_append simp del: upt_Suc)
  have "drop i s = p @ drop (length p) (drop i s)" using pre by (metis HasPrefix_def append_take_drop_id)
  then show "s = take i s @ p @ drop (i + length p) s" by (metis add.commute append_take_drop_id drop_drop)
  show "i \<le> length a" if "s = a @ p @ t"
  proof (rule ccontr)
    assume "\<not> i \<le> length a"
    then show False using least [of "length a"] that by (simp add: HasPrefix_def)
  qed
qed

text \<open>Taking the first occurrence of each part loses no match.\<close>

lemma spread_greedy: "spread (qs @ [l]) s \<longleftrightarrow> (case glob_parts qs s of None \<Rightarrow> False | Some t \<Rightarrow> HasSuffix t l)"
proof (induction qs arbitrary: s)
  case Nil
  then show ?case by (simp add: HasSuffix_iff)
next
  case (Cons q qs)
  obtain r rs where r: "qs @ [l] = r # rs" by (cases "qs @ [l]") auto
  have sp: "spread ((q # qs) @ [l]) s \<longleftrightarrow> (\<exists>a t. s = a @ q @ t \<and> spread (qs @ [l]) t)" using r by simp
  show ?case
  proof (cases "StrIndex s q")
    case None
    then show ?thesis using sp StrIndex_None by auto
  next
    case (Some i)
    let ?rest = "drop (i + length q) s"
    have "(\<exists>a t. s = a @ q @ t \<and> spread (qs @ [l]) t) \<longleftrightarrow> spread (qs @ [l]) ?rest"
    proof
      assume "\<exists>a t. s = a @ q @ t \<and> spread (qs @ [l]) t"
      then obtain a t where s: "s = a @ q @ t" and t: "spread (qs @ [l]) t" by blast
      have "i \<le> length a" by (rule StrIndex_Some(2) [OF Some s])
      then have "?rest = drop (i + length q) (a @ q) @ t" using s by simp
      then show "spread (qs @ [l]) ?rest" using spread_mono [OF t] by metis
    next
      assume "spread (qs @ [l]) ?rest"
      then show "\<exists>a t. s = a @ q @ t \<and> spread (qs @ [l]) t" using StrIndex_Some(1) [OF Some] by blast
    qed
    then show ?thesis using sp Some Cons by simp
  qed
qed

lemma Split_star_prefix: "HasPrefix pat [star] \<longleftrightarrow> pat \<noteq> [] \<and> hd (Split star pat) = []"
  by (cases pat) (auto simp: HasPrefix_def split: list.split)

lemma Split_star_single: "tl (Split c pat) = [] \<longleftrightarrow> c \<notin> set pat"
proof (induction pat)
  case (Cons x pat)
  then show ?case by (cases "Split c pat") auto
qed simp

lemma Split_literal: "c \<notin> set pat \<Longrightarrow> Split c pat = [pat]"
  by (induction pat) auto

lemma Split_star_suffix: "c \<in> set pat \<Longrightarrow> last (Split c pat) = [] \<longleftrightarrow> HasSuffix pat [c]"
proof (induction pat)
  case (Cons x pat)
  obtain p ps where sp: "Split c pat = p # ps" by (meson Split_nonempty neq_Nil_conv)
  show ?case
  proof (cases "c \<in> set pat")
    case True
    then have "ps \<noteq> []" using Split_star_single [of c pat] sp by simp
    moreover have "HasSuffix (x # pat) [c] \<longleftrightarrow> HasSuffix pat [c]" using True by (cases pat rule: rev_cases) (auto simp: HasSuffix_def)
    ultimately show ?thesis using Cons.IH True sp by simp
  next
    case False
    then have x: "x = c" and ps: "ps = []" using Cons.prems Split_star_single [of c pat] sp by auto
    have "p = pat" using Split_literal [OF False] sp by simp
    then show ?thesis using x sp ps False by (cases pat rule: rev_cases) (auto simp: HasSuffix_def)
  qed
qed simp

subsection \<open>Compiled patterns\<close>

lemma spread_parts:
  assumes "ps \<noteq> []"
  shows "spread ps s \<longleftrightarrow> (case glob_parts (filter (\<lambda>p. p \<noteq> []) (butlast ps)) s of None \<Rightarrow> False | Some t \<Rightarrow> HasSuffix t (last ps))"
  using spread_filter [of "butlast ps" "last ps" s] spread_greedy [of "filter (\<lambda>p. p \<noteq> []) (butlast ps)" "last ps" s] assms
  by simp

lemma filter_ends: "ps \<noteq> [] \<Longrightarrow> filter P ps = filter P (butlast ps) @ (if P (last ps) then [last ps] else [])"
  by (induction ps) auto

lemma glob_match_wild:
  assumes "star \<in> set pat"
  shows "glob_match (compileGlob pat) s \<longleftrightarrow> wild pat s"
proof -
  let ?ne = "\<lambda>p :: string. p \<noteq> []"
  obtain p ps where sp: "Split star pat = p # ps" by (meson Split_nonempty neq_Nil_conv)
  have ps: "ps \<noteq> []" using Split_star_single [of star pat] assms sp by simp
  have lead: "gl_leadingStar (compileGlob pat) \<longleftrightarrow> p = []" using Split_star_prefix [of pat] assms sp by (auto simp: compileGlob_def)
  have trail: "gl_trailingStar (compileGlob pat) \<longleftrightarrow> last ps = []" using Split_star_suffix [OF assms] ps sp by (simp add: compileGlob_def)
  have parts: "gl_parts (compileGlob pat) = (if p = [] then filter ?ne ps else p # filter ?ne ps)" using sp by (simp add: compileGlob_def)
  have rest: "filter ?ne ps = filter ?ne (butlast ps) @ (if last ps = [] then [] else [last ps])" using filter_ends [OF ps, of ?ne] by simp
  have w: "wild pat s \<longleftrightarrow> (\<exists>t. s = p @ t \<and> spread ps t)" using wild_Split [of pat s] sp ps by simp
  have tail: "spread ps t \<longleftrightarrow> (case glob_parts (filter ?ne (butlast ps)) t of None \<Rightarrow> False | Some t \<Rightarrow> if last ps = [] then True else HasSuffix t (last ps))" for t
    unfolding spread_parts [OF ps] by (auto simp: HasSuffix_def split: option.split)
  show ?thesis
  proof (cases "p = []")
    case True
    show ?thesis
    proof (cases "last ps = []")
      case l: True
      have "glob_parts [] s = Some s" by simp
      then show ?thesis using True l w tail [of s] parts rest lead trail by (auto simp: glob_match_def Let_def split: option.split)
    next
      case False
      then show ?thesis using True w tail [of s] parts rest lead trail by (simp add: glob_match_def Let_def split: option.split)
    qed
  next
    case False
    have "wild pat s \<longleftrightarrow> HasPrefix s p \<and> spread ps (drop (length p) s)" unfolding w HasPrefix_iff by auto
    then show ?thesis using False tail [of "drop (length p) s"] parts rest lead trail by (simp add: glob_match_def Let_def split: option.split)
  qed
qed

lemma wild_exact: "star \<notin> set pat \<Longrightarrow> wild pat s \<longleftrightarrow> s = pat"
  using wild_Split [of pat s] by (simp add: Split_literal)

lemma wild_prefix:
  assumes "count_list pat star = 1" and "HasSuffix pat [star]"
  shows "wild pat s \<longleftrightarrow> HasPrefix s (take (length pat - 1) pat)"
proof -
  obtain q where q: "pat = q @ [star]" using assms(2) by (auto simp: HasSuffix_iff)
  then have "star \<notin> set q" using assms(1) by (simp add: count_list_append count_list_0_iff)
  then have "Split star pat = [q, []]" unfolding q by (induction q) auto
  then show ?thesis using wild_Split [of pat s] q by (simp add: HasPrefix_iff)
qed

lemma pathSet_Match_add: "pathSet_Match (pathSet_add pat s) path \<longleftrightarrow> wild pat path \<or> pathSet_Match s path"
proof -
  have "wild [star] path" by (auto simp: wild_star intro: exI [of _ "length path"])
  then show ?thesis
    by (auto simp: pathSet_add_def pathSet_Match_def wild_exact wild_prefix glob_match_wild hasPrefixOf_insert)
qed

lemma pathSet_Match_fold: "pathSet_Match (fold pathSet_add pats s) path \<longleftrightarrow> list_ex (\<lambda>pat. wild pat path) pats \<or> pathSet_Match s path"
  by (induction pats arbitrary: s) (auto simp: pathSet_Match_add)

lemma nameGlobSet_match_add: "nameGlobSet_match (nameGlobSet_add pat s) n \<longleftrightarrow> wild pat n \<or> nameGlobSet_match s n"
proof -
  have "wild [star] n" by (auto simp: wild_star intro: exI [of _ "length n"])
  then show ?thesis by (auto simp: nameGlobSet_add_def nameGlobSet_match_def wild_exact glob_match_wild)
qed

text \<open>A name set matches a name that one of its patterns matches.\<close>

lemma nameGlobSet_wild: "nameGlobSet_match (newNameGlobSet pats) n \<longleftrightarrow> list_ex (\<lambda>pat. wild pat n) pats"
proof -
  have "nameGlobSet_match (fold nameGlobSet_add pats s) n \<longleftrightarrow> list_ex (\<lambda>pat. wild pat n) pats \<or> nameGlobSet_match s n" for s
    by (induction pats arbitrary: s) (auto simp: nameGlobSet_match_add)
  then show ?thesis by (simp add: newNameGlobSet_def nameGlobSet_match_def)
qed

text \<open>C11: A path set, built from any list of patterns, matches a path exactly when one of the patterns
  does, a star standing for any run of bytes: sorting the patterns into an exact set, a trie and greedy
  globs changes no answer.\<close>

theorem pathSet_is_wild: "pathSet_Match (fold pathSet_add pats newPathSet) path \<longleftrightarrow> list_ex (\<lambda>pat. wild pat path) pats"
  unfolding pathSet_Match_fold by (simp add: pathSet_Match_def newPathSet_def)

end
