(* ===== verification/HttpRequest.thy ===== *)
theory HttpRequest
  imports GoNum Glob
begin

text \<open>
  The view of an HTTP request that rule evaluation works on, \<open>internal/pipeline/request.go\<close>, with the
  host sets of \<open>internal/pipeline/glob.go\<close>. A header map holds the lines of each canonical field name;
  \<^const>\<open>None\<close> is the nil map.
\<close>

subsection \<open>Strings\<close>

text \<open>\<open>strings.ToUpper\<close>, with the same treatment of runes outside ASCII as \<^const>\<open>ToLower\<close>: the two whose
  upper case is an ASCII letter (\<open>U+0131\<close> and \<open>U+017F\<close>) are mapped to it, the others keep their case.\<close>

definition upper_byte :: "char \<Rightarrow> char" where
  "upper_byte c = (if 97 \<le> byte c \<and> byte c \<le> 122 then char_of (byte c - 32) else c)"

definition upper_rune :: "string \<Rightarrow> string" where
  "upper_rune r =
     (if map byte r = [196, 177] then ''I'' else if map byte r = [197, 191] then ''S'' else map upper_byte r)"

function upper_runes :: "string \<Rightarrow> string" where
  "upper_runes s =
     (if s = [] then []
      else if rune_len s = 0 then replacement @ upper_runes (tl s)
      else upper_rune (take (rune_len s) s) @ upper_runes (drop (rune_len s) s))"
  by pat_completeness auto
termination by (relation "measure length") auto

declare upper_runes.simps [simp del]

definition ToUpper :: "string \<Rightarrow> string" where
  "ToUpper s = (if is_ascii s then map upper_byte s else upper_runes s)"

text \<open>\<open>strings.EqualFold\<close> with an ASCII string: the two runes outside ASCII that fold to an ASCII letter
  are \<open>U+212A\<close> and \<open>U+017F\<close>.\<close>

fun fold_ascii :: "string \<Rightarrow> string" where
  "fold_ascii [] = []"
| "fold_ascii (a # s) =
     (if map byte (a # take 2 s) = [226, 132, 170] then CHR ''k'' # fold_ascii (drop 2 s)
      else if map byte (a # take 1 s) = [197, 191] then CHR ''s'' # fold_ascii (drop 1 s)
      else lower_byte a # fold_ascii s)"

definition EqualFold :: "string \<Rightarrow> string \<Rightarrow> bool" where
  "EqualFold s t \<longleftrightarrow> fold_ascii s = map lower_byte t"

fun Join :: "string \<Rightarrow> string list \<Rightarrow> string" where
  "Join sep [] = []"
| "Join sep [x] = x"
| "Join sep (x # y # xs) = x @ sep @ Join sep (y # xs)"

definition LastIndexByte :: "string \<Rightarrow> char \<Rightarrow> nat option" where
  "LastIndexByte s c = find (\<lambda>i. s ! i = c) (rev [0..<length s])"

definition TrimSuffix :: "string \<Rightarrow> string \<Rightarrow> string" where
  "TrimSuffix s p = (if HasSuffix s p then take (length s - length p) s else s)"

text \<open>The canonical form of a header name: unchanged unless every byte is a token byte; otherwise the
  first letter and every letter after a hyphen is upper case, the others are lower case.\<close>

definition validHeaderFieldByte :: "char \<Rightarrow> bool" where
  "validHeaderFieldByte c \<longleftrightarrow>
     (48 \<le> byte c \<and> byte c \<le> 57) \<or> (65 \<le> byte c \<and> byte c \<le> 90) \<or> (97 \<le> byte c \<and> byte c \<le> 122) \<or>
     byte c \<in> {33, 35, 36, 37, 38, 39, 42, 43, 45, 46, 94, 95, 96, 124, 126}"

fun header_case :: "bool \<Rightarrow> string \<Rightarrow> string" where
  "header_case upper [] = []"
| "header_case upper (c # s) =
     (let c = (if upper then upper_byte c else lower_byte c) in c # header_case (c = CHR ''-'') s)"

definition CanonicalHeaderKey :: "string \<Rightarrow> string" where
  "CanonicalHeaderKey s = (if list_all validHeaderFieldByte s then header_case True s else s)"

type_synonym http_header = "string list gomap option"

definition header_lines :: "http_header \<Rightarrow> string \<Rightarrow> string list" where
  "header_lines h k = (case h of None \<Rightarrow> [] | Some m \<Rightarrow> (case map_of m k of None \<Rightarrow> [] | Some vs \<Rightarrow> vs))"

definition Header_Values :: "http_header \<Rightarrow> string \<Rightarrow> string list" where
  "Header_Values h name = header_lines h (CanonicalHeaderKey name)"

subsection \<open>Cookies\<close>

record cookieKV =
  ck_name :: string
  ck_value :: string

definition parse_cookie :: "string \<Rightarrow> cookieKV option" where
  "parse_cookie part =
     (let part = TrimSpace part in
      if part = [] then None
      else
        let eq = IndexByte part (CHR ''='');
            (name, val) = (if eq \<ge> 0 then (TrimSpace (take (nat eq) part), TrimSpace (drop (nat eq + 1) part)) else (part, []))
        in if name = [] then None
           else if length val \<ge> 2 \<and> HasPrefix val [char_of (34 :: nat)] \<and> HasSuffix val [char_of (34 :: nat)]
           then Some \<lparr>ck_name = name, ck_value = take (length val - 2) (drop 1 val)\<rparr>
           else Some \<lparr>ck_name = name, ck_value = val\<rparr>)"

definition parseLenientCookies :: "string \<Rightarrow> cookieKV list" where
  "parseLenientCookies raw = List.map_filter parse_cookie (Split (CHR '';'') raw)"

definition lenientCookies :: "http_header \<Rightarrow> cookieKV list" where
  "lenientCookies h =
     (let lines = header_lines h ''Cookie''
      in if lines = [] then [] else parseLenientCookies (Join ''; '' lines))"

definition cookie_value :: "string \<Rightarrow> cookieKV list \<Rightarrow> string" where
  "cookie_value name cs = (case find (\<lambda>c. ck_name c = name) cs of None \<Rightarrow> [] | Some c \<Rightarrow> ck_value c)"

definition LenientCookieValue :: "http_header \<Rightarrow> string \<Rightarrow> string" where
  "LenientCookieValue h name = cookie_value name (lenientCookies h)"

subsection \<open>The request\<close>

text \<open>A network address of \<open>net/netip\<close>: its four or sixteen bytes, and the zone of a version 6 address. The
  invalid address is \<^const>\<open>None\<close>.\<close>

datatype Addr = Addr4 string | Addr6 string string

record Request =
  hr_Method :: string
  hr_Host :: string
  hr_Path :: string
  hr_Query :: "string list gomap"
  hr_Header :: http_header
  hr_ClientIP :: string
  hr_RealClientIP :: "Addr option"
  hr_Device :: string
  hr_Geo :: string
  hr_GeoContinent :: string
  hr_TLS :: bool
  hr_GeoRegion :: string
  hr_PoolHealthy :: "(string \<Rightarrow> bool) option"
  hr_cookieMemo :: "(string \<times> cookieKV list) option"

definition req_method :: "Request \<Rightarrow> string" where
  "req_method r = (if hr_Method r = [] then ''GET'' else ToUpper (hr_Method r))"

definition normalizeHost :: "string \<Rightarrow> string" where
  "normalizeHost host =
     (let host = ToLower (TrimSpace host) in
      if host = [] then []
      else
        let host =
          (if HasPrefix host ''['' then
             (case LastIndexByte host (CHR '']'') of
                None \<Rightarrow> host
              | Some i \<Rightarrow> if HasPrefix (drop (i + 1) host) '':'' then take (i + 1) host else host)
           else
             (case LastIndexByte host (CHR '':'') of
                None \<Rightarrow> host
              | Some i \<Rightarrow> if count_list host (CHR '':'') = 1 then take i host else host))
        in TrimSuffix host ''.'')"

definition normHost :: "Request \<Rightarrow> string" where
  "normHost r = normalizeHost (hr_Host r)"

definition headerGet :: "Request \<Rightarrow> string \<Rightarrow> string" where
  "headerGet r name = (case Header_Values (hr_Header r) name of [] \<Rightarrow> [] | v # vs \<Rightarrow> v)"

definition headerCombined :: "Request \<Rightarrow> string \<Rightarrow> string" where
  "headerCombined r name =
     (if hr_Header r = None then []
      else case Header_Values (hr_Header r) name of [] \<Rightarrow> [] | [v] \<Rightarrow> v | vs \<Rightarrow> Join '', '' vs)"

text \<open>The memoised parse: the cookies and the request with its memo, keyed on the joined header.\<close>

definition req_lenientCookies :: "Request \<Rightarrow> cookieKV list \<times> Request" where
  "req_lenientCookies r =
     (if hr_Header r = None then ([], r)
      else
        let lines = header_lines (hr_Header r) ''Cookie'' in
        if lines = [] then ([], r)
        else
          let raw = Join ''; '' lines in
          case hr_cookieMemo r of
            Some (raw', cs) \<Rightarrow>
              if raw' = raw then (cs, r)
              else (parseLenientCookies raw, r\<lparr>hr_cookieMemo := Some (raw, parseLenientCookies raw)\<rparr>)
          | None \<Rightarrow> (parseLenientCookies raw, r\<lparr>hr_cookieMemo := Some (raw, parseLenientCookies raw)\<rparr>))"

definition req_cookie :: "Request \<Rightarrow> string \<Rightarrow> string" where
  "req_cookie r name = cookie_value name (fst (req_lenientCookies r))"

definition cookieNames :: "Request \<Rightarrow> string list" where
  "cookieNames r = map ck_name (fst (req_lenientCookies r))"

text \<open>The memo is sound when it holds the parse of the bytes it is keyed on. A lookup then returns the
  parse of the current header, also after the server has rewritten the header, and keeps the memo
  sound.\<close>

definition memo_ok :: "Request \<Rightarrow> bool" where
  "memo_ok r \<longleftrightarrow> (case hr_cookieMemo r of None \<Rightarrow> True | Some (raw, cs) \<Rightarrow> cs = parseLenientCookies raw)"

lemma req_lenientCookies_memo:
  assumes "memo_ok r"
  shows "fst (req_lenientCookies r) = lenientCookies (hr_Header r)" and "memo_ok (snd (req_lenientCookies r))"
    and "memo_ok (r\<lparr>hr_Header := h\<rparr>)"
  using assms by (auto simp: req_lenientCookies_def lenientCookies_def memo_ok_def header_lines_def Let_def split: option.splits)

lemma req_cookie_memo: "memo_ok r \<Longrightarrow> req_cookie r name = LenientCookieValue (hr_Header r) name"
  by (simp add: req_cookie_def LenientCookieValue_def req_lenientCookies_memo)

subsection \<open>Host sets\<close>

record hostSet =
  hs_exact :: "string list"
  hs_suffixes :: "string list"

definition newHostSet :: hostSet where
  "newHostSet = \<lparr>hs_exact = [], hs_suffixes = []\<rparr>"

definition hostSet_add :: "string \<Rightarrow> hostSet \<Rightarrow> hostSet" where
  "hostSet_add pat h =
     (let pat = ToLower pat
      in if HasPrefix pat ''*.'' then h\<lparr>hs_suffixes := hs_suffixes h @ [drop 1 pat]\<rparr>
         else h\<lparr>hs_exact := List.insert pat (hs_exact h)\<rparr>)"

definition hostSet_Match :: "hostSet \<Rightarrow> string \<Rightarrow> bool" where
  "hostSet_Match h host =
     (let host = normalizeHost host
      in if host \<in> set (hs_exact h) then True else list_ex (HasSuffix host) (hs_suffixes h))"

text \<open>A host set accepts a host whose normal form is a listed name or ends in a listed suffix.\<close>

lemma hostSet_Match_fold:
  "hostSet_Match (fold hostSet_add pats h) host \<longleftrightarrow>
     hostSet_Match h host \<or>
     list_ex (\<lambda>pat. if HasPrefix (ToLower pat) ''*.'' then HasSuffix (normalizeHost host) (drop 1 (ToLower pat)) else normalizeHost host = ToLower pat) pats"
proof (induction pats arbitrary: h)
  case (Cons pat pats)
  have "hostSet_Match (hostSet_add pat h) host \<longleftrightarrow>
      hostSet_Match h host \<or> (if HasPrefix (ToLower pat) ''*.'' then HasSuffix (normalizeHost host) (drop 1 (ToLower pat)) else normalizeHost host = ToLower pat)"
    by (auto simp: hostSet_add_def hostSet_Match_def Let_def)
  then show ?case using Cons by auto
qed simp

end
