(* ===== verification/CacheKey.thy ===== *)
theory CacheKey
  imports HttpRequest "HOL-Library.List_Lexorder" "HOL-Library.Char_ord" "HOL-Library.Product_Lexorder" "HOL-Library.Multiset"
begin

text \<open>
  Cache keys, \<open>internal/pipeline/cachekey.go\<close>: compiling the tokens of a \<open>cache_key\<close> directive, rendering
  a key, and the canonical form of a query. The resolvers of \<open>normalize\<close>, \<open>classify\<close> and \<open>tenant\<close> tokens
  are functions of the request carried by the token; a \<open>classify\<close> token also carries the cookies it
  forwards. Strings are ordered by their bytes.
\<close>

subsection \<open>Query escaping\<close>

definition unreserved :: "char \<Rightarrow> bool" where
  "unreserved c \<longleftrightarrow>
     (48 \<le> byte c \<and> byte c \<le> 57) \<or> (65 \<le> byte c \<and> byte c \<le> 90) \<or> (97 \<le> byte c \<and> byte c \<le> 122) \<or>
     c \<in> {CHR ''-'', CHR ''_'', CHR ''.'', CHR ''~''}"

definition hex_digit :: "nat \<Rightarrow> char" where
  "hex_digit n = ''0123456789ABCDEF'' ! n"

definition escape_byte :: "char \<Rightarrow> string" where
  "escape_byte c =
     (if unreserved c then [c]
      else if c = CHR '' '' then ''+''
      else [CHR ''%'', hex_digit (byte c div 16), hex_digit (byte c mod 16)])"

definition QueryEscape :: "string \<Rightarrow> string" where
  "QueryEscape s = concat (map escape_byte s)"

subsection \<open>Tokens\<close>

text \<open>A classifier is its resolver, the cookies its \<open>derives_from\<close> names, and those of them it forwards.\<close>

datatype keyToken =
    tokMethod | tokHost | tokPath | tokURL | tokQuery
  | tokQueryAllow nameGlobSet | tokQueryStrip nameGlobSet
  | tokHeader string | tokCookie string | tokSticky | tokDevice | tokGeo | tokGeoContinent | tokGeoRegion
  | tokNormalize "Request \<Rightarrow> string" | tokClassify "Request \<Rightarrow> string" "string list" "string list"
  | tokTenant "(Request \<Rightarrow> string) option" string | tokLiteral string

definition keyTokenSep :: char where
  "keyTokenSep = char_of (31 :: nat)"

datatype key_error =
    NeedsParamName string | AllowAndStrip | StripWithWholeQuery | NeedsHeaderName | NeedsCookieName | UnknownToken string

definition placeholder :: "string \<Rightarrow> bool" where
  "placeholder raw \<longleftrightarrow> HasPrefix raw ''{'' \<and> HasSuffix raw ''}'' \<and> length raw > 2"

definition isKeyTokenStart :: "string \<Rightarrow> bool" where
  "isKeyTokenStart raw =
     (if raw \<in> {''method'', ''host'', ''path'', ''url'', ''query'', ''query_allow'', ''query_strip''} then True
      else if HasPrefix raw ''header:'' \<or> HasPrefix raw ''cookie:'' then True
      else placeholder raw)"

text \<open>What the site defines: its normalizers, its classifiers and its tenant.\<close>

record key_env =
  ke_normalizers :: "(Request \<Rightarrow> string) gomap"
  ke_classifiers :: "((Request \<Rightarrow> string) \<times> string list \<times> string list) gomap"
  ke_tenant :: string
  ke_tenantR :: "(Request \<Rightarrow> string) option"

definition compileKeyToken :: "key_env \<Rightarrow> string \<Rightarrow> key_error + keyToken" where
  "compileKeyToken env raw =
     (if raw = ''method'' then Inr tokMethod
      else if raw = ''host'' then Inr tokHost
      else if raw = ''path'' then Inr tokPath
      else if raw = ''url'' then Inr tokURL
      else if raw = ''query'' then Inr tokQuery
      else if raw = ''{sticky}'' then Inr tokSticky
      else if raw = ''{device}'' then Inr tokDevice
      else if raw = ''{geo}'' then Inr tokGeo
      else if raw = ''{geo.continent}'' then Inr tokGeoContinent
      else if raw = ''{geo.region}'' then Inr tokGeoRegion
      else if raw = ''{tenant}'' then
        (case ke_tenantR env of Some f \<Rightarrow> Inr (tokTenant (Some f) []) | None \<Rightarrow> Inr (tokTenant None (ke_tenant env)))
      else if HasPrefix raw ''header:'' then
        (let name = drop 7 raw in if name = [] then Inl NeedsHeaderName else Inr (tokHeader name))
      else if HasPrefix raw ''cookie:'' then
        (let name = drop 7 raw in if name = [] then Inl NeedsCookieName else Inr (tokCookie name))
      else if placeholder raw then
        (let name = take (length raw - 2) (drop 1 raw) in
         case map_of (ke_normalizers env) name of
           Some n \<Rightarrow> Inr (tokNormalize n)
         | None \<Rightarrow> (case map_of (ke_classifiers env) name of Some (cl, derives, forward) \<Rightarrow> Inr (tokClassify cl derives forward) | None \<Rightarrow> Inl (UnknownToken raw)))
      else Inr (tokLiteral raw))"

text \<open>The loop over the arguments, with the tokens so far and the two flags.\<close>

function key_loop :: "key_env \<Rightarrow> string list \<Rightarrow> keyToken list \<Rightarrow> bool \<Rightarrow> bool \<Rightarrow> key_error + (keyToken list \<times> bool \<times> bool)" where
  "key_loop env [] toks hasAllow hasStrip = Inr (toks, hasAllow, hasStrip)"
| "key_loop env (a # args) toks hasAllow hasStrip =
     (if a = ''query_allow'' \<or> a = ''query_strip'' then
        let names = takeWhile (\<lambda>x. \<not> isKeyTokenStart x) args; rest = dropWhile (\<lambda>x. \<not> isKeyTokenStart x) args in
        if names = [] then Inl (NeedsParamName a)
        else if a = ''query_allow'' then key_loop env rest (toks @ [tokQueryAllow (newNameGlobSet names)]) True hasStrip
        else key_loop env rest (toks @ [tokQueryStrip (newNameGlobSet names)]) hasAllow True
      else
        case compileKeyToken env a of
          Inl e \<Rightarrow> Inl e
        | Inr t \<Rightarrow> key_loop env args (toks @ [t]) hasAllow hasStrip)"
  by pat_completeness auto
termination by (relation "measure (\<lambda>(env, args, toks, a, s). length args)") (auto simp: le_imp_less_Suc length_dropWhile_le)

definition whole_query :: "keyToken \<Rightarrow> bool" where
  "whole_query t = (case t of tokURL \<Rightarrow> True | tokQuery \<Rightarrow> True | _ \<Rightarrow> False)"

definition compileCacheKey :: "key_env \<Rightarrow> string list \<Rightarrow> key_error + keyToken list" where
  "compileCacheKey env args =
     (case key_loop env args [] False False of
        Inl e \<Rightarrow> Inl e
      | Inr (toks, hasAllow, hasStrip) \<Rightarrow>
          if hasAllow \<and> hasStrip then Inl AllowAndStrip
          else if hasStrip \<and> list_ex whole_query toks then Inl StripWithWholeQuery
          else Inr toks)"

subsection \<open>Rendering\<close>

definition writeKeyValue :: "string \<Rightarrow> string" where
  "writeKeyValue s = (if IndexByte s keyTokenSep < 0 then s else filter (\<lambda>c. c \<noteq> keyTokenSep) s)"

definition kept :: "nameGlobSet option \<Rightarrow> nameGlobSet option \<Rightarrow> string \<Rightarrow> bool" where
  "kept allow deny k =
     ((case allow of None \<Rightarrow> True | Some s \<Rightarrow> nameGlobSet_match s k) \<and>
      (case deny of None \<Rightarrow> True | Some s \<Rightarrow> \<not> nameGlobSet_match s k))"

fun write_pairs :: "bool \<Rightarrow> bool \<Rightarrow> (string \<times> string) list \<Rightarrow> string" where
  "write_pairs prefix first [] = []"
| "write_pairs prefix first ((k, v) # ps) =
     (if first \<and> prefix then ''?'' else []) @ (if \<not> first then ''&'' else []) @
     QueryEscape k @ ''='' @ QueryEscape v @ write_pairs prefix False ps"

text \<open>The pairs in the order in which the two loops visit them.\<close>

definition query_order :: "(string \<Rightarrow> bool) \<Rightarrow> string list gomap \<Rightarrow> (string \<times> string) list" where
  "query_order keep q =
     concat (map (\<lambda>k. map (Pair k) (sort (case map_of q k of None \<Rightarrow> [] | Some vs \<Rightarrow> vs))) (sort (filter keep (map fst q))))"

definition writeCanonicalQuery :: "Request \<Rightarrow> bool \<Rightarrow> nameGlobSet option \<Rightarrow> nameGlobSet option \<Rightarrow> string" where
  "writeCanonicalQuery req prefix allow deny =
     (if hr_Query req = [] then [] else write_pairs prefix True (query_order (kept allow deny) (hr_Query req)))"

definition writeToken :: "Request \<Rightarrow> string \<Rightarrow> keyToken \<Rightarrow> string" where
  "writeToken req stickyCookie t =
     (case t of
        tokMethod \<Rightarrow> req_method req
      | tokHost \<Rightarrow> normHost req
      | tokPath \<Rightarrow> writeKeyValue (hr_Path req)
      | tokURL \<Rightarrow> writeKeyValue (hr_Path req) @ writeCanonicalQuery req True None None
      | tokQuery \<Rightarrow> writeCanonicalQuery req False None None
      | tokQueryAllow s \<Rightarrow> writeCanonicalQuery req False (Some s) None
      | tokQueryStrip s \<Rightarrow> writeCanonicalQuery req False None (Some s)
      | tokHeader name \<Rightarrow> writeKeyValue (headerCombined req name)
      | tokCookie name \<Rightarrow> writeKeyValue (req_cookie req name)
      | tokSticky \<Rightarrow>
          if stickyCookie \<noteq> [] \<and> req_cookie req stickyCookie \<noteq> [] then writeKeyValue (req_cookie req stickyCookie)
          else hr_ClientIP req
      | tokDevice \<Rightarrow> hr_Device req
      | tokGeo \<Rightarrow> hr_Geo req
      | tokGeoContinent \<Rightarrow> hr_GeoContinent req
      | tokGeoRegion \<Rightarrow> hr_GeoRegion req
      | tokNormalize f \<Rightarrow> f req
      | tokClassify f derives forward \<Rightarrow> f req
      | tokTenant r arg \<Rightarrow> (case r of Some f \<Rightarrow> f req | None \<Rightarrow> arg)
      | tokLiteral s \<Rightarrow> s)"

definition defaultKeyTokens :: "keyToken list" where
  "defaultKeyTokens = [tokMethod, tokHost, tokPath]"

definition buildKey :: "keyToken list \<Rightarrow> Request \<Rightarrow> string \<Rightarrow> string" where
  "buildKey toks req stickyCookie =
     (let toks = (if toks = [] then defaultKeyTokens else toks)
      in Join [keyTokenSep] (map (writeToken req stickyCookie) toks))"

subsection \<open>Joining and splitting\<close>

lemma Split_append: "c \<notin> set x \<Longrightarrow> Split c (x @ c # y) = x # Split c y"
  by (induction x) auto

lemma Split_Join: "xs \<noteq> [] \<Longrightarrow> \<forall>x \<in> set xs. c \<notin> set x \<Longrightarrow> Split c (Join [c] xs) = xs"
  by (induction "[c]" xs rule: Join.induct) (simp_all add: Split_append Split_literal)

lemma Join_inj:
  assumes "Join [c] xs = Join [c] ys" and "xs \<noteq> []" and "ys \<noteq> []" and "\<forall>x \<in> set xs. c \<notin> set x" and "\<forall>y \<in> set ys. c \<notin> set y"
  shows "xs = ys"
proof -
  have "xs = Split c (Join [c] xs)" by (rule Split_Join [OF assms(2,4), symmetric])
  also have "\<dots> = ys" unfolding assms(1) by (rule Split_Join [OF assms(3,5)])
  finally show ?thesis .
qed

subsection \<open>Escaping is injective\<close>

definition hex_val :: "char \<Rightarrow> nat" where
  "hex_val c = (if byte c \<le> 57 then byte c - 48 else byte c - 55)"

fun unescape :: "string \<Rightarrow> string" where
  "unescape [] = []"
| "unescape (c # s) =
     (if c = CHR ''%'' then char_of (16 * hex_val (hd s) + hex_val (hd (tl s))) # unescape (drop 2 s)
      else if c = CHR ''+'' then CHR '' '' # unescape s
      else c # unescape s)"

lemma hex_digit_val: "n < 16 \<Longrightarrow> hex_val (hex_digit n) = n \<and> unreserved (hex_digit n)"
proof -
  have "list_all (\<lambda>n. hex_val (hex_digit n) = n \<and> unreserved (hex_digit n)) [0..<16]" by code_simp
  then show "n < 16 \<Longrightarrow> ?thesis" by (simp add: list_all_iff)
qed

lemma byte_nibbles: "byte c div 16 < 16" "byte c mod 16 < 16"
proof -
  have "byte c < 256" by simp
  then show "byte c div 16 < 16" by (simp add: less_mult_imp_div_less)
qed simp

lemma unescape_byte: "unescape (escape_byte c @ s) = c # unescape s"
proof -
  note d = byte_nibbles [of c]
  have "unreserved c \<Longrightarrow> c \<noteq> CHR ''%'' \<and> c \<noteq> CHR ''+''" by (auto simp: unreserved_def)
  then show ?thesis using hex_digit_val [OF d(1)] hex_digit_val [OF d(2)] by (simp add: escape_byte_def)
qed

lemma unescape_QueryEscape: "unescape (QueryEscape s) = s"
  by (induction s) (simp_all add: QueryEscape_def unescape_byte)

lemma QueryEscape_inj: "QueryEscape s = QueryEscape t \<longleftrightarrow> s = t"
  by (metis unescape_QueryEscape)

lemma escape_byte_chars: "x \<in> set (escape_byte c) \<Longrightarrow> unreserved x \<or> x = CHR ''+'' \<or> x = CHR ''%''"
proof -
  note d = byte_nibbles [of c]
  show "x \<in> set (escape_byte c) \<Longrightarrow> ?thesis" using hex_digit_val [OF d(1)] hex_digit_val [OF d(2)] by (auto simp: escape_byte_def split: if_splits)
qed

lemma sep_not_escaped: "\<not> (unreserved keyTokenSep \<or> keyTokenSep = CHR ''+'' \<or> keyTokenSep = CHR ''%'')"
    "\<not> (unreserved (CHR ''&'') \<or> CHR ''&'' = CHR ''+'' \<or> CHR ''&'' = CHR ''%'')"
    "\<not> (unreserved (CHR ''='') \<or> CHR ''='' = CHR ''+'' \<or> CHR ''='' = CHR ''%'')"
  by code_simp+

lemma QueryEscape_chars: "CHR ''&'' \<notin> set (QueryEscape s)" "CHR ''='' \<notin> set (QueryEscape s)" "keyTokenSep \<notin> set (QueryEscape s)"
proof -
  have ok: "x \<in> set (QueryEscape s) \<Longrightarrow> unreserved x \<or> x = CHR ''+'' \<or> x = CHR ''%''" for x
    using escape_byte_chars by (auto simp: QueryEscape_def)
  show "CHR ''&'' \<notin> set (QueryEscape s)" "CHR ''='' \<notin> set (QueryEscape s)" "keyTokenSep \<notin> set (QueryEscape s)"
    using ok sep_not_escaped by blast+
qed

subsection \<open>The canonical query\<close>

definition query_item :: "string \<times> string \<Rightarrow> string" where
  "query_item kv = QueryEscape (fst kv) @ CHR ''='' # QueryEscape (snd kv)"

lemma write_pairs_rest: "write_pairs prefix False ps = concat (map (\<lambda>kv. CHR ''&'' # query_item kv) ps)"
  by (induction prefix False ps rule: write_pairs.induct) (auto simp: query_item_def)

lemma Join_Cons: "Join [c] (x # xs) = x @ concat (map (\<lambda>y. c # y) xs)"
  by (induction xs arbitrary: x) auto

lemma write_pairs_join: "write_pairs prefix True ps = (if ps \<noteq> [] \<and> prefix then ''?'' else []) @ Join ''&'' (map query_item ps)"
  by (cases ps) (auto simp: write_pairs_rest Join_Cons query_item_def o_def)

lemma query_item_inj: "query_item a = query_item b \<longleftrightarrow> a = b"
  using QueryEscape_chars(2) by (auto simp: query_item_def append_Cons_eq_iff QueryEscape_inj prod_eq_iff)

lemma query_item_amp: "CHR ''&'' \<notin> set (query_item kv)"
  using QueryEscape_chars(1) by (auto simp: query_item_def)

lemma join_items_empty [simp]: "Join ''&'' (map query_item ps) = [] \<longleftrightarrow> ps = []" "[] = Join ''&'' (map query_item ps) \<longleftrightarrow> ps = []"
  by (cases ps; auto simp: Join_Cons query_item_def)+

lemma write_pairs_inj: "write_pairs prefix True ps = write_pairs prefix True qs \<longleftrightarrow> ps = qs"
proof
  assume eq: "write_pairs prefix True ps = write_pairs prefix True qs"
  show "ps = qs"
  proof (cases "ps = [] \<or> qs = []")
    case True
    then show ?thesis using eq unfolding write_pairs_join by (auto split: if_splits)
  next
    case False
    then have "Join ''&'' (map query_item ps) = Join ''&'' (map query_item qs)" using eq unfolding write_pairs_join by (simp split: if_splits)
    then have "map query_item ps = map query_item qs"
      by (rule Join_inj) (use False query_item_amp in auto)
    then show ?thesis by (rule map_injective) (simp add: inj_def query_item_inj)
  qed
qed simp

definition query_pairs :: "(string \<Rightarrow> bool) \<Rightarrow> string list gomap \<Rightarrow> (string \<times> string) list" where
  "query_pairs keep q = concat (map (\<lambda>(k, vs). map (Pair k) vs) (filter (\<lambda>(k, vs). keep k) q))"

lemma sorted_pairs: "sorted ks \<Longrightarrow> distinct ks \<Longrightarrow> sorted (concat (map (\<lambda>k. map (Pair k) (sort (f k))) ks))"
proof (induction ks)
  case (Cons k ks)
  have "sorted (map (Pair k) (sort (f k)))" by (simp add: sorted_map less_eq_prod_def)
  moreover have "k < j" if "j \<in> set ks" for j using Cons.prems that by (auto simp: less_le)
  then have "(k, v) \<le> (j, w)" if "j \<in> set ks" for j v w using that by (simp add: less_eq_prod_def)
  ultimately show ?case using Cons by (auto simp: sorted_append)
qed simp

lemma mset_concat_perm:
  assumes "mset xs = mset ys" and "\<And>k. mset (g k) = mset (h k)"
  shows "mset (concat (map g xs)) = mset (concat (map h ys))"
proof -
  have sum: "mset (concat (map f zs)) = \<Sum>\<^sub># (image_mset (\<lambda>k. mset (f k)) (mset zs))" for f :: "'a \<Rightarrow> 'b list" and zs
    by (induction zs) auto
  show ?thesis unfolding sum assms ..
qed

lemma mset_query_order:
  assumes "distinct (map fst q)"
  shows "mset (query_order keep q) = mset (query_pairs keep q)"
proof -
  let ?f = "\<lambda>k. case map_of q k of None \<Rightarrow> [] | Some vs \<Rightarrow> vs"
  have "map (\<lambda>k. map (Pair k) (?f k)) (filter keep (map fst q)) = map (\<lambda>kv. map (Pair (fst kv)) (?f (fst kv))) (filter (keep \<circ> fst) q)"
    by (simp add: filter_map o_def)
  also have "\<dots> = map (\<lambda>(k, vs). map (Pair k) vs) (filter (\<lambda>(k, vs). keep k) q)"
    using assms by (intro map_cong filter_cong) auto
  finally have "concat (map (\<lambda>k. map (Pair k) (?f k)) (filter keep (map fst q))) = query_pairs keep q" by (simp add: query_pairs_def)
  moreover have "mset (query_order keep q) = mset (concat (map (\<lambda>k. map (Pair k) (?f k)) (filter keep (map fst q))))"
    unfolding query_order_def by (rule mset_concat_perm) simp_all
  ultimately show ?thesis by simp
qed

text \<open>The visiting order is the sorted order of the pairs.\<close>

lemma query_order_sort: "distinct (map fst q) \<Longrightarrow> query_order keep q = sort (query_pairs keep q)"
proof -
  assume d: "distinct (map fst q)"
  have "sorted (query_order keep q)" unfolding query_order_def using d by (intro sorted_pairs) simp_all
  with mset_query_order [OF d, of keep] show ?thesis by (metis properties_for_sort)
qed

lemma writeCanonicalQuery_eq:
  "writeCanonicalQuery req prefix allow deny = write_pairs prefix True (query_order (kept allow deny) (hr_Query req))"
  by (simp add: writeCanonicalQuery_def query_order_def)

text \<open>C7: Two requests render the same canonical query exactly when the parameters they keep, as a
  multiset of names with values, are the same: reordering never splits a key, and no encoding of
  delimiters inside a name or a value makes two different queries collide.\<close>

theorem canonical_query_exact:
  assumes "distinct (map fst (hr_Query r1))" and "distinct (map fst (hr_Query r2))"
  shows "writeCanonicalQuery r1 prefix allow deny = writeCanonicalQuery r2 prefix allow deny \<longleftrightarrow>
    mset (query_pairs (kept allow deny) (hr_Query r1)) = mset (query_pairs (kept allow deny) (hr_Query r2))"
proof -
  have "sort xs = sort ys \<longleftrightarrow> mset xs = mset ys" for xs ys :: "(string \<times> string) list"
    by (metis mset_sort properties_for_sort sorted_sort)
  then show ?thesis unfolding writeCanonicalQuery_eq write_pairs_inj query_order_sort [OF assms(1)] query_order_sort [OF assms(2)] .
qed

definition sample_request :: Request where
  "sample_request = \<lparr>hr_Method = [], hr_Host = ''Example.com:80'', hr_Path = ''/a'', hr_Query = [(''b'', [''2'', ''1'']), (''a'', [''x&b=1''])],
     hr_Header = None, hr_ClientIP = ''10.0.0.1'', hr_RealClientIP = None, hr_Device = [], hr_Geo = [], hr_GeoContinent = [],
     hr_TLS = False, hr_GeoRegion = [], hr_PoolHealthy = None, hr_cookieMemo = None\<rparr>"

theorem canonical_query_exact_witness:
  "writeCanonicalQuery sample_request True None None =
     writeCanonicalQuery (sample_request\<lparr>hr_Query := [(''a'', [''x&b=1'']), (''b'', [''1'', ''2''])]\<rparr>) True None None \<and>
   writeCanonicalQuery sample_request True None None \<noteq>
     writeCanonicalQuery (sample_request\<lparr>hr_Query := [(''a'', [''x'']), (''b'', [''1'', ''2'', ''1''])]\<rparr>) True None None"
  using canonical_query_exact [of sample_request "sample_request\<lparr>hr_Query := [(''a'', [''x&b=1'']), (''b'', [''1'', ''2''])]\<rparr>" True None None]
    canonical_query_exact [of sample_request "sample_request\<lparr>hr_Query := [(''a'', [''x'']), (''b'', [''1'', ''2'', ''1''])]\<rparr>" True None None]
  by (simp add: sample_request_def query_pairs_def kept_def)

subsection \<open>Keys\<close>

text \<open>Tokens whose rendering is free of the separator whatever the request says. The others are written
  as they are.\<close>

definition sanitised :: "keyToken \<Rightarrow> bool" where
  "sanitised t =
     (case t of tokPath \<Rightarrow> True | tokURL \<Rightarrow> True | tokQuery \<Rightarrow> True | tokQueryAllow _ \<Rightarrow> True | tokQueryStrip _ \<Rightarrow> True
      | tokHeader _ \<Rightarrow> True | tokCookie _ \<Rightarrow> True | _ \<Rightarrow> False)"

lemma IndexByte_neg: "IndexByte s c < 0 \<longleftrightarrow> c \<notin> set s"
  by (auto simp: IndexByte_def find_None_iff find_Some_iff in_set_conv_nth split: option.splits)

lemma writeKeyValue_sep: "keyTokenSep \<notin> set (writeKeyValue s)"
  by (auto simp: writeKeyValue_def IndexByte_neg)

lemma writeKeyValue_id: "keyTokenSep \<notin> set s \<Longrightarrow> writeKeyValue s = s"
  by (simp add: writeKeyValue_def IndexByte_neg)

lemma write_pairs_sep: "keyTokenSep \<notin> set (write_pairs prefix first ps)"
proof -
  have "keyTokenSep \<noteq> CHR ''?''" "keyTokenSep \<noteq> CHR ''&''" "keyTokenSep \<noteq> CHR ''=''" by code_simp+
  then show ?thesis using QueryEscape_chars(3) by (induction prefix first ps rule: write_pairs.induct) auto
qed

lemma sanitised_sep: "sanitised t \<Longrightarrow> keyTokenSep \<notin> set (writeToken req s t)"
  by (cases t) (simp_all add: sanitised_def writeToken_def writeKeyValue_sep writeCanonicalQuery_eq write_pairs_sep)

text \<open>The key determines the rendering of every token, when the tokens that are written as they are do
  not carry the separator.\<close>

lemma buildKey_tokens:
  assumes "\<forall>t \<in> set toks. sanitised t \<or> keyTokenSep \<notin> set (writeToken r1 s t) \<and> keyTokenSep \<notin> set (writeToken r2 s t)"
    and "toks \<noteq> []" and "buildKey toks r1 s = buildKey toks r2 s" and "t \<in> set toks"
  shows "writeToken r1 s t = writeToken r2 s t"
proof -
  have "map (writeToken r1 s) toks = map (writeToken r2 s) toks"
    using assms(1,2,3) by (intro Join_inj [of keyTokenSep]) (auto simp: buildKey_def dest: sanitised_sep)
  then show ?thesis using assms(4) by simp
qed

end
