(* ===== verification/PathNorm.thy ===== *)
theory PathNorm
  imports CacheKey
begin

text \<open>
  Path normalisation: \<open>normalizePath\<close> of \<open>internal/server/handler.go\<close>, which makes the path that rules and
  cache keys see, and \<open>urlFor\<close> of \<open>internal/origin/httporigin/httporigin.go\<close>, which makes the path that is
  fetched. The two agree, and no fetched path leaves the base path or has a dot segment.
\<close>

subsection \<open>\<open>path.Clean\<close>\<close>

text \<open>One segment of the path against the stack of segments kept so far, the last one first.\<close>

definition clean_step :: "bool \<Rightarrow> string \<Rightarrow> string list \<Rightarrow> string list" where
  "clean_step rooted seg stack =
     (if seg = [] \<or> seg = ''.'' then stack
      else if seg = ''..'' then
        (case stack of
           [] \<Rightarrow> if rooted then [] else [''..'']
         | prev # rest \<Rightarrow> if prev = ''..'' then ''..'' # stack else rest)
      else seg # stack)"

definition path_Clean :: "string \<Rightarrow> string" where
  "path_Clean p =
     (if p = [] then ''.''
      else
        let rooted = HasPrefix p ''/''; segs = rev (fold (clean_step rooted) (Split (CHR ''/'') p) [])
        in if rooted then ''/'' @ Join ''/'' segs else if segs = [] then ''.'' else Join ''/'' segs)"

subsection \<open>The code\<close>

definition isControlByte :: "char \<Rightarrow> bool" where
  "isControlByte c \<longleftrightarrow> byte c < 32 \<or> byte c = 127"

definition hasControlByte :: "string \<Rightarrow> bool" where
  "hasControlByte s = list_ex isControlByte s"

definition stripControlBytes :: "string \<Rightarrow> string" where
  "stripControlBytes s = filter (\<lambda>c. \<not> isControlByte c) s"

definition normalizePath :: "string \<Rightarrow> string" where
  "normalizePath p =
     (if p = [] then ''/''
      else
        let p = (if hasControlByte p then stripControlBytes p else p) in
        if p = [] then ''/''
        else
          let cleaned = path_Clean p in
          if cleaned = p then p
          else if length p > 1 \<and> last p = CHR ''/'' \<and> cleaned \<noteq> ''/'' then cleaned @ ''/''
          else cleaned)"

text \<open>The path of the URL that is fetched, \<^const>\<open>None\<close> when the key escapes the base path. Scheme, host
  and the escaping of the result are those of the base URL.\<close>

definition urlFor :: "string \<Rightarrow> string \<Rightarrow> string option" where
  "urlFor base key =
     (let key = (if HasPrefix key ''/'' then drop 1 key else key);
          basePath = TrimSuffix base ''/'';
          joined = (if basePath = [] then ''/'' @ key else basePath @ ''/'' @ key);
          cleaned = path_Clean joined;
          cleaned = (if HasSuffix joined ''/'' \<and> cleaned \<noteq> ''/'' then cleaned @ ''/'' else cleaned);
          confinePrefix = (if basePath = [] then ''/'' else basePath @ ''/'');
          isBaseDir = (cleaned = basePath \<or> cleaned = basePath @ ''/'');
          isChild = HasPrefix cleaned confinePrefix
      in if \<not> isBaseDir \<and> \<not> isChild then None else Some cleaned)"

subsection \<open>Canonical paths\<close>

abbreviation slash :: char where "slash \<equiv> CHR ''/''"

definition proper :: "string \<Rightarrow> bool" where
  "proper seg \<longleftrightarrow> seg \<noteq> [] \<and> seg \<noteq> ''.'' \<and> seg \<noteq> ''..'' \<and> slash \<notin> set seg"

definition canon :: "string list \<Rightarrow> bool \<Rightarrow> string" where
  "canon segs tr = slash # Join ''/'' segs @ (if tr \<and> segs \<noteq> [] then ''/'' else [])"

lemma Split_chars: "x \<in> set (Split c s) \<Longrightarrow> c \<notin> set x"
proof (induction s arbitrary: x)
  case (Cons a s)
  show ?case
  proof (cases "Split c s")
    case Nil
    then show ?thesis by simp
  next
    case (Cons y ys)
    then show ?thesis using Cons.prems Cons.IH by (auto split: if_splits)
  qed
qed simp

lemma clean_proper:
  assumes "\<forall>s \<in> set segs. slash \<notin> set s" and "\<forall>s \<in> set stack. proper s"
  shows "\<forall>s \<in> set (fold (clean_step True) segs stack). proper s"
  using assms
proof (induction segs arbitrary: stack)
  case (Cons s segs)
  have "\<forall>x \<in> set (clean_step True s stack). proper x"
  proof (cases "s = [] \<or> s = ''.'' \<or> s = ''..''")
    case True
    have "set (clean_step True s stack) \<subseteq> set stack \<union> (if stack \<noteq> [] \<and> hd stack = ''..'' then {''..''} else {})"
      using True by (cases stack) (auto simp: clean_step_def)
    moreover have "\<not> proper ''..''" by (simp add: proper_def)
    ultimately show ?thesis using Cons.prems(2) by (cases stack) (auto split: if_splits)
  next
    case False
    then have "clean_step True s stack = s # stack" "proper s" using Cons.prems(1) by (simp_all add: clean_step_def proper_def)
    then show ?thesis using Cons.prems(2) by simp
  qed
  then show ?case using Cons by simp
qed simp

lemma clean_keeps: "\<forall>s \<in> set segs. proper s \<Longrightarrow> fold (clean_step r) segs stack = rev segs @ stack"
  by (induction segs arbitrary: stack) (auto simp: clean_step_def proper_def)

lemma Join_snoc: "segs \<noteq> [] \<Longrightarrow> Join ''/'' (segs @ [x]) = Join ''/'' segs @ slash # x"
  by (induction "''/''" segs rule: Join.induct) auto

lemma canon_alt: "canon segs tr = slash # Join ''/'' (if tr \<and> segs \<noteq> [] then segs @ [[]] else segs)"
  by (simp add: canon_def Join_snoc)

text \<open>A canonical path cleans to itself without its trailing slash.\<close>

lemma Clean_canon:
  assumes "\<forall>s \<in> set segs. proper s"
  shows "path_Clean (canon segs tr) = canon segs False"
proof -
  let ?segs = "if tr \<and> segs \<noteq> [] then segs @ [[]] else segs"
  have "Split slash (Join ''/'' ?segs) = (if segs = [] then [[]] else ?segs)"
  proof (cases "segs = []")
    case False
    then have "?segs \<noteq> []" "\<forall>s \<in> set ?segs. slash \<notin> set s" using assms by (auto simp: proper_def)
    from Split_Join [OF this] False show ?thesis by presburger
  qed simp
  then have "Split slash (canon segs tr) = [] # (if segs = [] then [[]] else ?segs)" unfolding canon_alt by simp
  moreover have "fold (clean_step True) (if segs = [] then [[]] else ?segs) [] = rev segs"
    using clean_keeps [OF assms, of True "[]"] by (auto simp: clean_step_def)
  moreover have "clean_step True [] [] = []" by (simp add: clean_step_def)
  ultimately have "rev (fold (clean_step True) (Split slash (canon segs tr)) []) = segs" by simp
  moreover have "HasPrefix (canon segs tr) ''/''" "canon segs tr \<noteq> []" by (simp_all add: canon_def HasPrefix_def)
  ultimately show ?thesis by (simp add: path_Clean_def Let_def canon_def)
qed

lemma Clean_rooted:
  assumes "HasPrefix p ''/''"
  obtains segs where "path_Clean p = canon segs False" and "\<forall>s \<in> set segs. proper s"
    and "\<forall>s \<in> set segs. set s \<subseteq> set p"
proof -
  let ?segs = "rev (fold (clean_step True) (Split slash p) [])"
  have ne: "p \<noteq> []" using assms by (auto simp: HasPrefix_def)
  have "path_Clean p = canon ?segs False" using assms ne by (simp add: path_Clean_def canon_def)
  moreover have "\<forall>s \<in> set ?segs. proper s" using clean_proper [of "Split slash p" "[]"] Split_chars by auto
  moreover have "\<forall>s \<in> set ?segs. set s \<subseteq> set p"
  proof -
    have sub: "x \<in> set (Split slash q) \<Longrightarrow> set x \<subseteq> set q" for x q
    proof (induction q arbitrary: x)
      case (Cons a q)
      show ?case
      proof (cases "Split slash q")
        case (Cons y ys)
        then show ?thesis using Cons.prems Cons.IH by (fastforce split: if_splits)
      qed simp
    qed simp
    have "set (fold (clean_step True) xs stack) \<subseteq> set xs \<union> set stack" for xs stack
    proof (induction xs arbitrary: stack)
      case (Cons x xs)
      have "set (clean_step True x stack) \<subseteq> insert x (set stack)" by (auto simp: clean_step_def split: list.splits if_splits)
      then show ?case using Cons [of "clean_step True x stack"] by auto
    qed simp
    from this [of "Split slash p" "[]"] show ?thesis using sub by fastforce
  qed
  ultimately show thesis by (rule that)
qed

subsection \<open>Matching and fetching\<close>

lemma canon_ends: "\<forall>s \<in> set segs. proper s \<Longrightarrow> last (canon segs False) = slash \<longleftrightarrow> segs = []"
proof -
  assume p: "\<forall>s \<in> set segs. proper s"
  show ?thesis
  proof (cases segs rule: rev_cases)
    case (snoc xs x)
    then have x: "x \<noteq> []" "slash \<notin> set x" using p by (auto simp: proper_def)
    have "\<exists>y. canon segs False = y @ x" unfolding snoc canon_def by (cases "xs = []") (auto simp: Join_snoc intro: exI [of _ "[slash]"] exI [of _ "slash # Join ''/'' xs @ ''/''"])
    then have "last (canon segs False) = last x" using x(1) by auto
    moreover have "last x \<noteq> slash" using x by (metis last_in_set)
    ultimately show ?thesis using snoc by simp
  qed (simp add: canon_def)
qed

lemma canon_trailing: "canon segs tr = (if tr \<and> segs \<noteq> [] then canon segs False @ ''/'' else canon segs False)"
  by (simp add: canon_def)

text \<open>Cleaning that keeps a trailing slash.\<close>

definition dial_path :: "string \<Rightarrow> string" where
  "dial_path p = (if HasSuffix p ''/'' \<and> path_Clean p \<noteq> ''/'' then path_Clean p @ ''/'' else path_Clean p)"

lemma urlFor_dial:
  "urlFor base key =
     (let b = TrimSuffix base ''/''; c = dial_path (b @ ''/'' @ (if HasPrefix key ''/'' then drop 1 key else key))
      in if c = b \<or> HasPrefix c (b @ ''/'') then Some c else None)"
proof -
  have "c = b \<or> HasPrefix c (b @ ''/'') \<longleftrightarrow> \<not> (\<not> (c = b \<or> c = b @ ''/'') \<and> \<not> HasPrefix c (b @ ''/''))" for c b by (auto simp: HasPrefix_def)
  moreover have "(if b = [] then ''/'' @ k else b @ ''/'' @ k) = b @ ''/'' @ k" "(if b = [] then ''/'' else b @ ''/'') = b @ ''/''" for b k :: string by simp_all
  ultimately show ?thesis unfolding urlFor_def dial_path_def Let_def by presburger
qed

lemma Clean_trailing:
  assumes "HasPrefix p ''/''"
  obtains segs where "path_Clean p = canon segs False" and "\<forall>s \<in> set segs. proper s \<and> set s \<subseteq> set p"
    and "dial_path p = canon segs (HasSuffix p ''/'')"
proof -
  obtain segs where s: "path_Clean p = canon segs False" "\<forall>s \<in> set segs. proper s" "\<forall>s \<in> set segs. set s \<subseteq> set p"
    using Clean_rooted [OF assms] by metis
  have "canon segs False = ''/'' \<longleftrightarrow> segs = []"
  proof (cases segs)
    case (Cons x xs)
    then have "x \<noteq> []" using s(2) by (simp add: proper_def)
    then show ?thesis using Cons by (cases xs) (auto simp: canon_def)
  qed (simp add: canon_def)
  then show thesis using s by (intro that) (auto simp: canon_def dial_path_def)
qed

text \<open>The normal form of a rooted path is canonical and free of control bytes.\<close>

lemma HasSuffix_last: "p \<noteq> [] \<Longrightarrow> HasSuffix p [c] \<longleftrightarrow> last p = c"
  by (cases p rule: rev_cases) (auto simp: HasSuffix_def)

lemma normalizePath_canon:
  assumes "HasPrefix p ''/''"
  obtains segs tr where "normalizePath p = canon segs tr" and "\<forall>s \<in> set segs. proper s \<and> list_all (\<lambda>c. \<not> isControlByte c) s"
proof -
  define q where "q = (if hasControlByte p then stripControlBytes p else p)"
  obtain rest where p: "p = slash # rest" using assms by (cases p) (auto simp: HasPrefix_def)
  have "\<not> isControlByte slash" by (simp add: isControlByte_def)
  then have q: "HasPrefix q ''/''" "q \<noteq> []" using p by (auto simp: q_def stripControlBytes_def HasPrefix_def)
  have noctl: "\<forall>c \<in> set q. \<not> isControlByte c" by (auto simp: q_def stripControlBytes_def hasControlByte_def list_ex_iff)
  obtain segs where s: "path_Clean q = canon segs False" "\<forall>s \<in> set segs. proper s \<and> set s \<subseteq> set q"
      "dial_path q = canon segs (HasSuffix q ''/'')"
    by (rule Clean_trailing [OF q(1)])
  have n: "normalizePath p = (if path_Clean q = q then q else if length q > 1 \<and> last q = slash \<and> path_Clean q \<noteq> ''/'' then path_Clean q @ ''/'' else path_Clean q)"
    unfolding normalizePath_def Let_def q_def [symmetric] using assms q(2) by (auto simp: HasPrefix_def)
  have short: "path_Clean q = ''/''" if "\<not> length q > 1"
  proof -
    have "q = ''/''" using q that by (cases q; cases "tl q") (auto simp: HasPrefix_def)
    then show ?thesis by (simp add: path_Clean_def HasPrefix_def clean_step_def)
  qed
  have "normalizePath p = canon segs (HasSuffix q ''/'')"
  proof (cases "path_Clean q = q")
    case True
    then have "q = canon segs False" using s(1) by simp
    moreover have "HasSuffix q ''/'' \<Longrightarrow> segs = []" using canon_ends [of segs] s(2) HasSuffix_last [OF q(2)] calculation by auto
    ultimately show ?thesis using n True by (auto simp: canon_def)
  next
    case False
    have "(length q > 1 \<and> last q = slash \<and> path_Clean q \<noteq> ''/'') = (HasSuffix q ''/'' \<and> path_Clean q \<noteq> ''/'')"
      using short HasSuffix_last [OF q(2)] by auto
    then show ?thesis using n False s(3) by (simp add: dial_path_def)
  qed
  moreover have "\<forall>s \<in> set segs. proper s \<and> list_all (\<lambda>c. \<not> isControlByte c) s" using s(2) noctl by (auto simp: list_all_iff)
  ultimately show thesis by (rule that)
qed

lemma normalizePath_of_canon:
  assumes "\<forall>s \<in> set segs. proper s \<and> list_all (\<lambda>c. \<not> isControlByte c) s"
  shows "normalizePath (canon segs tr) = canon segs tr"
proof -
  have "\<not> isControlByte slash" by (simp add: isControlByte_def)
  moreover have "c \<in> set (Join ''/'' xs) \<Longrightarrow> c = slash \<or> (\<exists>x \<in> set xs. c \<in> set x)" for c xs
    by (induction "''/''" xs rule: Join.induct) auto
  ultimately have "\<not> hasControlByte (canon segs tr)"
    using assms by (auto simp: hasControlByte_def list_ex_iff canon_def list_all_iff split: if_splits)
  moreover have ne: "canon segs tr \<noteq> []" by (simp add: canon_def)
  moreover have cl: "path_Clean (canon segs tr) = canon segs False" using assms by (intro Clean_canon) blast
  ultimately have n: "normalizePath (canon segs tr) = (if canon segs False = canon segs tr then canon segs tr
      else if length (canon segs tr) > 1 \<and> last (canon segs tr) = slash \<and> canon segs False \<noteq> ''/'' then canon segs False @ ''/'' else canon segs False)"
    by (simp add: normalizePath_def Let_def)
  show ?thesis
  proof (cases "tr \<and> segs \<noteq> []")
    case True
    moreover have "canon segs False \<noteq> ''/''"
    proof
      assume "canon segs False = ''/''"
      then have "last (canon segs False) = slash" by simp
      then show False using canon_ends [of segs] assms True by blast
    qed
    moreover have "canon segs False \<noteq> []" by (simp add: canon_def)
    ultimately show ?thesis using n canon_trailing [of segs tr] by simp
  next
    case False
    then show ?thesis using n canon_trailing [of segs tr] by simp
  qed
qed

lemma Split_canon:
  assumes "\<forall>s \<in> set segs. proper s"
  shows "\<forall>x \<in> set (Split slash (canon segs tr)). x = [] \<or> proper x"
proof (cases "segs = []")
  case True
  then show ?thesis by (simp add: canon_def)
next
  case False
  let ?segs = "if tr then segs @ [[]] else segs"
  have "Split slash (Join ''/'' ?segs) = ?segs" by (rule Split_Join) (use False assms in \<open>auto simp: proper_def\<close>)
  then have "Split slash (canon segs tr) = [] # ?segs" using False by (simp add: canon_alt)
  then show ?thesis using assms by auto
qed

lemma trailing_canon:
  assumes "\<forall>s \<in> set segs. proper s"
  shows "dial_path (canon segs tr) = canon segs tr"
proof -
  have ne: "canon segs tr \<noteq> []" by (simp add: canon_def)
  have "canon segs False = ''/'' \<longleftrightarrow> segs = []" using canon_ends [OF assms] by (auto simp: canon_def)
  moreover have "HasSuffix (canon segs tr) ''/'' \<longleftrightarrow> tr \<or> segs = []"
    using HasSuffix_last [OF ne] canon_ends [OF assms] canon_trailing [of segs tr] by auto
  ultimately show ?thesis unfolding dial_path_def Clean_canon [OF assms] by (auto simp: canon_def)
qed

text \<open>The base path of an origin as the fetch uses it: empty, or canonical.\<close>

definition base_ok :: "string \<Rightarrow> bool" where
  "base_ok base \<longleftrightarrow> base = [] \<or> (HasPrefix base ''/'' \<and> path_Clean base = base \<and> base \<noteq> ''/'')"

lemma canon_append:
  assumes "bs \<noteq> []"
  shows "canon bs False @ canon segs tr = (if segs = [] then canon bs True else canon (bs @ segs) tr)"
proof -
  have "Join ''/'' bs @ slash # Join ''/'' segs = Join ''/'' (bs @ segs)" if "segs \<noteq> []"
    using assms that by (induction "''/''" bs rule: Join.induct) (auto simp: neq_Nil_conv)
  then show ?thesis using assms by (auto simp: canon_def)
qed

text \<open>The normal form of a request path is a fixed point of the normalisation, and the origin client fetches
  exactly that path under the origin's base path.\<close>

lemma normal_path_dial:
  assumes "HasPrefix p ''/''" and "base_ok base"
  shows "normalizePath (normalizePath p) = normalizePath p \<and> urlFor base (normalizePath p) = Some (base @ normalizePath p)"
proof -
  obtain segs tr where n: "normalizePath p = canon segs tr" and s: "\<forall>s \<in> set segs. proper s \<and> list_all (\<lambda>c. \<not> isControlByte c) s"
    by (rule normalizePath_canon [OF assms(1)])
  have sp: "\<forall>s \<in> set segs. proper s" using s by blast
  have key: "HasPrefix (canon segs tr) ''/''" "''/'' @ drop 1 (canon segs tr) = canon segs tr" by (simp_all add: canon_def HasPrefix_def)
  have "urlFor base (canon segs tr) = Some (base @ canon segs tr)"
  proof (cases "base = []")
    case True
    have "TrimSuffix [] ''/'' = []" by (simp add: TrimSuffix_def)
    then show ?thesis unfolding urlFor_dial True using trailing_canon [OF sp, of tr] key by (simp add: Let_def)
  next
    case False
    then have b: "HasPrefix base ''/''" "path_Clean base = base" "base \<noteq> ''/''" using assms(2) by (simp_all add: base_ok_def)
    obtain bs where bs: "path_Clean base = canon bs False" "\<forall>s \<in> set bs. proper s" using Clean_rooted [OF b(1)] by metis
    then have base: "base = canon bs False" "bs \<noteq> []" using b(2,3) by (auto simp: canon_def)
    then have "last base \<noteq> slash" using canon_ends [OF bs(2)] by simp
    then have trim: "TrimSuffix base ''/'' = base" using HasSuffix_last [OF False] by (simp add: TrimSuffix_def)
    obtain js jt where j: "base @ canon segs tr = canon js jt" "\<forall>s \<in> set js. proper s"
      using canon_append [OF base(2), of segs tr] bs(2) sp base(1) by (metis UnE set_append)
    have whole: "base @ ''/'' @ drop 1 (canon segs tr) = canon js jt" using j(1) key(2) by simp
    moreover have "HasPrefix (canon js jt) (base @ ''/'')" unfolding whole [symmetric] HasPrefix_iff by simp
    ultimately show ?thesis unfolding urlFor_dial trim using trailing_canon [OF j(2), of jt] key(1) j(1) by (simp add: Let_def)
  qed
  then show ?thesis using n normalizePath_of_canon [OF s] by simp
qed

text \<open>C29: A path that is fetched lies in the base path of its origin and has no dot segment, so an origin
  that resolves dot segments cannot be led out of the base path, whatever the key.\<close>

theorem dial_confined:
  assumes "urlFor base key = Some path" and "base = [] \<or> HasPrefix base ''/''"
  shows "(path = TrimSuffix base ''/'' \<or> HasPrefix path (TrimSuffix base ''/'' @ ''/'')) \<and>
    list_all (\<lambda>seg. seg \<noteq> ''.'' \<and> seg \<noteq> ''..'') (Split slash path)"
proof -
  define b where "b = TrimSuffix base ''/''"
  define k where "k = (if HasPrefix key ''/'' then drop 1 key else key)"
  define joined where "joined = b @ ''/'' @ k"
  have bj: "b = [] \<or> HasPrefix b ''/''" using assms(2) unfolding b_def TrimSuffix_def
    by (cases base) (auto simp: HasPrefix_def HasSuffix_def take_Cons' split: if_splits)
  then have "HasPrefix joined ''/''" by (auto simp: joined_def HasPrefix_iff)
  then obtain segs where s: "\<forall>s \<in> set segs. proper s \<and> set s \<subseteq> set joined"
      "dial_path joined = canon segs (HasSuffix joined ''/'')"
    by (rule Clean_trailing)
  have path: "path = canon segs (HasSuffix joined ''/'')" and conf: "path = b \<or> HasPrefix path (b @ ''/'')"
    using assms(1) s(2) unfolding urlFor_dial Let_def b_def [symmetric] k_def [symmetric] joined_def [symmetric] by (auto split: if_splits)
  have "\<forall>x \<in> set (Split slash path). x = [] \<or> proper x"
    unfolding path by (rule Split_canon) (use s(1) in blast)
  then show ?thesis using conf unfolding b_def by (auto simp: list_all_iff proper_def HasPrefix_def)
qed

theorem dial_confined_witness:
  "urlFor ''/tenant'' ''/a//b/./c'' = Some ''/tenant/a/b/c'' \<and> urlFor ''/tenant'' ''/../other'' = None \<and>
   HasPrefix ''/tenant/a/b/c'' ''/tenant/''"
proof -
  have u: "urlFor ''/tenant'' ''/a//b/./c'' = Some ''/tenant/a/b/c''" "urlFor ''/tenant'' ''/../other'' = None" by code_simp+
  from dial_confined [OF u(1)] u show ?thesis by (simp add: HasPrefix_def TrimSuffix_def HasSuffix_def)
qed

end
