(* ===== verification/QueryParse.thy ===== *)
theory QueryParse
  imports CacheKey
begin

text \<open>
  Reading the query of a request, \<open>parseQueryLossless\<close> of \<open>internal/server/handler.go\<close>, and its agreement with
  the canonical query of the cache key.
\<close>

subsection \<open>Unescaping\<close>

text \<open>\<open>url.QueryUnescape\<close>: \<^const>\<open>None\<close> for a percent sign without two hexadecimal digits.\<close>

fun QueryUnescape :: "string \<Rightarrow> string option" where
  "QueryUnescape [] = Some []"
| "QueryUnescape (c # s) =
     (if c = CHR ''%'' then
        (if length s < 2 \<or> \<not> ishex (s ! 0) \<or> \<not> ishex (s ! 1) then None
         else map_option (\<lambda>t. char_of (16 * unhex (s ! 0) + unhex (s ! 1)) # t) (QueryUnescape (drop 2 s)))
      else map_option (\<lambda>t. (if c = CHR ''+'' then CHR '' '' else c) # t) (QueryUnescape s))"

subsection \<open>Parsing\<close>

definition Cut :: "string \<Rightarrow> char \<Rightarrow> string \<times> string" where
  "Cut s c = (takeWhile (\<lambda>x. x \<noteq> c) s, drop 1 (dropWhile (\<lambda>x. x \<noteq> c) s))"

definition add_value :: "string \<Rightarrow> string \<Rightarrow> string list gomap \<Rightarrow> string list gomap" where
  "add_value k v m = AList.update k ((case map_of m k of None \<Rightarrow> [] | Some vs \<Rightarrow> vs) @ [v]) m"

definition parse_segment :: "string \<Rightarrow> string list gomap \<Rightarrow> string list gomap" where
  "parse_segment seg m =
     (if seg = [] then m
      else
        let (k, v) = Cut seg (CHR ''='') in
        case QueryUnescape k of
          None \<Rightarrow> m
        | Some key \<Rightarrow> (case QueryUnescape v of None \<Rightarrow> m | Some val \<Rightarrow> add_value key val m))"

function query_loop :: "string \<Rightarrow> string list gomap \<Rightarrow> string list gomap" where
  "query_loop raw m =
     (if raw = [] then m
      else let (seg, raw') = Cut raw (CHR ''&'') in query_loop raw' (parse_segment seg m))"
  by pat_completeness auto
termination
proof (relation "measure (\<lambda>(raw, m). length raw)")
  fix raw :: string and m :: "string list gomap" and x seg raw'
  assume "raw \<noteq> []" and "x = Cut raw (CHR ''&'')" and "(seg, raw') = x"
  then have "raw' = drop 1 (dropWhile (\<lambda>x. x \<noteq> CHR ''&'') raw)" by (simp add: Cut_def)
  moreover have "length (dropWhile (\<lambda>x. x \<noteq> CHR ''&'') raw) \<le> length raw" by (rule length_dropWhile_le)
  ultimately show "((raw', parse_segment seg m), (raw, m)) \<in> measure (\<lambda>(raw, m). length raw)" using \<open>raw \<noteq> []\<close> by (cases raw) auto
qed simp

declare query_loop.simps [simp del]

definition parseQueryLossless :: "string \<Rightarrow> string list gomap" where
  "parseQueryLossless raw = (if raw = [] then [] else query_loop raw [])"

subsection \<open>Well-formedness\<close>

lemma add_value_distinct: "distinct (map fst m) \<Longrightarrow> distinct (map fst (add_value k v m))"
  by (simp add: add_value_def)

lemma parse_segment_distinct: "distinct (map fst m) \<Longrightarrow> distinct (map fst (parse_segment seg m))"
  by (auto simp: parse_segment_def Let_def add_value_distinct split: option.split prod.split)

text \<open>The parsed query is a map: this is what the exactness of canonical queries asks for.\<close>

lemma parseQueryLossless_distinct: "distinct (map fst (parseQueryLossless raw))"
proof -
  have "distinct (map fst m) \<Longrightarrow> distinct (map fst (query_loop raw m))" for m
  proof (induction raw m rule: query_loop.induct)
    case (1 raw m)
    then show ?case by (auto simp: query_loop.simps [of raw m] parse_segment_distinct split: prod.split)
  qed
  then show ?thesis by (simp add: parseQueryLossless_def)
qed

subsection \<open>Round trip\<close>

lemma hex_digit_unhex: "n < 16 \<Longrightarrow> ishex (hex_digit n) \<and> unhex (hex_digit n) = n"
proof -
  have "list_all (\<lambda>n. ishex (hex_digit n) \<and> unhex (hex_digit n) = n) [0..<16]" by code_simp
  then show "n < 16 \<Longrightarrow> ?thesis" by (simp add: list_all_iff)
qed

lemma QueryUnescape_byte: "QueryUnescape (escape_byte c @ s) = map_option ((#) c) (QueryUnescape s)"
proof -
  note d = byte_nibbles [of c]
  have "unreserved c \<Longrightarrow> c \<noteq> CHR ''%'' \<and> c \<noteq> CHR ''+''" by (auto simp: unreserved_def)
  then show ?thesis using hex_digit_unhex [OF d(1)] hex_digit_unhex [OF d(2)] by (simp add: escape_byte_def)
qed

lemma QueryUnescape_QueryEscape: "QueryUnescape (QueryEscape s) = Some s"
  by (induction s) (simp_all add: QueryEscape_def QueryUnescape_byte)

lemma Cut_append: "c \<notin> set a \<Longrightarrow> Cut (a @ c # b) c = (a, b)"
proof -
  assume "c \<notin> set a"
  then have "\<forall>x \<in> set a. x \<noteq> c" by blast
  then show ?thesis by (simp add: Cut_def takeWhile_append2 dropWhile_append2)
qed

lemma Cut_none: "c \<notin> set a \<Longrightarrow> Cut a c = (a, [])"
proof -
  assume "c \<notin> set a"
  then have "\<forall>x \<in> set a. x \<noteq> c" by blast
  then show ?thesis by (simp add: Cut_def takeWhile_eq_all_conv [THEN iffD2] dropWhile_eq_Nil_conv [THEN iffD2])
qed

lemma parse_item: "parse_segment (query_item kv) m = add_value (fst kv) (snd kv) m"
  by (simp add: parse_segment_def query_item_def Cut_append QueryEscape_chars QueryUnescape_QueryEscape Let_def)

lemma query_loop_items:
  "query_loop (Join ''&'' (map query_item ps)) m = fold (\<lambda>kv. add_value (fst kv) (snd kv)) ps m"
proof (induction ps arbitrary: m)
  case Nil
  then show ?case by (simp add: query_loop.simps)
next
  case (Cons kv ps)
  have ne: "query_item kv \<noteq> []" by (simp add: query_item_def)
  show ?case
  proof (cases ps)
    case Nil
    have "query_loop (query_item kv) m = query_loop [] (parse_segment (query_item kv) m)"
      using ne by (simp add: query_loop.simps [of "query_item kv"] Cut_none query_item_amp)
    then show ?thesis using Nil by (simp add: query_loop.simps [of "[]"] parse_item)
  next
    case (Cons kv' ps')
    have "query_loop (query_item kv @ CHR ''&'' # Join ''&'' (map query_item ps)) m = query_loop (Join ''&'' (map query_item ps)) (parse_segment (query_item kv) m)"
      by (simp add: query_loop.simps [of "query_item kv @ _"] Cut_append query_item_amp)
    then show ?thesis using Cons Cons.IH by (simp add: parse_item)
  qed
qed

lemma mset_add_value:
  assumes "distinct (map fst m)"
  shows "mset (query_pairs (\<lambda>_. True) (add_value k v m)) = add_mset (k, v) (mset (query_pairs (\<lambda>_. True) m))"
  using assms
proof (induction m)
  case (Cons x m)
  obtain j vs where x: "x = (j, vs)" by fastforce
  show ?case
  proof (cases "j = k")
    case True
    then show ?thesis using x by (simp add: add_value_def query_pairs_def)
  next
    case False
    then have "add_value k v (x # m) = x # add_value k v m" using x by (simp add: add_value_def)
    then show ?thesis using Cons x by (simp add: query_pairs_def)
  qed
qed (simp add: add_value_def query_pairs_def)

lemma mset_fold_add:
  "distinct (map fst m) \<Longrightarrow> mset (query_pairs (\<lambda>_. True) (fold (\<lambda>kv. add_value (fst kv) (snd kv)) ps m)) = mset ps + mset (query_pairs (\<lambda>_. True) m)"
  by (induction ps arbitrary: m) (simp_all add: mset_add_value add_value_distinct)

text \<open>C30: Reading the canonical query back gives the parameters of the request: the same names with the
  same values, as a multiset.\<close>

theorem query_roundtrip:
  assumes "distinct (map fst (hr_Query r))"
  shows "mset (query_pairs (\<lambda>_. True) (parseQueryLossless (writeCanonicalQuery r False None None))) = mset (query_pairs (\<lambda>_. True) (hr_Query r))"
proof -
  have k: "kept None None = (\<lambda>_. True)" by (simp add: kept_def fun_eq_iff)
  let ?ps = "query_order (\<lambda>_. True) (hr_Query r)"
  have w: "writeCanonicalQuery r False None None = Join ''&'' (map query_item ?ps)"
    unfolding writeCanonicalQuery_eq k by (simp add: write_pairs_join)
  have "parseQueryLossless (Join ''&'' (map query_item ?ps)) = fold (\<lambda>kv. add_value (fst kv) (snd kv)) ?ps []"
    unfolding parseQueryLossless_def query_loop_items by simp
  then show ?thesis unfolding w using mset_fold_add [of "[]" ?ps] mset_query_order [OF assms] by (simp add: query_pairs_def)
qed

theorem query_roundtrip_witness:
  "mset (query_pairs (\<lambda>_. True) (parseQueryLossless (writeCanonicalQuery sample_request False None None))) =
     {#(''b'', ''2''), (''b'', ''1''), (''a'', ''x&b=1'')#}"
  using query_roundtrip [of sample_request] by (simp add: sample_request_def query_pairs_def)

end
