(* ===== verification/Netaddr.thy ===== *)
theory Netaddr
  imports HttpRequest
begin

text \<open>
  Network addresses: the part of \<open>net/netip\<close> and \<open>net.SplitHostPort\<close> that the address code uses.
\<close>

definition Is4 :: "Addr \<Rightarrow> bool" where
  "Is4 a = (case a of Addr4 _ \<Rightarrow> True | _ \<Rightarrow> False)"

definition addr_bytes :: "Addr \<Rightarrow> string" where
  "addr_bytes a = (case a of Addr4 b \<Rightarrow> b | Addr6 b z \<Rightarrow> b)"

definition zone :: "Addr \<Rightarrow> string" where
  "zone a = (case a of Addr4 b \<Rightarrow> [] | Addr6 b z \<Rightarrow> z)"

text \<open>An IPv4 address mapped into IPv6 is turned into the IPv4 address; its zone is dropped.\<close>

definition mapped_prefix :: string where
  "mapped_prefix = replicate 10 (char_of (0 :: nat)) @ replicate 2 (char_of (255 :: nat))"

definition Unmap :: "Addr \<Rightarrow> Addr" where
  "Unmap a = (case a of Addr4 b \<Rightarrow> Addr4 b
     | Addr6 b z \<Rightarrow> if take 12 b = mapped_prefix then Addr4 (drop 12 b) else Addr6 b z)"

subsection \<open>Parsing\<close>

definition ipv4_field :: "string \<Rightarrow> bool" where
  "ipv4_field f \<longleftrightarrow> f \<noteq> [] \<and> list_all is_digit f \<and> dec_val f \<le> 255 \<and> (length f > 1 \<longrightarrow> hd f \<noteq> CHR ''0'')"

definition parseIPv4 :: "string \<Rightarrow> string option" where
  "parseIPv4 s =
     (let fs = Split (CHR ''.'') s
      in if length fs = 4 \<and> list_all ipv4_field fs then Some (map (\<lambda>f. char_of (dec_val f)) fs) else None)"

definition hex_number :: "string \<Rightarrow> nat" where
  "hex_number s = foldl (\<lambda>n c. 16 * n + unhex c) 0 s"

text \<open>The loop over the fields of an IPv6 address: what is left to read, the bytes so far, and the
  position of the ellipsis.\<close>

function v6_loop :: "string \<Rightarrow> string \<Rightarrow> nat option \<Rightarrow> (string \<times> nat option) option" where
  "v6_loop s ip ell =
     (if length ip \<ge> 16 then (if s = [] then Some (ip, ell) else None)
      else
        let hex = takeWhile ishex s; off = length hex in
        if off = 0 \<or> off > 4 then None
        else if off < length s \<and> s ! off = CHR ''.'' then
          (if (ell = None \<and> length ip \<noteq> 12) \<or> length ip + 4 > 16 then None
           else map_option (\<lambda>b. (ip @ b, ell)) (parseIPv4 s))
        else
          let ip = ip @ [char_of (hex_number hex div 256), char_of (hex_number hex mod 256)]; s = drop off s in
          if s = [] then Some (ip, ell)
          else if hd s \<noteq> CHR '':'' \<or> length s = 1 then None
          else if hd (tl s) = CHR '':'' then
            (if ell \<noteq> None then None
             else if tl (tl s) = [] then Some (ip, Some (length ip))
             else v6_loop (tl (tl s)) ip (Some (length ip)))
          else v6_loop (tl s) ip ell)"
  by pat_completeness auto
termination
proof (relation "measure (\<lambda>(s, ip, ell). length s)", goal_cases)
  case (2 s ip ell hex off ip' s')
  have "off \<noteq> 0" "s' = drop off s" "s' \<noteq> []" using 2 by blast+
  then have "length s' < length s" "s' \<noteq> []" by auto
  then show ?case by (cases s'; cases "tl s'") auto
next
  case (3 s ip ell hex off ip' s')
  have "off \<noteq> 0" "s' = drop off s" "s' \<noteq> []" using 3 by blast+
  then have "length s' < length s" "s' \<noteq> []" by auto
  then show ?case by (cases s') auto
qed simp

declare v6_loop.simps [simp del]

definition expand :: "string \<Rightarrow> nat option \<Rightarrow> string option" where
  "expand ip ell =
     (if length ip < 16 then
        (case ell of None \<Rightarrow> None | Some e \<Rightarrow> Some (take e ip @ replicate (16 - length ip) (char_of (0 :: nat)) @ drop e ip))
      else if ell \<noteq> None then None else Some ip)"

definition parseIPv6 :: "string \<Rightarrow> Addr option" where
  "parseIPv6 inp =
     (let i = IndexByte inp (CHR ''%'');
          (s, z) = (if i \<ge> 0 then (take (nat i) inp, drop (nat i + 1) inp) else (inp, []))
      in if i \<ge> 0 \<and> z = [] then None
         else
           let (s, ell) = (if HasPrefix s ''::'' then (drop 2 s, Some 0) else (s, None)) in
           if ell \<noteq> None \<and> s = [] then Some (Addr6 (replicate 16 (char_of (0 :: nat))) z)
           else
             case v6_loop s [] ell of
               None \<Rightarrow> None
             | Some (ip, ell) \<Rightarrow> map_option (\<lambda>b. Addr6 b z) (expand ip ell))"

definition ParseAddr :: "string \<Rightarrow> Addr option" where
  "ParseAddr s =
     (case find (\<lambda>c. c \<in> {CHR ''.'', CHR '':'', CHR ''%''}) s of
        None \<Rightarrow> None
      | Some c \<Rightarrow>
          if c = CHR ''.'' then map_option Addr4 (parseIPv4 s)
          else if c = CHR '':'' then parseIPv6 s
          else None)"

text \<open>\<open>net.SplitHostPort\<close>, the host only; \<^const>\<open>None\<close> is an error.\<close>

definition SplitHostPort :: "string \<Rightarrow> string option" where
  "SplitHostPort hp =
     (case LastIndexByte hp (CHR '':'') of
        None \<Rightarrow> None
      | Some i \<Rightarrow>
          if HasPrefix hp ''['' then
            let e = IndexByte hp (CHR '']'') in
            if e < 0 \<or> nat e + 1 = length hp \<or> nat e + 1 \<noteq> i then None
            else if CHR ''['' \<in> set (drop 1 hp) \<or> CHR '']'' \<in> set (drop (nat e + 1) hp) then None
            else Some (take (nat e - 1) (drop 1 hp))
          else if CHR '':'' \<in> set (take i hp) then None
          else if CHR ''['' \<in> set hp \<or> CHR '']'' \<in> set hp then None
          else Some (take i hp))"

subsection \<open>Prefixes\<close>

record Prefix =
  px_addr :: Addr
  px_bits :: nat

definition bits_of :: "string \<Rightarrow> bool list" where
  "bits_of s = concat (map (\<lambda>c. map (\<lambda>i. odd (byte c div 2 ^ i)) (rev [0..<8])) s)"

definition Contains :: "Prefix \<Rightarrow> Addr \<Rightarrow> bool" where
  "Contains p a =
     (if zone a \<noteq> [] then False
      else if length (addr_bytes (px_addr p)) \<noteq> length (addr_bytes a) then False
      else take (px_bits p) (bits_of (addr_bytes (px_addr p))) = take (px_bits p) (bits_of (addr_bytes a)))"

definition ParsePrefix :: "string \<Rightarrow> Prefix option" where
  "ParsePrefix s =
     (case LastIndexByte s (CHR ''/'') of
        None \<Rightarrow> None
      | Some i \<Rightarrow>
          (case ParseAddr (take i s) of
             None \<Rightarrow> None
           | Some a \<Rightarrow>
               let b = drop (i + 1) s in
               if zone a \<noteq> [] then None
               else if b = [] \<or> \<not> list_all is_digit b \<or> (length b > 1 \<and> hd b = CHR ''0'') then None
               else if dec_val b > 8 * length (addr_bytes a) then None
               else Some \<lparr>px_addr = a, px_bits = dec_val b\<rparr>))"

subsection \<open>Printing\<close>

definition print4 :: "string \<Rightarrow> string" where
  "print4 b = Join ''.'' (map (\<lambda>c. dec_digits (byte c)) b)"

end
