(* ===== verification/ClientIP.thy ===== *)
theory ClientIP
  imports Netaddr
begin

text \<open>
  The real client address, \<open>internal/geo/clientip.go\<close>: the forwarding header counts only when the peer is a
  trusted proxy, and then the nearest hop that is not trusted is the client. What a client writes in
  front of the header is never taken for its address.
\<close>

definition parseHostAddr :: "string \<Rightarrow> Addr option" where
  "parseHostAddr s =
     (let s = TrimSpace s in
      if s = [] then None
      else
        let s = (case SplitHostPort s of Some h \<Rightarrow> h | None \<Rightarrow> s)
        in map_option Unmap (ParseAddr s))"

definition inAny :: "Addr \<Rightarrow> Prefix list \<Rightarrow> bool" where
  "inAny a prefixes = list_ex (\<lambda>p. Contains p a) prefixes"

text \<open>The addresses of one header line.\<close>

definition line_addrs :: "string \<Rightarrow> Addr list" where
  "line_addrs v = List.map_filter (\<lambda>part. parseHostAddr (TrimSpace part)) (Split (CHR '','') v)"

definition forwardedFor :: "http_header \<Rightarrow> Addr list" where
  "forwardedFor hdr = concat (map line_addrs (Header_Values hdr ''X-Forwarded-For''))"

definition ClientIP :: "string \<Rightarrow> http_header \<Rightarrow> Prefix list \<Rightarrow> Addr option" where
  "ClientIP remoteAddr hdr trusted =
     (case parseHostAddr remoteAddr of
        None \<Rightarrow> None
      | Some peer \<Rightarrow>
          if trusted = [] \<or> \<not> inAny peer trusted then Some peer
          else
            case find (\<lambda>a. \<not> inAny a trusted) (rev (forwardedFor hdr)) of
              Some a \<Rightarrow> Some a
            | None \<Rightarrow> Some peer)"

definition PeerTrusted :: "string \<Rightarrow> Prefix list \<Rightarrow> bool" where
  "PeerTrusted remoteAddr trusted =
     (if trusted = [] then False
      else case parseHostAddr remoteAddr of None \<Rightarrow> False | Some peer \<Rightarrow> inAny peer trusted)"

fun ParsePrefixes :: "string list \<Rightarrow> Prefix list option" where
  "ParsePrefixes [] = Some []"
| "ParsePrefixes (c # cs) =
     (case ParsePrefix (TrimSpace c) of
        None \<Rightarrow> None
      | Some p \<Rightarrow> map_option ((#) p) (ParsePrefixes cs))"

subsection \<open>Spoofing\<close>

lemma Split_append_general: "Split c (x @ c # y) = Split c x @ Split c y"
proof (induction x)
  case (Cons a x)
  then show ?case by (cases "Split c x") auto
qed simp

lemma line_addrs_append: "line_addrs (front @ CHR '','' # tail) = line_addrs front @ line_addrs tail"
  by (simp add: line_addrs_def Split_append_general List.map_filter_def)

text \<open>C31: A client cannot choose the address it is known by. Let the header end in a part that trusted
  proxies wrote, an address \<open>a\<close> that is not a trusted proxy followed by trusted ones; whatever header lines
  and whatever text the client put in front of it, the result is \<open>a\<close> when the peer is trusted, and the
  peer itself when it is not.\<close>

theorem client_ip_unspoofable:
  assumes "Header_Values hdr ''X-Forwarded-For'' = spoofed @ [front @ CHR '','' # tail]"
    and "line_addrs tail = a # proxies" and "\<not> inAny a trusted" and "list_all (\<lambda>p. inAny p trusted) proxies"
    and "parseHostAddr remoteAddr = Some peer"
  shows "ClientIP remoteAddr hdr trusted = Some (if PeerTrusted remoteAddr trusted then a else peer)"
proof -
  have "forwardedFor hdr = (concat (map line_addrs spoofed) @ line_addrs front) @ a # proxies"
    using assms(1,2) by (simp add: forwardedFor_def line_addrs_append)
  then have "rev (forwardedFor hdr) = rev proxies @ a # rev (concat (map line_addrs spoofed) @ line_addrs front)" by simp
  moreover have "find (\<lambda>a. \<not> inAny a trusted) (ps @ a # qs) = Some a" if "list_all (\<lambda>p. inAny p trusted) ps" for ps qs
    using that assms(3) by (induction ps) auto
  ultimately have "find (\<lambda>a. \<not> inAny a trusted) (rev (forwardedFor hdr)) = Some a" using assms(4) by (simp add: list_all_rev)
  then show ?thesis using assms(5) by (simp add: ClientIP_def PeerTrusted_def)
qed

theorem client_ip_unspoofable_witness:
  "ClientIP ''2.2.2.2'' (Some [(''X-Forwarded-For'', [''7.7.7.7,1.1.1.1''])])
     [\<lparr>px_addr = Addr4 (replicate 4 (char_of (2 :: nat))), px_bits = 8\<rparr>] = Some (Addr4 (replicate 4 (char_of (1 :: nat))))"
proof -
  let ?t = "[\<lparr>px_addr = Addr4 (replicate 4 (char_of (2 :: nat))), px_bits = 8\<rparr>]" and ?a = "Addr4 (replicate 4 (char_of (1 :: nat)))"
  have 1: "Header_Values (Some [(''X-Forwarded-For'', [''7.7.7.7,1.1.1.1''])]) ''X-Forwarded-For'' = [] @ [''7.7.7.7'' @ CHR '','' # ''1.1.1.1'']" by code_simp
  have 2: "line_addrs ''1.1.1.1'' = [?a]" by code_simp
  have 3: "\<not> inAny ?a ?t" by code_simp
  have 4: "parseHostAddr ''2.2.2.2'' = Some (Addr4 (replicate 4 (char_of (2 :: nat))))" by code_simp
  have 5: "inAny (Addr4 (replicate 4 (char_of (2 :: nat)))) ?t" by code_simp
  from client_ip_unspoofable [OF 1 2 3 _ 4] 4 5 show ?thesis by (simp add: PeerTrusted_def)
qed

end
