(* ===== verification/JsonToken.thy ===== *)
theory JsonToken
  imports QueryParse
begin

text \<open>
  The token reader of \<open>encoding/json\<close> as \<open>internal/pipeline/cookie_json.go\<close> uses it: \<open>Decoder.Token\<close> and
  \<open>Decoder.More\<close> over a value held in memory. A decoder holds the unread bytes, the state of the token
  grammar, the states of the enclosing containers, and whether numbers are kept as text.
\<close>

subsection \<open>Scalars\<close>

datatype jtoken = JDelim char | JString string | JNumber string | JBool bool | JNull

definition json_space :: "char \<Rightarrow> bool" where
  "json_space c \<longleftrightarrow> byte c \<in> {9, 10, 13, 32}"

definition json_quote :: char where
  "json_quote = CHR 0x22"

definition json_escape :: char where
  "json_escape = CHR 0x5C"

definition simple_escape :: "char \<Rightarrow> bool" where
  "simple_escape e \<longleftrightarrow> e \<in> set ''bfnrt/'' \<or> e = json_quote \<or> e = json_escape"

definition scan_escape :: "string \<Rightarrow> (string \<times> string) option" where
  "scan_escape s =
     (case s of
        [] \<Rightarrow> None
      | e # t \<Rightarrow>
          if e = CHR ''u'' then (if 4 \<le> length t \<and> list_all ishex (take 4 t) then Some (e # take 4 t, drop 4 t) else None)
          else if simple_escape e then Some ([e], t) else None)"

lemma scan_escape_less: "scan_escape s = Some (e, t) \<Longrightarrow> length t < length s"
  by (auto simp: scan_escape_def split: list.splits if_split_asm)

text \<open>The body of a string up to its closing quote, with its escapes checked, and what follows.\<close>

function scan_string :: "string \<Rightarrow> (string \<times> string) option" where
  "scan_string [] = None"
| "scan_string (c # s) =
     (if c = json_quote then Some ([], s)
      else if byte c < 32 then None
      else if c = json_escape then
        (case scan_escape s of
           None \<Rightarrow> None
         | Some (e, t) \<Rightarrow> map_option (\<lambda>(body, rest). (c # e @ body, rest)) (scan_string t))
      else map_option (\<lambda>(body, rest). (c # body, rest)) (scan_string s))"
  by pat_completeness auto
termination by (relation "measure length") (auto dest: scan_escape_less)

definition encode_rune :: "nat \<Rightarrow> string" where
  "encode_rune n =
     (if n < 128 then [char_of n]
      else if n < 2048 then [char_of (192 + n div 64), char_of (128 + n mod 64)]
      else if n < 65536 then [char_of (224 + n div 4096), char_of (128 + n div 64 mod 64), char_of (128 + n mod 64)]
      else [char_of (240 + n div 262144), char_of (128 + n div 4096 mod 64), char_of (128 + n div 64 mod 64), char_of (128 + n mod 64)])"

definition getu4 :: "string \<Rightarrow> nat" where
  "getu4 s = foldl (\<lambda>n c. 16 * n + unhex c) 0 (take 4 s)"

definition unescape_char :: "char \<Rightarrow> char" where
  "unescape_char e =
     (if e = CHR ''b'' then CHR 0x08 else if e = CHR ''f'' then CHR 0x0C else if e = CHR ''n'' then CHR 0x0A
      else if e = CHR ''r'' then CHR 0x0D else if e = CHR ''t'' then CHR 0x09 else e)"

text \<open>The value of a scanned body. A surrogate pair is one rune; a lone surrogate and an ill-formed byte
  become the replacement character.\<close>

function json_unquote :: "string \<Rightarrow> string" where
  "json_unquote s =
     (if s = [] then []
      else if hd s = json_escape \<and> HasPrefix (tl s) ''u'' then
        (let r = getu4 (drop 2 s); t = drop 6 s; r1 = getu4 (drop 2 t) in
         if 55296 \<le> r \<and> r < 57344 then
           (if HasPrefix t (json_escape # ''u'') \<and> r < 56320 \<and> 56320 \<le> r1 \<and> r1 < 57344
            then encode_rune ((r - 55296) * 1024 + (r1 - 56320) + 65536) @ json_unquote (drop 6 t)
            else replacement @ json_unquote t)
         else encode_rune r @ json_unquote t)
      else if hd s = json_escape then map unescape_char (take 1 (tl s)) @ json_unquote (drop 2 s)
      else if rune_len s = 0 then replacement @ json_unquote (tl s)
      else take (rune_len s) s @ json_unquote (drop (rune_len s) s))"
  by pat_completeness auto
termination by (relation "measure length") (auto simp: Let_def)

declare json_unquote.simps [simp del]

text \<open>The longest number at the front: optional sign, integer part without leading zeros, optional
  fraction and exponent. A fraction or an exponent that has begun must have a digit.\<close>

definition scan_fraction :: "string \<Rightarrow> (string \<times> string) option" where
  "scan_fraction s =
     (if HasPrefix s ''.'' then
        (let ds = takeWhile is_digit (tl s) in if ds = [] then None else Some (CHR ''.'' # ds, drop (length ds) (tl s)))
      else Some ([], s))"

definition exponent_sign :: "string \<Rightarrow> string" where
  "exponent_sign s = (if HasPrefix s ''+'' \<or> HasPrefix s ''-'' then take 1 s else [])"

definition scan_exponent :: "string \<Rightarrow> (string \<times> string) option" where
  "scan_exponent s =
     (if HasPrefix s ''e'' \<or> HasPrefix s ''E'' then
        (let sg = exponent_sign (tl s); t = drop (length sg) (tl s); ds = takeWhile is_digit t
         in if ds = [] then None else Some (hd s # sg @ ds, drop (length ds) t))
      else Some ([], s))"

definition scan_int :: "string \<Rightarrow> (string \<times> string) option" where
  "scan_int s =
     (let ds = (if HasPrefix s ''0'' then ''0'' else takeWhile is_digit s)
      in if ds = [] then None else Some (ds, drop (length ds) s))"

definition scan_number :: "string \<Rightarrow> (string \<times> string) option" where
  "scan_number s =
     (let sg = (if HasPrefix s ''-'' then ''-'' else [])
      in case scan_int (drop (length sg) s) of
           None \<Rightarrow> None
         | Some (ds, s1) \<Rightarrow>
             (case scan_fraction s1 of
                None \<Rightarrow> None
              | Some (fr, s2) \<Rightarrow>
                  (case scan_exponent s2 of None \<Rightarrow> None | Some (ex, rest) \<Rightarrow> Some (sg @ ds @ fr @ ex, rest))))"

definition scan_value :: "string \<Rightarrow> (jtoken \<times> string) option" where
  "scan_value s =
     (if HasPrefix s [json_quote] then map_option (\<lambda>(body, rest). (JString (json_unquote body), rest)) (scan_string (tl s))
      else if HasPrefix s ''true'' then Some (JBool True, drop 4 s)
      else if HasPrefix s ''false'' then Some (JBool False, drop 5 s)
      else if HasPrefix s ''null'' then Some (JNull, drop 4 s)
      else map_option (\<lambda>(lit, rest). (JNumber lit, rest)) (scan_number s))"

text \<open>Without \<open>UseNumber\<close> a number is converted to a \<open>float64\<close>, which fails when it rounds to infinity.\<close>

definition num_overflow :: "string \<Rightarrow> bool" where
  "num_overflow lit =
     (let s = dropWhile (\<lambda>c. c = CHR ''-'') lit;
          ip = takeWhile is_digit s; s = drop (length ip) s;
          fr = (if HasPrefix s ''.'' then takeWhile is_digit (tl s) else []);
          s = (if HasPrefix s ''.'' then drop (length fr) (tl s) else s);
          ex = (if s = [] then 0 else if HasPrefix (tl s) ''-'' then - int (dec_val (drop 2 s))
                else if HasPrefix (tl s) ''+'' then int (dec_val (drop 2 s)) else int (dec_val (tl s)));
          m = dec_val (ip @ fr); k = ex - int (length fr)
      in if m = 0 then False
         else if 0 \<le> k then m * 10 ^ nat k \<ge> 2 ^ 1024 - 2 ^ 970 else m \<ge> (2 ^ 1024 - 2 ^ 970) * 10 ^ nat (- k))"

subsection \<open>Tokens\<close>

datatype tokState =
    tokenTopValue | tokenArrayStart | tokenArrayValue | tokenArrayComma
  | tokenObjectStart | tokenObjectKey | tokenObjectColon | tokenObjectValue | tokenObjectComma

datatype jdecoder = Decoder (jd_rest: string) (jd_state: tokState) (jd_stack: "tokState list") (jd_useNumber: bool)

definition NewDecoder :: "string \<Rightarrow> jdecoder" where
  "NewDecoder raw = Decoder raw tokenTopValue [] False"

definition UseNumber :: "jdecoder \<Rightarrow> jdecoder" where
  "UseNumber d = Decoder (jd_rest d) (jd_state d) (jd_stack d) True"

definition tokenValueAllowed :: "tokState \<Rightarrow> bool" where
  "tokenValueAllowed st \<longleftrightarrow> st \<in> {tokenTopValue, tokenArrayStart, tokenArrayValue, tokenObjectValue}"

definition tokenValueEnd :: "tokState \<Rightarrow> tokState" where
  "tokenValueEnd st =
     (if st = tokenArrayStart \<or> st = tokenArrayValue then tokenArrayComma
      else if st = tokenObjectValue then tokenObjectComma else st)"

datatype jread = ReadEOF | ReadErr | ReadTok jtoken jdecoder

definition json_peek :: "string \<Rightarrow> string" where
  "json_peek s = dropWhile json_space s"

lemma json_peek_le: "length (json_peek s) \<le> length s"
  by (simp add: json_peek_def length_dropWhile_le)

definition read_scalar :: "string \<Rightarrow> tokState \<Rightarrow> tokState list \<Rightarrow> bool \<Rightarrow> jread" where
  "read_scalar s st stk un =
     (case scan_value s of
        None \<Rightarrow> ReadErr
      | Some (JNumber lit, rest) \<Rightarrow>
          if \<not> un \<and> num_overflow lit then ReadErr else ReadTok (JNumber lit) (Decoder rest (tokenValueEnd st) stk un)
      | Some (v, rest) \<Rightarrow> ReadTok v (Decoder rest (tokenValueEnd st) stk un))"

definition read_key :: "string \<Rightarrow> tokState list \<Rightarrow> bool \<Rightarrow> jread" where
  "read_key s stk un =
     (case scan_value s of
        Some (JString k, rest) \<Rightarrow> ReadTok (JString k) (Decoder rest tokenObjectColon stk un)
      | _ \<Rightarrow> ReadErr)"

definition close_container :: "char \<Rightarrow> string \<Rightarrow> tokState list \<Rightarrow> bool \<Rightarrow> jread" where
  "close_container c s stk un = ReadTok (JDelim c) (Decoder s (tokenValueEnd (hd stk)) (tl stk) un)"

function Token :: "jdecoder \<Rightarrow> jread" where
  "Token (Decoder raw st stk un) =
     (case json_peek raw of
        [] \<Rightarrow> ReadEOF
      | c # s \<Rightarrow>
          if c = CHR ''['' then
            (if tokenValueAllowed st then ReadTok (JDelim c) (Decoder s tokenArrayStart (st # stk) un) else ReadErr)
          else if c = CHR '']'' then
            (if st = tokenArrayStart \<or> st = tokenArrayComma then close_container c s stk un else ReadErr)
          else if c = CHR ''{'' then
            (if tokenValueAllowed st then ReadTok (JDelim c) (Decoder s tokenObjectStart (st # stk) un) else ReadErr)
          else if c = CHR ''}'' then
            (if st = tokenObjectStart \<or> st = tokenObjectComma then close_container c s stk un else ReadErr)
          else if c = CHR '':'' then (if st = tokenObjectColon then Token (Decoder s tokenObjectValue stk un) else ReadErr)
          else if c = CHR '','' then
            (if st = tokenArrayComma then Token (Decoder s tokenArrayValue stk un)
             else if st = tokenObjectComma then Token (Decoder s tokenObjectKey stk un) else ReadErr)
          else if c = json_quote \<and> (st = tokenObjectStart \<or> st = tokenObjectKey) then read_key (c # s) stk un
          else if tokenValueAllowed st then read_scalar (c # s) st stk un
          else ReadErr)"
  by pat_completeness auto
termination
  using json_peek_le by (relation "measure (length \<circ> jd_rest)") (auto, (metis Suc_le_eq length_Cons)+)

declare Token.simps [simp del]

definition More :: "jdecoder \<Rightarrow> bool" where
  "More d = (case json_peek (jd_rest d) of [] \<Rightarrow> False | c # s \<Rightarrow> c \<noteq> CHR '']'' \<and> c \<noteq> CHR ''}'')"

subsection \<open>Reading advances\<close>

lemma scan_string_less: "scan_string s = Some (body, rest) \<Longrightarrow> length rest < length s"
  by (induction s arbitrary: body rest rule: scan_string.induct)
     (auto dest!: scan_escape_less split: if_split_asm option.splits, fastforce)

lemma scan_int_less: "scan_int s = Some (ds, t) \<Longrightarrow> length t < length s"
proof -
  assume *: "scan_int s = Some (ds, t)"
  have "length (if HasPrefix s ''0'' then ''0'' else takeWhile is_digit s) \<le> length s"
    by (auto simp: length_takeWhile_le HasPrefix_iff)
  moreover have eq: "ds = (if HasPrefix s ''0'' then ''0'' else takeWhile is_digit s)" "ds \<noteq> []" "t = drop (length ds) s"
    using * by (auto simp: scan_int_def Let_def split: if_splits)
  ultimately have "0 < length ds" "length ds \<le> length s" by (metis length_greater_0_conv, metis)
  then show ?thesis unfolding eq(3) length_drop by linarith
qed

lemma scan_fraction_le: "scan_fraction s = Some (fr, t) \<Longrightarrow> length t \<le> length s"
  by (auto simp: scan_fraction_def Let_def split: if_splits)

lemma scan_exponent_le: "scan_exponent s = Some (ex, t) \<Longrightarrow> length t \<le> length s"
  by (auto simp: scan_exponent_def Let_def split: if_splits)

lemma scan_number_less: "scan_number s = Some (lit, rest) \<Longrightarrow> length rest < length s"
proof -
  assume *: "scan_number s = Some (lit, rest)"
  define n where "n = length (if HasPrefix s ''-'' then ''-'' else [])"
  obtain ds s1 fr s2 ex where "scan_int (drop n s) = Some (ds, s1)" "scan_fraction s1 = Some (fr, s2)" "scan_exponent s2 = Some (ex, rest)"
    using * by (auto simp: scan_number_def Let_def n_def [symmetric] split: option.splits)
  then show ?thesis using scan_int_less [of "drop n s"] scan_fraction_le [of s1] scan_exponent_le [of s2] by fastforce
qed

lemma scan_value_less: "scan_value s = Some (v, rest) \<Longrightarrow> length rest < length s"
  by (cases s) (auto simp: scan_value_def HasPrefix_iff dest!: scan_string_less scan_number_less split: if_splits)

lemma read_scalar_less: "read_scalar s st stk un = ReadTok t d \<Longrightarrow> length (jd_rest d) < length s"
  by (auto simp: read_scalar_def dest!: scan_value_less split: option.splits jtoken.splits if_splits)

lemma read_key_less: "read_key s stk un = ReadTok t d \<Longrightarrow> length (jd_rest d) < length s"
  by (auto simp: read_key_def dest!: scan_value_less split: option.splits jtoken.splits)

lemma Token_less_raw: "Token (Decoder raw st stk un) = ReadTok t d \<Longrightarrow> length (jd_rest d) < length raw"
proof (induction "length raw" arbitrary: raw st stk un rule: less_induct)
  case less
  show ?case
  proof (cases "json_peek raw")
    case Nil
    then show ?thesis using less.prems by (simp add: Token.simps)
  next
    case (Cons c s)
    then have le: "length s < length raw" using json_peek_le [of raw] by simp
    have IH: "length (jd_rest d) < length raw" if "Token (Decoder s st' stk' un) = ReadTok t d" for st' stk'
      using less.hyps [OF le that] le by simp
    have sc: "length (jd_rest d) < length raw" if "read_scalar (c # s) st stk un = ReadTok t d"
      using read_scalar_less [OF that] le by simp
    have ky: "length (jd_rest d) < length raw" if "read_key (x # s) stk un = ReadTok t d" for x
      using read_key_less [OF that] le by simp
    show ?thesis using less.prems le
      by (auto simp: Token.simps [of raw] Cons close_container_def dest: IH sc ky split: if_split_asm)
  qed
qed

lemma Token_less: "Token d = ReadTok t d' \<Longrightarrow> length (jd_rest d') < length (jd_rest d)"
  using Token_less_raw by (cases d) auto

end
