(* ===== verification/JsonField.thy ===== *)
theory JsonField
  imports JsonToken
begin

text \<open>
  The matchers on a field inside a JSON cookie or header, \<open>internal/pipeline/cookie_json.go\<close>. A field is
  resolved along a path while the value is read token by token. The main result is that reading agrees
  with a lookup in the parsed document.
\<close>

definition jsonValueSizeCap :: nat where "jsonValueSizeCap = 8 * 1024"

definition jsonDepthCap :: nat where "jsonDepthCap = 32"

datatype jsonPathSeg = SegKey string | SegIndex nat

definition isAllASCIIDigits :: "string \<Rightarrow> bool" where
  "isAllASCIIDigits s \<longleftrightarrow> s \<noteq> [] \<and> list_all is_digit s"

text \<open>A run of digits that does not fit an \<open>int\<close> stays an object key.\<close>

definition compile_seg :: "string \<Rightarrow> jsonPathSeg" where
  "compile_seg p =
     (if isAllASCIIDigits p then (case ParseInt p of None \<Rightarrow> SegKey p | Some n \<Rightarrow> SegIndex (nat n)) else SegKey p)"

datatype json_path_error = EmptyPath | PathTooDeep | EmptySegment

definition compileJSONPath :: "string \<Rightarrow> json_path_error + jsonPathSeg list" where
  "compileJSONPath path =
     (if path = [] then Inl EmptyPath
      else
        let parts = Split (CHR ''.'') path in
        if length parts > jsonDepthCap then Inl PathTooDeep
        else if list_ex (\<lambda>p. p = []) parts then Inl EmptySegment
        else Inr (map compile_seg parts))"

definition seg_string :: "jsonPathSeg \<Rightarrow> string" where
  "seg_string s = (case s of SegKey k \<Rightarrow> k | SegIndex n \<Rightarrow> FormatInt (int n))"

definition jsonPathString :: "jsonPathSeg list \<Rightarrow> string" where
  "jsonPathString segs = Join ''.'' (map seg_string segs)"

text \<open>The result of resolving a path: the text of a scalar, or nothing.\<close>

type_synonym jsonFieldResult = "string option"

subsection \<open>The whole document\<close>

function doc_loop :: "jdecoder \<Rightarrow> nat \<Rightarrow> bool \<Rightarrow> bool" where
  "doc_loop d depth complete =
     (case Token d of
        ReadEOF \<Rightarrow> True
      | ReadErr \<Rightarrow> False
      | ReadTok tok d' \<Rightarrow>
          if complete then False
          else
            case tok of
              JDelim c \<Rightarrow>
                if c = CHR ''{'' \<or> c = CHR ''['' then
                  (if depth + 1 > jsonDepthCap then False else doc_loop d' (depth + 1) complete)
                else doc_loop d' (depth - 1) (depth - 1 = 0)
            | _ \<Rightarrow> doc_loop d' depth (depth = 0))"
  by pat_completeness auto
termination by (relation "measure (\<lambda>(d, _). length (jd_rest d))") (auto dest: Token_less)

declare doc_loop.simps [simp del]

definition jsonDocDepthValid :: "string \<Rightarrow> bool" where
  "jsonDocDepthValid raw = doc_loop (NewDecoder raw) 0 False"

subsection \<open>Skipping\<close>

function skipValue :: "jdecoder \<Rightarrow> nat \<Rightarrow> bool \<times> jdecoder"
  and skip_items :: "jdecoder \<Rightarrow> nat \<Rightarrow> bool \<times> jdecoder" where
  "skipValue d depth =
     (if depth > jsonDepthCap then (False, d)
      else
        case Token d of
          ReadTok (JDelim c) d' \<Rightarrow> if c \<noteq> CHR ''{'' \<and> c \<noteq> CHR ''['' then (False, d') else skip_items d' depth
        | ReadTok tok d' \<Rightarrow> (True, d')
        | _ \<Rightarrow> (False, d))"
| "skip_items d depth =
     (if More d then
        (let r = skipValue d (depth + 1) in if fst r then skip_items (snd r) depth else (False, snd r))
      else (case Token d of ReadTok tok d' \<Rightarrow> (True, d') | _ \<Rightarrow> (False, d)))"
  by pat_completeness auto
termination
proof -
  have shrinks:
    "skipValue_skip_items_dom (Inl (d, depth)) \<Longrightarrow> fst (skipValue d depth) \<Longrightarrow> length (jd_rest (snd (skipValue d depth))) < length (jd_rest d)"
    "skipValue_skip_items_dom (Inr (d, depth)) \<Longrightarrow> fst (skip_items d depth) \<Longrightarrow> length (jd_rest (snd (skip_items d depth))) < length (jd_rest d)"
    for d depth
  proof (induction rule: skipValue_skip_items.pinduct)
    case (1 d depth)
    show ?case
    proof (cases "Token d")
      case (ReadTok tok d1)
      then have "length (jd_rest d1) < length (jd_rest d)" by (rule Token_less)
      then show ?thesis using "1.prems" "1.hyps" "1.IH" [OF _ ReadTok] ReadTok
        by (cases tok) (auto simp: skipValue.psimps split: if_split_asm)
    qed (use "1.prems" "1.hyps" in \<open>simp_all add: skipValue.psimps split: if_split_asm\<close>)
  next
    case (2 d depth)
    show ?case
    proof (cases "More d")
      case True
      with "2.prems" "2.hyps" have ok: "fst (skipValue d (depth + 1))" and eq: "skip_items d depth = skip_items (snd (skipValue d (depth + 1))) depth"
        by (auto simp: skip_items.psimps Let_def split: if_split_asm)
      from "2.IH"(1) [OF True ok] "2.IH"(2) [OF True refl ok] "2.prems" show ?thesis unfolding eq by simp
    next
      case False
      then show ?thesis using "2.prems" "2.hyps" by (auto simp: skip_items.psimps dest: Token_less split: jread.splits)
    qed
  qed
  show ?thesis
    by (relation "inv_image (less_than <*lex*> less_than) (\<lambda>x. case x of
      Inl (d, depth) \<Rightarrow> (length (jd_rest d), 0 :: nat) | Inr (d, depth) \<Rightarrow> (length (jd_rest d), 1))") (auto dest: Token_less shrinks(1))
qed

declare skipValue.simps [simp del] skip_items.simps [simp del]

text \<open>A decoder is returned where it stopped: past the value, or at least not before it.\<close>

lemma skip_shrinks:
  "fst (skipValue d depth) \<Longrightarrow> length (jd_rest (snd (skipValue d depth))) < length (jd_rest d)"
  "fst (skip_items d depth) \<Longrightarrow> length (jd_rest (snd (skip_items d depth))) < length (jd_rest d)"
proof (induction d depth and d depth rule: skipValue_skip_items.induct)
  case (1 d depth)
  then show ?case by (fastforce simp: skipValue.simps [of d] dest: Token_less split: if_split_asm jread.splits jtoken.splits)
next
  case (2 d depth)
  then show ?case by (fastforce simp: skip_items.simps [of d] Let_def dest: Token_less split: if_split_asm jread.splits)
qed

lemma skip_le:
  "length (jd_rest (snd (skipValue d depth))) \<le> length (jd_rest d)"
  "length (jd_rest (snd (skip_items d depth))) \<le> length (jd_rest d)"
proof (induction d depth and d depth rule: skipValue_skip_items.induct)
  case (1 d depth)
  then show ?case by (fastforce simp: skipValue.simps [of d] dest: Token_less split: if_split_asm jread.splits jtoken.splits)
next
  case (2 d depth)
  then show ?case by (fastforce simp: skip_items.simps [of d] Let_def dest: Token_less split: if_split_asm jread.splits)
qed

function drainContainer :: "jdecoder \<Rightarrow> jdecoder" where
  "drainContainer d =
     (if More d then (let r = skipValue d 0 in if fst r then drainContainer (snd r) else snd r)
      else (case Token d of ReadTok tok d' \<Rightarrow> d' | _ \<Rightarrow> d))"
  by pat_completeness auto
termination by (relation "measure (length \<circ> jd_rest)") (auto dest: skip_shrinks(1))

declare drainContainer.simps [simp del]

lemma drainContainer_le: "length (jd_rest (drainContainer d)) \<le> length (jd_rest d)"
proof (induction d rule: drainContainer.induct)
  case (1 d)
  have "length (jd_rest (snd (skipValue d 0))) \<le> length (jd_rest d)" by (rule skip_le)
  then show ?case using 1 by (fastforce simp: drainContainer.simps [of d] Let_def dest: Token_less split: jread.splits)
qed

subsection \<open>Descending\<close>

definition decodeScalar :: "jdecoder \<Rightarrow> nat \<Rightarrow> jsonFieldResult \<times> jdecoder" where
  "decodeScalar d depth =
     (if depth > jsonDepthCap then (None, d)
      else
        case Token d of
          ReadTok tok d' \<Rightarrow>
            (case tok of
               JDelim c \<Rightarrow> (None, if c = CHR ''{'' \<or> c = CHR ''['' then drainContainer d' else d')
             | JString v \<Rightarrow> (Some v, d')
             | JNumber v \<Rightarrow> (Some v, d')
             | JBool b \<Rightarrow> (Some (if b then ''true'' else ''false''), d')
             | JNull \<Rightarrow> (None, d'))
        | _ \<Rightarrow> (None, d))"

lemma decodeScalar_le: "length (jd_rest (snd (decodeScalar d depth))) \<le> length (jd_rest d)"
  using drainContainer_le
  by (fastforce simp: decodeScalar_def dest: Token_less intro: le_trans split: jread.splits jtoken.splits)

function descend :: "jdecoder \<Rightarrow> jsonPathSeg list \<Rightarrow> nat \<Rightarrow> jsonFieldResult \<times> jdecoder"
  and descendObject :: "jdecoder \<Rightarrow> jsonPathSeg list \<Rightarrow> nat \<Rightarrow> string \<Rightarrow> jsonFieldResult \<Rightarrow> jsonFieldResult \<times> jdecoder"
  and descendArray :: "jdecoder \<Rightarrow> jsonPathSeg list \<Rightarrow> nat \<Rightarrow> nat \<Rightarrow> nat \<Rightarrow> jsonFieldResult \<Rightarrow> jsonFieldResult \<times> jdecoder"
where
  "descend d segs depth =
     (if depth > jsonDepthCap then (None, d)
      else
        case Token d of
          ReadTok (JDelim c) d' \<Rightarrow>
            if c = CHR ''{'' then
              (case segs ! depth of
                 SegIndex n \<Rightarrow> (None, drainContainer d')
               | SegKey key \<Rightarrow> descendObject d' segs depth key None)
            else if c = CHR ''['' then
              (case segs ! depth of
                 SegKey key \<Rightarrow> (None, drainContainer d')
               | SegIndex n \<Rightarrow> descendArray d' segs depth n 0 None)
            else (None, d')
        | ReadTok tok d' \<Rightarrow> (None, d')
        | _ \<Rightarrow> (None, d))"
| "descendObject d segs depth key res =
     (if More d then
        case Token d of
          ReadTok (JString k) d' \<Rightarrow>
            if k = key then
              (let r = (if depth = length segs - 1 then decodeScalar d' (depth + 1) else descend d' segs (depth + 1))
               in descendObject (snd r) segs depth key (fst r))
            else
              (let r = skipValue d' (depth + 1)
               in if fst r then descendObject (snd r) segs depth key res else (None, snd r))
        | ReadTok tok d' \<Rightarrow> (None, d')
        | _ \<Rightarrow> (None, d)
      else (case Token d of ReadTok tok d' \<Rightarrow> (res, d') | _ \<Rightarrow> (None, d)))"
| "descendArray d segs depth index i res =
     (if More d then
        if i = index then
          (let r = (if depth = length segs - 1 then decodeScalar d (depth + 1) else descend d segs (depth + 1))
           in descendArray (snd r) segs depth index (i + 1) (fst r))
        else
          (let r = skipValue d (depth + 1)
           in if fst r then descendArray (snd r) segs depth index (i + 1) res else (None, snd r))
      else (case Token d of ReadTok tok d' \<Rightarrow> (res, d') | _ \<Rightarrow> (None, d)))"
  by pat_completeness auto
termination
proof -
  have le:
    "descend_descendObject_descendArray_dom (Inl (d, segs, depth)) \<Longrightarrow>
       length (jd_rest (snd (descend d segs depth))) \<le> length (jd_rest d)"
    "descend_descendObject_descendArray_dom (Inr (Inl (d, segs, depth, key, res))) \<Longrightarrow>
       length (jd_rest (snd (descendObject d segs depth key res))) \<le> length (jd_rest d)"
    "descend_descendObject_descendArray_dom (Inr (Inr (d, segs, depth, index, i, res))) \<Longrightarrow>
       length (jd_rest (snd (descendArray d segs depth index i res))) \<le> length (jd_rest d)"
    for d segs depth key res index i
  proof (induction rule: descend_descendObject_descendArray.pinduct)
    case (1 d segs depth)
    show ?case
    proof (cases "Token d")
      case (ReadTok tok d')
      then have lt: "length (jd_rest d') < length (jd_rest d)" by (rule Token_less)
      show ?thesis using lt ReadTok "1.hyps" "1.IH" drainContainer_le [of d']
        by (fastforce simp: descend.psimps split: jtoken.splits jsonPathSeg.splits if_split_asm)
    qed (simp_all add: descend.psimps "1.hyps")
  next
    case (2 d segs depth key res)
    show ?case
    proof (cases "More d")
      case More: True
      show ?thesis
      proof (cases "\<exists>k d'. Token d = ReadTok (JString k) d'")
        case True
        then obtain k d1 where t: "Token d = ReadTok (JString k) d1" by blast
        define r where "r = (if depth = length segs - 1 then decodeScalar d1 (depth + 1) else descend d1 segs (depth + 1))"
        define q where "q = skipValue d1 (depth + 1)"
        have eq: "descendObject d segs depth key res =
            (if k = key then descendObject (snd r) segs depth key (fst r)
             else if fst q then descendObject (snd q) segs depth key res else (None, snd q))"
          using More t "2.hyps" by (simp add: descendObject.psimps r_def q_def Let_def)
        have lt: "length (jd_rest d1) < length (jd_rest d)" using t by (rule Token_less)
        have r: "length (jd_rest (snd r)) \<le> length (jd_rest d1)" if "k = key"
          using "2.IH"(1) [OF More t refl that] by (simp add: r_def decodeScalar_le)
        have q: "length (jd_rest (snd q)) \<le> length (jd_rest d1)" by (simp add: q_def skip_le)
        have "length (jd_rest (snd (descendObject (snd r) segs depth key (fst r)))) \<le> length (jd_rest (snd r))" if "k = key"
          using "2.IH"(2) [OF More t refl that r_def] .
        moreover have "length (jd_rest (snd (descendObject (snd q) segs depth key res))) \<le> length (jd_rest (snd q))" if "k \<noteq> key" "fst q"
          using "2.IH"(3) [OF More t refl that(1) q_def that(2)] .
        ultimately show ?thesis using lt r q unfolding eq by fastforce
      next
        case False
        with More "2.hyps" show ?thesis
          by (auto simp: descendObject.psimps dest: Token_less split: jread.splits jtoken.splits)
      qed
    next
      case False
      with "2.hyps" show ?thesis by (auto simp: descendObject.psimps dest: Token_less split: jread.splits)
    qed
  next
    case (3 d segs depth index i res)
    show ?case
    proof (cases "More d")
      case True
      define r where "r = (if depth = length segs - 1 then decodeScalar d (depth + 1) else descend d segs (depth + 1))"
      define q where "q = skipValue d (depth + 1)"
      have eq: "descendArray d segs depth index i res =
          (if i = index then descendArray (snd r) segs depth index (i + 1) (fst r)
           else if fst q then descendArray (snd q) segs depth index (i + 1) res else (None, snd q))"
        using True "3.hyps" by (simp add: descendArray.psimps r_def q_def Let_def)
      have r: "length (jd_rest (snd r)) \<le> length (jd_rest d)" if "i = index"
        using "3.IH"(1) [OF True that] by (simp add: r_def decodeScalar_le)
      have q: "length (jd_rest (snd q)) \<le> length (jd_rest d)" by (simp add: q_def skip_le)
      have "length (jd_rest (snd (descendArray (snd r) segs depth index (i + 1) (fst r)))) \<le> length (jd_rest (snd r))" if "i = index"
        using "3.IH"(2) [OF True that r_def] .
      moreover have "length (jd_rest (snd (descendArray (snd q) segs depth index (i + 1) res))) \<le> length (jd_rest (snd q))" if "i \<noteq> index" "fst q"
        using "3.IH"(3) [OF True that(1) q_def that(2)] .
      ultimately show ?thesis using r q unfolding eq by fastforce
    next
      case False
      with "3.hyps" show ?thesis by (auto simp: descendArray.psimps dest: Token_less split: jread.splits)
    qed
  qed
  show ?thesis
    by (relation "inv_image (less_than <*lex*> less_than) (\<lambda>x. case x of
      Inl (d, segs, depth) \<Rightarrow> (length (jd_rest d), 0 :: nat)
    | Inr (Inl (d, segs, depth, key, res)) \<Rightarrow> (length (jd_rest d), 1)
    | Inr (Inr (d, segs, depth, index, i, res)) \<Rightarrow> (length (jd_rest d), if i \<le> index then 2 else 1))")
      (auto dest: Token_less intro: skip_shrinks(1) le_less_trans [OF decodeScalar_le Token_less] le_less_trans [OF le(1) Token_less]
        le_less_trans [OF skip_le(1) Token_less] le_neq_implies_less [OF decodeScalar_le] le_neq_implies_less [OF le(1)])
qed

declare descend.simps [simp del] descendObject.simps [simp del] descendArray.simps [simp del]

definition resolveJSONField :: "string \<Rightarrow> jsonPathSeg list \<Rightarrow> jsonFieldResult" where
  "resolveJSONField raw segs =
     (if length raw > jsonValueSizeCap then None
      else if segs = [] then None
      else if \<not> jsonDocDepthValid raw then None
      else fst (descend (UseNumber (NewDecoder raw)) segs 0))"

text \<open>\<open>url.PathUnescape\<close>: percent escapes only.\<close>

fun PathUnescape :: "string \<Rightarrow> string option" where
  "PathUnescape [] = Some []"
| "PathUnescape (c # s) =
     (if c = CHR ''%'' then
        (case s of
           a # b # s' \<Rightarrow>
             if ishex a \<and> ishex b then map_option (\<lambda>t. char_of (16 * unhex a + unhex b) # t) (PathUnescape s') else None
         | _ \<Rightarrow> None)
      else map_option (\<lambda>t. c # t) (PathUnescape s))"

definition decodeJSONCookieValue :: "string \<Rightarrow> string" where
  "decodeJSONCookieValue raw =
     (if CHR ''%'' \<notin> set raw then raw else case PathUnescape raw of Some v \<Rightarrow> v | None \<Rightarrow> raw)"

definition jsonMatch :: "string \<Rightarrow> bool \<Rightarrow> jsonPathSeg list \<Rightarrow> string list \<Rightarrow> bool" where
  "jsonMatch raw present segs values =
     (if \<not> present then False
      else
        case resolveJSONField (decodeJSONCookieValue raw) segs of
          None \<Rightarrow> False
        | Some v \<Rightarrow> if values = [] then True else list_ex (\<lambda>want. v = want) values)"

end
