(* ===== verification/Matcher.thy ===== *)
theory Matcher
  imports ClientIP JsonField
begin

text \<open>
  The matchers of the pipeline, \<open>internal/pipeline/matcher.go\<close> with the classifiers of \<open>classify.go\<close> and the
  conjunctions of \<open>secgate.go\<close>: the compiled predicates, their evaluation through the memo of a match
  context, and scopes. A compiled regular expression is the predicate of the strings it matches. The
  main result is that the memo is transparent.
\<close>

subsection \<open>Compiled matchers\<close>

datatype geoGranularity = geoCountry | geoContinent | geoRegion

text \<open>The kinds that evaluate no other matcher.\<close>

datatype leafKind =
    kindPath pathSet
  | kindPathRegex "string \<Rightarrow> bool"
  | kindHost hostSet
  | kindHostRegex "string \<Rightarrow> bool"
  | kindHeader string "string list"
  | kindHeaderPresent string
  | kindHeaderRegex string "string \<Rightarrow> bool"
  | kindMethod "string list"
  | kindUpstream "string list"
  | kindContentType "string list"
  | kindRespHeader string "nameGlobSet option"
  | kindCookie string bool "string list"
  | kindSetCookie "string list"
  | kindGeo geoGranularity "string list"
  | kindQueryPresent nameGlobSet "nameGlobSet option"
  | kindQuery string "string list"
  | kindIP "Prefix list"
  | kindCookieJSON string "jsonPathSeg list" "string list"
  | kindHeaderJSON string "jsonPathSeg list" "string list"
  | kindUpstreamHealthy "string list"

datatype matcher = Matcher (m_name: string) (m_idx: int) (m_kind: matcherKind)
and matcherKind = Leaf leafKind | kindClassify classifier string bool | kindAll "(matcher \<times> bool) list"
and classifier = Classifier (cl_rows: "(matcher list \<times> string) list") (cl_def: string)
    (derivesFrom: "string list") (derivesForward: "string list")

type_synonym secTerm = "matcher \<times> bool"

definition isResponsePhaseKind :: "matcherKind \<Rightarrow> bool" where
  "isResponsePhaseKind k =
     (case k of
        Leaf l \<Rightarrow> (case l of kindContentType _ \<Rightarrow> True | kindSetCookie _ \<Rightarrow> True | kindRespHeader _ _ \<Rightarrow> True | _ \<Rightarrow> False)
      | _ \<Rightarrow> False)"

text \<open>A scope is an OR of matchers; no scope at all always matches.\<close>

type_synonym scope = "matcher list option"

text \<open>The response header is present in the response phases only.\<close>

record matchContext =
  mc_req :: Request
  mc_upstream :: string
  mc_respHeader :: http_header

subsection \<open>Cookies and headers\<close>

definition cookieRaw :: "Request \<Rightarrow> string \<Rightarrow> string \<times> bool" where
  "cookieRaw req name =
     (case find (\<lambda>c. ck_name c = name) (lenientCookies (hr_Header req)) of Some c \<Rightarrow> (ck_value c, True) | None \<Rightarrow> ([], False))"

definition cookiePresent :: "Request \<Rightarrow> string \<Rightarrow> bool" where
  "cookiePresent req name = list_ex (\<lambda>c. ck_name c = name) (lenientCookies (hr_Header req))"

definition cookieNamePrefixPresent :: "Request \<Rightarrow> string \<Rightarrow> bool" where
  "cookieNamePrefixPresent req pre = list_ex (\<lambda>c. HasPrefix (ck_name c) pre) (lenientCookies (hr_Header req))"

definition headerValues :: "Request \<Rightarrow> string \<Rightarrow> string list" where
  "headerValues req name = (if hr_Header req = None then [] else header_lines (hr_Header req) (CanonicalHeaderKey name))"

definition headerPresent :: "Request \<Rightarrow> string \<Rightarrow> bool" where
  "headerPresent req name = (case hr_Header req of None \<Rightarrow> False | Some h \<Rightarrow> map_of h (CanonicalHeaderKey name) \<noteq> None)"

definition Header_Get :: "http_header \<Rightarrow> string \<Rightarrow> string" where
  "Header_Get h name = (case Header_Values h name of [] \<Rightarrow> [] | v # vs \<Rightarrow> v)"

text \<open>The names of the cookies that \<open>net/http\<close> reads from the \<open>Set-Cookie\<close> lines of a response. A line without an
  equals sign, with a name that is not a token or with a byte that a value may not have is dropped.\<close>

definition text_space :: "char \<Rightarrow> bool" where
  "text_space c \<longleftrightarrow> byte c \<in> {9, 10, 13, 32}"

definition TrimString :: "string \<Rightarrow> string" where
  "TrimString s = rev (dropWhile text_space (rev (dropWhile text_space s)))"

definition isToken :: "string \<Rightarrow> bool" where
  "isToken s \<longleftrightarrow> s \<noteq> [] \<and> list_all validHeaderFieldByte s"

definition validCookieValueByte :: "char \<Rightarrow> bool" where
  "validCookieValueByte c \<longleftrightarrow> 32 \<le> byte c \<and> byte c < 127 \<and> byte c \<notin> {34, 59, 92}"

definition set_cookie_name :: "string \<Rightarrow> string option" where
  "set_cookie_name line =
     (let part = TrimString (hd (Split (CHR '';'') (TrimString line))) in
      if CHR ''='' \<notin> set part then None
      else
        let (name, val) = Cut part (CHR ''=''); name = TrimString name;
            val = (if length val > 1 \<and> byte (hd val) = 34 \<and> byte (last val) = 34 then butlast (tl val) else val)
        in if isToken name \<and> list_all validCookieValueByte val then Some name else None)"

definition set_cookie_names :: "http_header \<Rightarrow> string list" where
  "set_cookie_names h = List.map_filter set_cookie_name (header_lines h ''Set-Cookie'')"

subsection \<open>Evaluation\<close>

text \<open>A comparison in constant time is an equality.\<close>

definition geo_value :: "Request \<Rightarrow> geoGranularity \<Rightarrow> string" where
  "geo_value req g = (case g of geoCountry \<Rightarrow> hr_Geo req | geoContinent \<Rightarrow> hr_GeoContinent req | geoRegion \<Rightarrow> hr_GeoRegion req)"

definition query_present :: "nameGlobSet \<Rightarrow> nameGlobSet option \<Rightarrow> string \<times> string list \<Rightarrow> bool" where
  "query_present names nonEmpty param =
     (case param of (name, vals) \<Rightarrow>
        if \<not> nameGlobSet_match names name then False
        else (case nonEmpty of
                Some ne \<Rightarrow> if nameGlobSet_match ne name then list_ex (\<lambda>v. v \<noteq> []) vals else True
              | None \<Rightarrow> True))"

definition leaf_match :: "matchContext \<Rightarrow> leafKind \<Rightarrow> bool" where
  "leaf_match c k =
     (let req = mc_req c in
      case k of
        kindPath paths \<Rightarrow> pathSet_Match paths (hr_Path req)
      | kindPathRegex re \<Rightarrow> re (hr_Path req)
      | kindHost hosts \<Rightarrow> hostSet_Match hosts (hr_Host req)
      | kindHostRegex re \<Rightarrow> re (normHost req)
      | kindHeaderPresent name \<Rightarrow> headerPresent req name
      | kindHeaderRegex name re \<Rightarrow> list_ex re (headerValues req name)
      | kindHeader name values \<Rightarrow>
          if values = [] then headerPresent req name
          else list_ex (\<lambda>v. list_ex (\<lambda>want. v = want) values) (headerValues req name)
      | kindMethod methods \<Rightarrow> req_method req \<in> set methods
      | kindUpstream upstreams \<Rightarrow> mc_upstream c \<in> set upstreams
      | kindContentType types \<Rightarrow>
          (let ct = ToLower (Header_Get (mc_respHeader c) ''Content-Type'')
           in mc_respHeader c \<noteq> None \<and> ct \<noteq> [] \<and> list_ex (\<lambda>want. StrIndex ct want \<noteq> None) types)
      | kindRespHeader name values \<Rightarrow>
          mc_respHeader c \<noteq> None \<and>
          (case values of
             None \<Rightarrow> Header_Values (mc_respHeader c) name \<noteq> []
           | Some globs \<Rightarrow> list_ex (nameGlobSet_match globs) (Header_Values (mc_respHeader c) name))
      | kindCookie name glob values \<Rightarrow>
          if glob then cookieNamePrefixPresent req name
          else if values = [] then cookiePresent req name
          else list_ex (\<lambda>want. req_cookie req name = want) values
      | kindCookieJSON name path values \<Rightarrow> (case cookieRaw req name of (raw, present) \<Rightarrow> jsonMatch raw present path values)
      | kindHeaderJSON name path values \<Rightarrow> list_ex (\<lambda>raw. jsonMatch raw True path values) (Header_Values (hr_Header req) name)
      | kindSetCookie names \<Rightarrow>
          (let cookies = set_cookie_names (mc_respHeader c)
           in mc_respHeader c \<noteq> None \<and> cookies \<noteq> [] \<and> (names = [] \<or> list_ex (\<lambda>n. n \<in> set names) cookies))
      | kindGeo g values \<Rightarrow> (let got = geo_value req g in got \<noteq> [] \<and> got \<in> set values)
      | kindQueryPresent names nonEmpty \<Rightarrow> list_ex (query_present names nonEmpty) (hr_Query req)
      | kindQuery name values \<Rightarrow>
          (case map_of (hr_Query req) name of
             None \<Rightarrow> False
           | Some vals \<Rightarrow> values = [] \<or> list_ex (\<lambda>got. got \<in> set values) vals)
      | kindIP prefixes \<Rightarrow> (case hr_RealClientIP req of None \<Rightarrow> False | Some ip \<Rightarrow> list_ex (\<lambda>p. Contains p (Unmap ip)) prefixes)
      | kindUpstreamHealthy pools \<Rightarrow> (case hr_PoolHealthy req of None \<Rightarrow> False | Some healthy \<Rightarrow> list_ex healthy pools))"

text \<open>The memo has one cell per indexed matcher; \<^const>\<open>None\<close> is not yet evaluated. A matcher without a cell is
  evaluated every time.\<close>

type_synonym memo = "bool option list"

function match :: "matchContext \<Rightarrow> matcherKind \<Rightarrow> memo \<Rightarrow> bool \<times> memo"
  and matches :: "matchContext \<Rightarrow> matcher \<Rightarrow> memo \<Rightarrow> bool \<times> memo"
  and respondTermsMatch :: "matchContext \<Rightarrow> secTerm list \<Rightarrow> memo \<Rightarrow> bool \<times> memo"
  and resolve_rows :: "matchContext \<Rightarrow> (matcher list \<times> string) list \<Rightarrow> string \<Rightarrow> memo \<Rightarrow> string \<times> memo"
  and conjMatches :: "matchContext \<Rightarrow> matcher list \<Rightarrow> memo \<Rightarrow> bool \<times> memo" where
  "match c (kindClassify (Classifier rows def dfrom dfwd) value negate) memo =
     (case resolve_rows c rows def memo of (got, memo) \<Rightarrow> (if negate then got \<noteq> value else got = value, memo))"
| "match c (kindAll terms) memo = respondTermsMatch c terms memo"
| "match c (Leaf l) memo = (leaf_match c l, memo)"
| "matches c (Matcher name idx k) memo =
     (if 0 \<le> idx \<and> nat idx < length memo then
        (case memo ! nat idx of
           Some b \<Rightarrow> (b, memo)
         | None \<Rightarrow> (case match c k memo of (v, memo) \<Rightarrow> (v, memo[nat idx := Some v])))
      else match c k memo)"
| "respondTermsMatch c [] memo = (True, memo)"
| "respondTermsMatch c ((m, negate) # terms) memo =
     (case matches c m memo of (got, memo) \<Rightarrow> if got = negate then (False, memo) else respondTermsMatch c terms memo)"
| "resolve_rows c [] def memo = (def, memo)"
| "resolve_rows c ((conds, value) # rows) def memo =
     (case conjMatches c conds memo of (ok, memo) \<Rightarrow> if ok then (value, memo) else resolve_rows c rows def memo)"
| "conjMatches c [] memo = (True, memo)"
| "conjMatches c (m # conds) memo =
     (case matches c m memo of (ok, memo) \<Rightarrow> if ok then conjMatches c conds memo else (False, memo))"
  by pat_completeness auto
termination
  by (relation "measure (case_sum (case_sum (\<lambda>(c, k, memo). size k) (\<lambda>(c, m, memo). size m))
        (case_sum (\<lambda>(c, terms, memo). size_list (size_prod size (\<lambda>_. 0)) terms)
          (case_sum (\<lambda>(c, rows, def, memo). size_list (size_prod (size_list size) (\<lambda>_. 0)) rows) (\<lambda>(c, ms, memo). size_list size ms))))")
     auto

definition resolve :: "matchContext \<Rightarrow> classifier \<Rightarrow> memo \<Rightarrow> string \<times> memo" where
  "resolve c cl memo = resolve_rows c (cl_rows cl) (cl_def cl) memo"

fun any_match :: "matchContext \<Rightarrow> matcher list \<Rightarrow> memo \<Rightarrow> bool \<times> memo" where
  "any_match c [] memo = (False, memo)"
| "any_match c (m # ms) memo = (case matches c m memo of (ok, memo) \<Rightarrow> if ok then (True, memo) else any_match c ms memo)"

definition scopeMatches :: "matchContext \<Rightarrow> scope \<Rightarrow> memo \<Rightarrow> bool \<times> memo" where
  "scopeMatches c s memo = (case s of None \<Rightarrow> (True, memo) | Some ms \<Rightarrow> any_match c ms memo)"

subsection \<open>The memo is transparent\<close>

text \<open>The value of a matcher in a context without a memo.\<close>

definition ctx_matches :: "matchContext \<Rightarrow> matcher \<Rightarrow> bool" where
  "ctx_matches c m = fst (matches c m [])"

text \<open>The matchers that evaluating a matcher may evaluate, itself included.\<close>

function kind_subs :: "matcherKind \<Rightarrow> matcher set" and subs :: "matcher \<Rightarrow> matcher set" and term_subs :: "secTerm list \<Rightarrow> matcher set"
  and row_subs :: "(matcher list \<times> string) list \<Rightarrow> matcher set" and list_subs :: "matcher list \<Rightarrow> matcher set" where
  "kind_subs (kindClassify (Classifier rows def dfrom dfwd) value negate) = row_subs rows"
| "kind_subs (kindAll terms) = term_subs terms"
| "kind_subs (Leaf l) = {}"
| "subs (Matcher name idx k) = insert (Matcher name idx k) (kind_subs k)"
| "term_subs [] = {}"
| "term_subs ((m, negate) # terms) = subs m \<union> term_subs terms"
| "row_subs [] = {}"
| "row_subs ((conds, value) # rows) = list_subs conds \<union> row_subs rows"
| "list_subs [] = {}"
| "list_subs (m # ms) = subs m \<union> list_subs ms"
  by pat_completeness auto
termination
  by (relation "measure (case_sum (case_sum size size)
        (case_sum (size_list (size_prod size (\<lambda>_. 0))) (case_sum (size_list (size_prod (size_list size) (\<lambda>_. 0))) (size_list size))))")
     auto

text \<open>No two matchers share a cell, and every filled cell holds the value of its matcher.\<close>

definition indexed :: "matcher set \<Rightarrow> bool" where
  "indexed M \<longleftrightarrow> (\<forall>m \<in> M. \<forall>m' \<in> M. 0 \<le> m_idx m \<and> m_idx m = m_idx m' \<longrightarrow> m = m')"

definition valid_memo :: "matchContext \<Rightarrow> matcher set \<Rightarrow> memo \<Rightarrow> bool" where
  "valid_memo c M memo \<longleftrightarrow>
     (\<forall>m \<in> M. \<forall>b. 0 \<le> m_idx m \<longrightarrow> nat (m_idx m) < length memo \<longrightarrow> memo ! nat (m_idx m) = Some b \<longrightarrow> ctx_matches c m = b)"

lemma no_memo:
  "snd (match c k []) = []" "snd (matches c m []) = []" "snd (respondTermsMatch c terms []) = []"
  "snd (resolve_rows c rows def []) = []" "snd (conjMatches c conds []) = []"
  by (induction c k "[] :: memo" and c m "[] :: memo" and c terms "[] :: memo" and c rows def "[] :: memo" and c conds "[] :: memo"
      rule: match_matches_respondTermsMatch_resolve_rows_conjMatches.induct) (auto split: prod.splits)

definition transparent :: "matchContext \<Rightarrow> matcher set \<Rightarrow> (memo \<Rightarrow> 'a \<times> memo) \<Rightarrow> memo \<Rightarrow> bool" where
  "transparent c M f memo \<longleftrightarrow> fst (f memo) = fst (f []) \<and> valid_memo c M (snd (f memo)) \<and> length (snd (f memo)) = length memo"

lemma valid_memo_update:
  assumes "indexed M" and "valid_memo c M memo" and "m \<in> M" and "0 \<le> m_idx m"
  shows "valid_memo c M (memo[nat (m_idx m) := Some (ctx_matches c m)])"
proof -
  have "m' = m" if "m' \<in> M" "0 \<le> m_idx m'" "nat (m_idx m') = nat (m_idx m)" for m'
    using assms(1,3,4) that by (auto simp: indexed_def)
  then show ?thesis using assms(2) by (fastforce simp: valid_memo_def nth_list_update)
qed

lemma matches_no_memo: "ctx_matches c (Matcher name idx k) = fst (match c k [])"
  by (simp add: ctx_matches_def)

lemma memo_step:
  "indexed M \<Longrightarrow> valid_memo c M memo \<Longrightarrow> kind_subs k \<subseteq> M \<Longrightarrow> transparent c M (match c k) memo"
  "indexed M \<Longrightarrow> valid_memo c M memo \<Longrightarrow> subs m \<subseteq> M \<Longrightarrow> transparent c M (matches c m) memo"
  "indexed M \<Longrightarrow> valid_memo c M memo \<Longrightarrow> term_subs terms \<subseteq> M \<Longrightarrow> transparent c M (respondTermsMatch c terms) memo"
  "indexed M \<Longrightarrow> valid_memo c M memo \<Longrightarrow> row_subs rows \<subseteq> M \<Longrightarrow> transparent c M (resolve_rows c rows def) memo"
  "indexed M \<Longrightarrow> valid_memo c M memo \<Longrightarrow> list_subs conds \<subseteq> M \<Longrightarrow> transparent c M (conjMatches c conds) memo"
proof (induction c k memo and c m memo and c terms memo and c rows def memo and c conds memo
    rule: match_matches_respondTermsMatch_resolve_rows_conjMatches.induct)
  case (1 c rows def dfrom dfwd val negate memo)
  then show ?case by (auto simp: transparent_def split: prod.splits)
next
  case (4 c name idx k memo)
  show ?case
  proof (cases "0 \<le> idx \<and> nat idx < length memo")
    case True
    show ?thesis
    proof (cases "memo ! nat idx")
      case None
      then have t: "transparent c M (match c k) memo" using "4.IH"(1) [OF True] "4.prems" by simp
      have "valid_memo c M ((snd (match c k memo))[nat idx := Some (ctx_matches c (Matcher name idx k))])"
        using valid_memo_update [of M c "snd (match c k memo)" "Matcher name idx k"] "4.prems" t True by (simp add: transparent_def)
      then show ?thesis using t True None by (auto simp: transparent_def matches_no_memo split: prod.splits)
    next
      case (Some b)
      moreover have "ctx_matches c (Matcher name idx k) = b" using "4.prems"(2,3) True Some by (force simp: valid_memo_def)
      ultimately show ?thesis using True "4.prems"(2) by (simp add: transparent_def ctx_matches_def)
    qed
  next
    case False
    have "matches c (Matcher name idx k) memo = match c k memo" by (simp only: matches.simps if_not_P [OF False])
    then show ?thesis using "4.IH"(2) [OF False] "4.prems" by (simp add: transparent_def)
  qed
next
  case (6 c m negate terms memo)
  have m: "transparent c M (matches c m) memo" using "6.IH"(1) "6.prems" by simp
  obtain got memo1 where e: "matches c m memo = (got, memo1)" by fastforce
  have "fst (matches c m []) = got" "valid_memo c M memo1" "length memo1 = length memo" using m e by (auto simp: transparent_def)
  then show ?case using "6.IH"(2) [OF e [symmetric]] "6.prems" e no_memo(2) [of c m]
    by (auto simp: transparent_def split: prod.splits)
next
  case (8 c conds val rows def memo)
  have m: "transparent c M (conjMatches c conds) memo" using "8.IH"(1) "8.prems" by simp
  obtain ok memo1 where e: "conjMatches c conds memo = (ok, memo1)" by fastforce
  have "fst (conjMatches c conds []) = ok" "valid_memo c M memo1" "length memo1 = length memo" using m e by (auto simp: transparent_def)
  then show ?case using "8.IH"(2) [OF e [symmetric]] "8.prems" e no_memo(5) [of c conds]
    by (auto simp: transparent_def split: prod.splits)
next
  case (10 c m conds memo)
  have m: "transparent c M (matches c m) memo" using "10.IH"(1) "10.prems" by simp
  obtain ok memo1 where e: "matches c m memo = (ok, memo1)" by fastforce
  have "fst (matches c m []) = ok" "valid_memo c M memo1" "length memo1 = length memo" using m e by (auto simp: transparent_def)
  then show ?case using "10.IH"(2) [OF e [symmetric]] "10.prems" e no_memo(2) [of c m]
    by (auto simp: transparent_def split: prod.splits)
qed (auto simp: transparent_def)

definition ctx_scope :: "matchContext \<Rightarrow> scope \<Rightarrow> bool" where
  "ctx_scope c s = (case s of None \<Rightarrow> True | Some ms \<Rightarrow> list_ex (ctx_matches c) ms)"

definition scope_subs :: "scope \<Rightarrow> matcher set" where
  "scope_subs s = (case s of None \<Rightarrow> {} | Some ms \<Rightarrow> list_subs ms)"

lemma any_match_memo:
  assumes "indexed M"
  shows "valid_memo c M memo \<Longrightarrow> list_subs ms \<subseteq> M \<Longrightarrow>
    fst (any_match c ms memo) = list_ex (ctx_matches c) ms \<and> valid_memo c M (snd (any_match c ms memo))"
proof (induction ms arbitrary: memo)
  case (Cons m ms)
  have "transparent c M (matches c m) memo" using memo_step(2) [OF assms] Cons.prems by simp
  moreover obtain ok memo1 where e: "matches c m memo = (ok, memo1)" by fastforce
  ultimately have "ctx_matches c m = ok" "valid_memo c M memo1" by (auto simp: transparent_def ctx_matches_def)
  then show ?case using Cons e by auto
qed simp

text \<open>The scopes of a phase are evaluated one after the other through one memo.\<close>

fun run_scopes :: "matchContext \<Rightarrow> scope list \<Rightarrow> memo \<Rightarrow> bool list" where
  "run_scopes c [] memo = []"
| "run_scopes c (s # ss) memo = (case scopeMatches c s memo of (b, memo) \<Rightarrow> b # run_scopes c ss memo)"

lemma run_scopes_memo:
  assumes "indexed M"
  shows "valid_memo c M memo \<Longrightarrow> \<forall>s \<in> set ss. scope_subs s \<subseteq> M \<Longrightarrow> run_scopes c ss memo = map (ctx_scope c) ss"
proof (induction ss arbitrary: memo)
  case (Cons s ss)
  obtain b memo1 where e: "scopeMatches c s memo = (b, memo1)" by fastforce
  have "b = ctx_scope c s \<and> valid_memo c M memo1"
    using e any_match_memo [OF assms, of c memo "the s"] Cons.prems by (cases s) (auto simp: scopeMatches_def ctx_scope_def scope_subs_def)
  then show ?case using Cons e by simp
qed simp

text \<open>C14: Evaluating the scopes of a phase one after the other through a shared memo gives every scope the
  value it has when each matcher is evaluated afresh, provided no two matchers share a memo cell. This
  holds through compositions, negations and classifiers, whatever the size of the memo.\<close>

theorem memo_transparent:
  assumes "indexed (\<Union>s \<in> set ss. scope_subs s)"
  shows "run_scopes c ss (replicate n None) = map (ctx_scope c) ss"
  by (rule run_scopes_memo [OF assms]) (auto simp: valid_memo_def)

definition sample_context :: matchContext where
  "sample_context = \<lparr>mc_req = sample_request, mc_upstream = ''u'', mc_respHeader = None\<rparr>"

definition upstream_matcher :: matcher where
  "upstream_matcher = Matcher ''a'' 0 (Leaf (kindUpstream [''u'']))"

definition negated_matcher :: matcher where
  "negated_matcher = Matcher ''b'' 1 (kindAll [(upstream_matcher, True)])"

theorem memo_transparent_witness:
  "run_scopes sample_context [Some [upstream_matcher], Some [negated_matcher], Some [negated_matcher, upstream_matcher], None] (replicate 2 None) =
     [True, False, True, True]"
proof -
  have "indexed (\<Union>s \<in> set [Some [upstream_matcher], Some [negated_matcher], Some [negated_matcher, upstream_matcher], None]. scope_subs s)"
    by (simp add: indexed_def scope_subs_def negated_matcher_def upstream_matcher_def)
  from memo_transparent [OF this, of sample_context 2] show ?thesis
    by (simp add: ctx_scope_def ctx_matches_def negated_matcher_def upstream_matcher_def leaf_match_def sample_context_def)
qed

end
