(* ===== verification/ServerRequest.thy ===== *)
theory ServerRequest
  imports PathNorm QueryParse Matcher
begin

text \<open>
  How the server turns a client request into the request that the pipeline evaluates
  (\<open>buildPipelineRequest\<close> of \<open>internal/server/handler.go\<close>), and the path and query it asks the origin for
  (\<open>originTarget\<close>). Path rules, the path token of the cache key and the origin see the same path.
\<close>

text \<open>The part of \<open>*http.Request\<close> that is read. An absent TLS state is \<^const>\<open>False\<close>.\<close>

record httpRequest =
  hq_Method :: string
  hq_Host :: string
  hq_URLHost :: string
  hq_Path :: string
  hq_RawQuery :: string
  hq_Header :: http_header
  hq_RemoteAddr :: string
  hq_TLS :: bool

definition clientIP :: "httpRequest \<Rightarrow> string" where
  "clientIP r =
     (if hq_RemoteAddr r = [] then []
      else case SplitHostPort (hq_RemoteAddr r) of None \<Rightarrow> hq_RemoteAddr r | Some host \<Rightarrow> host)"

definition buildPipelineRequest :: "httpRequest \<Rightarrow> Request" where
  "buildPipelineRequest r =
     (let host = (if hq_Host r = [] then hq_URLHost r else hq_Host r); query = parseQueryLossless (hq_RawQuery r)
      in \<lparr>hr_Method = hq_Method r, hr_Host = host, hr_Path = normalizePath (hq_Path r), hr_Query = query,
          hr_Header = hq_Header r, hr_ClientIP = clientIP r, hr_RealClientIP = None, hr_Device = [], hr_Geo = [],
          hr_GeoContinent = [], hr_TLS = hq_TLS r, hr_GeoRegion = [], hr_PoolHealthy = None, hr_cookieMemo = None\<rparr>)"

text \<open>The path and raw query of a rewrite rule, when one applies.\<close>

definition originTarget :: "string \<Rightarrow> string \<Rightarrow> (string \<times> string) option \<Rightarrow> string \<times> string" where
  "originTarget clientPath clientRawQuery rw =
     (case rw of None \<Rightarrow> (clientPath, clientRawQuery) | Some (path, rawQuery) \<Rightarrow> (path, rawQuery))"

lemma normal_path_clean:
  assumes "HasPrefix p ''/''"
  shows "keyTokenSep \<notin> set (normalizePath p)"
proof -
  obtain segs tr where n: "normalizePath p = canon segs tr" and s: "\<forall>s \<in> set segs. proper s \<and> list_all (\<lambda>c. \<not> isControlByte c) s"
    by (rule normalizePath_canon [OF assms])
  have "isControlByte keyTokenSep" "\<not> isControlByte slash" by code_simp+
  moreover have "c \<in> set (Join ''/'' xs) \<Longrightarrow> c = slash \<or> (\<exists>x \<in> set xs. c \<in> set x)" for c xs
    by (induction "''/''" xs rule: Join.induct) auto
  ultimately show ?thesis using s unfolding n canon_alt by (fastforce simp: list_all_iff split: if_split_asm)
qed

text \<open>C28: What the rules match is what is keyed and what is fetched. For a client request with a rooted path,
  the path the pipeline sees is a fixed point of the normalisation; path matchers test it, the path token
  of the cache key is written as it is, and without a rewrite the origin client fetches exactly that path
  below the origin's base path: no spelling with doubled slashes, dot segments or control bytes is matched
  as one path and fetched as another.\<close>

theorem match_is_dial:
  assumes "HasPrefix (hq_Path r) ''/''" and "base_ok base"
  shows "let q = buildPipelineRequest r; p = hr_Path q in
    normalizePath p = p \<and>
    (\<forall>ps up h. leaf_match \<lparr>mc_req = q, mc_upstream = up, mc_respHeader = h\<rparr> (kindPath ps) \<longleftrightarrow> pathSet_Match ps p) \<and>
    writeToken q s tokPath = p \<and>
    urlFor base (fst (originTarget p (hq_RawQuery r) None)) = Some (base @ p)"
  using normal_path_dial [OF assms] normal_path_clean [OF assms(1)]
  by (simp add: buildPipelineRequest_def originTarget_def leaf_match_def writeToken_def writeKeyValue_id Let_def)

definition odd_request :: httpRequest where
  "odd_request = \<lparr>hq_Method = ''GET'', hq_Host = ''h'', hq_URLHost = [], hq_Path = ''//a/./b/../.env'', hq_RawQuery = ''x=1'',
     hq_Header = None, hq_RemoteAddr = ''10.0.0.1:80'', hq_TLS = False\<rparr>"

theorem match_is_dial_witness:
  "hr_Path (buildPipelineRequest odd_request) = ''/a/.env'' \<and>
   urlFor ''/site'' (fst (originTarget (hr_Path (buildPipelineRequest odd_request)) ''x=1'' None)) = Some ''/site/a/.env'' \<and>
   writeToken (buildPipelineRequest odd_request) [] tokPath = ''/a/.env''"
proof -
  have base: "base_ok ''/site''" and path: "HasPrefix (hq_Path odd_request) ''/''" by code_simp+
  have "hr_Path (buildPipelineRequest odd_request) = ''/a/.env''" "hq_RawQuery odd_request = ''x=1''" by code_simp+
  then show ?thesis using match_is_dial [OF path base, of "[]"] by (simp add: Let_def)
qed

end
