(* ===== verification/JsonSpec.thy ===== *)
theory JsonSpec
  imports JsonField
begin

text \<open>
  What resolving a field of a JSON value means: a lookup in the document. The documents are trees, written
  without white space and with strings that need no escapes.
\<close>

subsection \<open>Documents\<close>

datatype json = JsNull | JsBool bool | JsNum string | JsStr string | JsArr "json list" | JsObj "(string \<times> json) list"

fun json_print :: "json \<Rightarrow> string" and print_items :: "bool \<Rightarrow> json list \<Rightarrow> string"
  and print_members :: "bool \<Rightarrow> (string \<times> json) list \<Rightarrow> string" where
  "json_print JsNull = ''null''"
| "json_print (JsBool b) = (if b then ''true'' else ''false'')"
| "json_print (JsNum n) = n"
| "json_print (JsStr s) = json_quote # s @ [json_quote]"
| "json_print (JsArr ts) = CHR ''['' # print_items True ts"
| "json_print (JsObj kvs) = CHR ''{'' # print_members True kvs"
| "print_items first [] = '']''"
| "print_items first (t # ts) = (if first then [] else '','') @ json_print t @ print_items False ts"
| "print_members first [] = ''}''"
| "print_members first ((k, t) # kvs) =
     (if first then [] else '','') @ json_quote # k @ json_quote # '':'' @ json_print t @ print_members False kvs"

definition plain_string :: "string \<Rightarrow> bool" where
  "plain_string s \<longleftrightarrow> list_all (\<lambda>c. 32 \<le> byte c \<and> c \<noteq> json_quote \<and> c \<noteq> json_escape) s \<and> valid_utf8 s"

definition number_literal :: "string \<Rightarrow> bool" where
  "number_literal n \<longleftrightarrow> scan_number n = Some (n, []) \<and> \<not> num_overflow n"

fun json_wf :: "json \<Rightarrow> bool" where
  "json_wf (JsNum n) = number_literal n"
| "json_wf (JsStr s) = plain_string s"
| "json_wf (JsArr ts) = list_all json_wf ts"
| "json_wf (JsObj kvs) = list_all (\<lambda>(k, t). plain_string k \<and> json_wf t) kvs"
| "json_wf _ = True"

fun json_depth :: "json \<Rightarrow> nat" where
  "json_depth (JsArr ts) = Suc (fold max (map json_depth ts) 0)"
| "json_depth (JsObj kvs) = Suc (fold max (map (\<lambda>(k, t). json_depth t) kvs) 0)"
| "json_depth _ = 0"

definition json_scalar :: "json \<Rightarrow> string option" where
  "json_scalar t =
     (case t of JsStr s \<Rightarrow> Some s | JsNum n \<Rightarrow> Some n | JsBool b \<Rightarrow> Some (if b then ''true'' else ''false'') | _ \<Rightarrow> None)"

text \<open>Of members with the same key the last one counts.\<close>

fun json_lookup :: "json \<Rightarrow> jsonPathSeg list \<Rightarrow> string option" where
  "json_lookup t [] = json_scalar t"
| "json_lookup (JsObj kvs) (SegKey k # segs) = (case map_of (rev kvs) k of None \<Rightarrow> None | Some t \<Rightarrow> json_lookup t segs)"
| "json_lookup (JsArr ts) (SegIndex n # segs) = (if n < length ts then json_lookup (ts ! n) segs else None)"
| "json_lookup _ _ = None"

subsection \<open>Depth\<close>

lemma fold_max_ge: "a \<le> fold max xs (a :: nat)" "x \<in> set xs \<Longrightarrow> x \<le> fold max xs a"
proof (induction xs arbitrary: a)
  case (Cons y ys)
  {
    case 1
    show ?case using Cons(1) [of "max y a"] by simp
  next
    case 2
    then show ?case using Cons(1) [of "max y a"] Cons(2) [of "max y a"] by auto
  }
qed auto

lemma json_depth_item: "t \<in> set ts \<Longrightarrow> json_depth t < json_depth (JsArr ts)"
  using fold_max_ge(2) [of "json_depth t" "map json_depth ts" 0] by simp

lemma json_depth_member: "(k, t) \<in> set kvs \<Longrightarrow> json_depth t < json_depth (JsObj kvs)"
  using fold_max_ge(2) [of "json_depth t" "map (\<lambda>(k, t). json_depth t) kvs" 0] by (force simp: less_Suc_eq_le)

subsection \<open>Scalar tokens\<close>

definition value_stop :: "string \<Rightarrow> bool" where
  "value_stop r \<longleftrightarrow> r = [] \<or> hd r \<in> {CHR '','', CHR '']'', CHR ''}''}"

lemma value_stop_items [simp]: "value_stop (print_items False ts @ r)" "value_stop (print_members False kvs @ r)"
  by (cases ts; simp add: value_stop_def) (cases kvs; auto simp: value_stop_def)

lemma takeWhile_digit_stop: "value_stop r \<Longrightarrow> takeWhile is_digit (s @ r) = takeWhile is_digit s"
  by (induction s; cases r) (auto simp: value_stop_def is_digit_def)

lemma HasPrefix_append: "s \<noteq> [] \<Longrightarrow> HasPrefix (s @ r) [c] = HasPrefix s [c]"
  by (cases s) (auto simp: HasPrefix_iff)

lemma value_stop_prefix: "value_stop r \<Longrightarrow> c \<notin> {CHR '','', CHR '']'', CHR ''}''} \<Longrightarrow> HasPrefix (s @ r) [c] = HasPrefix s [c]"
  by (cases s; cases r) (auto simp: HasPrefix_iff value_stop_def)

lemma scan_int_append: "scan_int s = Some (ds, t) \<Longrightarrow> value_stop r \<Longrightarrow> scan_int (s @ r) = Some (ds, t @ r)"
proof -
  assume *: "scan_int s = Some (ds, t)" and r: "value_stop r"
  have "length (if HasPrefix s ''0'' then ''0'' else takeWhile is_digit s) \<le> length s"
    by (auto simp: length_takeWhile_le HasPrefix_iff)
  then show ?thesis using * r
    by (auto simp: scan_int_def Let_def takeWhile_digit_stop value_stop_prefix split: if_split_asm)
qed

lemma scan_fraction_append: "scan_fraction s = Some (fr, t) \<Longrightarrow> value_stop r \<Longrightarrow> scan_fraction (s @ r) = Some (fr, t @ r)"
proof (cases "HasPrefix s ''.''")
  case True
  assume *: "scan_fraction s = Some (fr, t)" and r: "value_stop r"
  obtain u where s: "s = CHR ''.'' # u" using True by (auto simp: HasPrefix_iff)
  show ?thesis using * r length_takeWhile_le [of is_digit u]
    by (auto simp: s scan_fraction_def Let_def takeWhile_digit_stop HasPrefix_iff split: if_split_asm)
next
  case False
  assume "scan_fraction s = Some (fr, t)" and "value_stop r"
  with False show ?thesis by (auto simp: scan_fraction_def value_stop_prefix)
qed

lemma scan_exponent_append: "scan_exponent s = Some (ex, t) \<Longrightarrow> value_stop r \<Longrightarrow> scan_exponent (s @ r) = Some (ex, t @ r)"
proof (cases "HasPrefix s ''e'' \<or> HasPrefix s ''E''")
  case True
  assume *: "scan_exponent s = Some (ex, t)" and r: "value_stop r"
  obtain c u where s: "s = c # u" using True by (cases s) (auto simp: HasPrefix_iff)
  have sg: "exponent_sign (u @ r) = exponent_sign u"
    using r by (cases u) (auto simp: exponent_sign_def value_stop_prefix HasPrefix_iff value_stop_def)
  have n: "length (exponent_sign u) \<le> length u" by (auto simp: exponent_sign_def)
  define v where "v = drop (length (exponent_sign u)) u"
  have v: "drop (length (exponent_sign u)) (u @ r) = v @ r" using n by (simp add: v_def)
  have "HasPrefix (c # u @ r) ''e'' \<or> HasPrefix (c # u @ r) ''E''" using True by (auto simp: s HasPrefix_iff)
  then show ?thesis using * True r length_takeWhile_le [of is_digit v]
    by (auto simp: s scan_exponent_def Let_def sg v v_def [symmetric] takeWhile_digit_stop simp del: drop_append split: if_split_asm)
       (simp_all add: drop_append)
next
  case False
  assume "scan_exponent s = Some (ex, t)" and "value_stop r"
  with False show ?thesis by (auto simp: scan_exponent_def value_stop_prefix)
qed

lemma scan_number_append:
  assumes "scan_number n = Some (n, [])" and r: "value_stop r"
  shows "scan_number (n @ r) = Some (n, r)"
proof -
  define k where "k = (if HasPrefix n ''-'' then ''-'' else [])"
  obtain ds s1 fr s2 ex where p: "scan_int (drop (length k) n) = Some (ds, s1)" "scan_fraction s1 = Some (fr, s2)" "scan_exponent s2 = Some (ex, [])"
    and eq: "k @ ds @ fr @ ex = n"
    using assms(1) by (auto simp: scan_number_def Let_def k_def [symmetric] split: option.splits)
  have "drop (length k) (n @ r) = drop (length k) n @ r" by (auto simp: k_def HasPrefix_iff)
  moreover have "(if HasPrefix (n @ r) ''-'' then ''-'' else []) = k" using r by (simp add: k_def value_stop_prefix)
  ultimately show ?thesis
    using scan_int_append [OF p(1) r] scan_fraction_append [OF p(2) r] scan_exponent_append [OF p(3) r] eq
    by (simp add: scan_number_def)
qed

lemma number_hd: "scan_number n = Some (n, []) \<Longrightarrow> n \<noteq> [] \<and> (hd n = CHR ''-'' \<or> is_digit (hd n))"
proof -
  assume *: "scan_number n = Some (n, [])"
  then have "n \<noteq> []" using scan_number_less by fastforce
  moreover have "is_digit (hd n)" if "\<not> HasPrefix n ''-''"
    using * that \<open>n \<noteq> []\<close>
    by (cases n) (auto simp: scan_number_def scan_int_def Let_def HasPrefix_iff is_digit_def split: option.splits if_split_asm)
  moreover have "hd n = CHR ''-''" if "HasPrefix n ''-''" using that by (auto simp: HasPrefix_iff)
  ultimately show ?thesis by blast
qed

lemma number_char:
  "c = CHR ''-'' \<or> is_digit c \<Longrightarrow>
     \<not> json_space c \<and> c \<notin> {json_quote, CHR ''t'', CHR ''f'', CHR ''n'', CHR ''['', CHR '']'', CHR ''{'', CHR ''}'', CHR '':'', CHR '',''}"
  by (auto simp: is_digit_def json_space_def json_quote_def)

lemma scan_string_plain: "list_all (\<lambda>c. 32 \<le> byte c \<and> c \<noteq> json_quote \<and> c \<noteq> json_escape) s \<Longrightarrow> scan_string (s @ json_quote # r) = Some (s, r)"
  by (induction s) auto

lemma json_unquote_plain: "list_all (\<lambda>c. c \<noteq> json_escape) s \<Longrightarrow> valid_utf8 s \<Longrightarrow> json_unquote s = s"
proof (induction "length s" arbitrary: s rule: less_induct)
  case less
  show ?case
  proof (cases "s = []")
    case False
    then have n: "rune_len s \<noteq> 0" "valid_utf8 (drop (rune_len s) s)" using less.prems valid_utf8_step [of s] by auto
    have "json_unquote (drop (rune_len s) s) = drop (rune_len s) s"
      using less.hyps [of "drop (rune_len s) s"] less.prems n False by (auto simp: list_all_iff dest: in_set_dropD)
    moreover have "hd s \<noteq> json_escape" using less.prems(1) False by (cases s) auto
    ultimately show ?thesis using n False by (subst json_unquote.simps) simp
  qed (simp add: json_unquote.simps)
qed

lemma scan_value_string: "plain_string s \<Longrightarrow> scan_value (json_quote # s @ json_quote # r) = Some (JString s, r)"
  by (simp add: scan_value_def HasPrefix_iff scan_string_plain plain_string_def json_unquote_plain list_all_iff)

lemma scan_value_number: "number_literal n \<Longrightarrow> value_stop r \<Longrightarrow> scan_value (n @ r) = Some (JNumber n, r)"
proof -
  assume n: "number_literal n" and r: "value_stop r"
  then have h: "n \<noteq> []" "hd n = CHR ''-'' \<or> is_digit (hd n)" using number_hd by (auto simp: number_literal_def)
  moreover have "hd n \<notin> {json_quote, CHR ''t'', CHR ''f'', CHR ''n''}" using number_char [OF h(2)] by blast
  ultimately obtain c m where "n = c # m" "c \<notin> {json_quote, CHR ''t'', CHR ''f'', CHR ''n''}" by (cases n) auto
  then show ?thesis using scan_number_append [of n r] n r by (simp add: scan_value_def number_literal_def HasPrefix_iff)
qed

definition scalar_token :: "json \<Rightarrow> jtoken option" where
  "scalar_token t =
     (case t of JsNull \<Rightarrow> Some JNull | JsBool b \<Rightarrow> Some (JBool b) | JsNum n \<Rightarrow> Some (JNumber n) | JsStr s \<Rightarrow> Some (JString s) | _ \<Rightarrow> None)"

lemma scan_value_literal:
  "scan_value (''null'' @ r) = Some (JNull, r)" "scan_value (''true'' @ r) = Some (JBool True, r)" "scan_value (''false'' @ r) = Some (JBool False, r)"
  by (simp_all add: scan_value_def HasPrefix_iff json_quote_def)

lemma scan_value_scalar:
  assumes "json_wf t" and "scalar_token t = Some tok" and "value_stop r"
  shows "scan_value (json_print t @ r) = Some (tok, r)"
proof (cases t)
  case (JsBool b)
  then show ?thesis using assms scan_value_literal by (cases b) (auto simp: scalar_token_def)
next
  case JsNull
  then show ?thesis using assms scan_value_literal(1) by (auto simp: scalar_token_def)
qed (use assms in \<open>auto simp: scalar_token_def scan_value_string scan_value_number\<close>)

lemma json_peek_Cons: "\<not> json_space c \<Longrightarrow> json_peek (c # s) = c # s"
  by (simp add: json_peek_def)

text \<open>A value begins with a byte that is neither white space nor punctuation between values.\<close>

lemma print_hd:
  assumes "json_wf t"
  obtains c s where "json_print t = c # s" "\<not> json_space c" "c \<notin> {CHR '']'', CHR ''}'', CHR '':'', CHR '',''}"
proof (cases t)
  case (JsNum n)
  then have "n \<noteq> []" "hd n = CHR ''-'' \<or> is_digit (hd n)" using assms number_hd by (auto simp: number_literal_def)
  then show ?thesis using that [of "hd n" "tl n"] JsNum number_char [of "hd n"] by auto
next
  case (JsBool b)
  then show ?thesis using that by (cases b) (auto simp: json_space_def)
qed (use that in \<open>auto simp: json_space_def json_quote_def\<close>)

lemma Token_scalar:
  assumes "json_wf t" and "scalar_token t = Some tok" and "tokenValueAllowed st" and "value_stop r"
  shows "Token (Decoder (json_print t @ r) st stk un) = ReadTok tok (Decoder r (tokenValueEnd st) stk un)"
proof -
  obtain c s where c: "json_print t = c # s" "\<not> json_space c" "c \<notin> {CHR '']'', CHR ''}'', CHR '':'', CHR '',''}"
    using print_hd [OF assms(1)] .
  have "c \<noteq> CHR ''['' \<and> c \<noteq> CHR ''{''"
  proof (cases t)
    case (JsNum n)
    then have "hd n = CHR ''-'' \<or> is_digit (hd n)" using assms number_hd by (auto simp: number_literal_def)
    then show ?thesis using c JsNum number_char [of "hd n"] by auto
  qed (use c assms(2) in \<open>auto simp: json_quote_def scalar_token_def split: if_split_asm\<close>)
  then have "Token (Decoder (json_print t @ r) st stk un) = read_scalar (json_print t @ r) st stk un"
    using c assms(3) by (auto simp: Token.simps [of "_ # _"] json_peek_Cons tokenValueAllowed_def)
  also have "\<dots> = ReadTok tok (Decoder r (tokenValueEnd st) stk un)"
    using scan_value_scalar [OF assms(1,2,4)] assms by (cases t) (auto simp: read_scalar_def scalar_token_def number_literal_def)
  finally show ?thesis .
qed

lemma Token_key:
  assumes "plain_string k" and "st = tokenObjectStart \<or> st = tokenObjectKey"
  shows "Token (Decoder (json_quote # k @ json_quote # r) st stk un) = ReadTok (JString k) (Decoder r tokenObjectColon stk un)"
  using assms by (auto simp: Token.simps json_peek_Cons json_space_def json_quote_def read_key_def scan_value_string [unfolded json_quote_def])

lemma Token_punct [simp]:
  "Token (Decoder (CHR '','' # s) tokenArrayComma stk un) = Token (Decoder s tokenArrayValue stk un)"
  "Token (Decoder (CHR '','' # s) tokenObjectComma stk un) = Token (Decoder s tokenObjectKey stk un)"
  "Token (Decoder (CHR '':'' # s) tokenObjectColon stk un) = Token (Decoder s tokenObjectValue stk un)"
  "tokenValueAllowed st \<Longrightarrow> Token (Decoder (CHR ''['' # s) st stk un) = ReadTok (JDelim (CHR ''['')) (Decoder s tokenArrayStart (st # stk) un)"
  "tokenValueAllowed st \<Longrightarrow> Token (Decoder (CHR ''{'' # s) st stk un) = ReadTok (JDelim (CHR ''{'')) (Decoder s tokenObjectStart (st # stk) un)"
  "st = tokenArrayStart \<or> st = tokenArrayComma \<Longrightarrow>
     Token (Decoder (CHR '']'' # s) st (st' # stk) un) = ReadTok (JDelim (CHR '']'')) (Decoder s (tokenValueEnd st') stk un)"
  "st = tokenObjectStart \<or> st = tokenObjectComma \<Longrightarrow>
     Token (Decoder (CHR ''}'' # s) st (st' # stk) un) = ReadTok (JDelim (CHR ''}'')) (Decoder s (tokenValueEnd st') stk un)"
  by (auto simp: Token.simps [of "_ # _"] json_peek_Cons json_space_def close_container_def)

lemma More_close [simp]: "\<not> More (Decoder (CHR '']'' # s) st stk un)" "\<not> More (Decoder (CHR ''}'' # s) st stk un)"
  by (simp_all add: More_def json_peek_Cons json_space_def)

lemma More_sep [simp]: "More (Decoder (CHR '','' # s) st stk un)" "More (Decoder (CHR '':'' # s) st stk un)" "More (Decoder (json_quote # s) st stk un)"
  by (simp_all add: More_def json_peek_Cons json_space_def json_quote_def)

lemma More_value: "json_wf t \<Longrightarrow> More (Decoder (json_print t @ s) st stk un)"
  by (rule print_hd [of t]) (auto simp: More_def json_peek_Cons)

lemma tokenValueAllowed_simps [simp]:
  "tokenValueAllowed tokenTopValue" "tokenValueAllowed tokenArrayStart" "tokenValueAllowed tokenArrayValue" "tokenValueAllowed tokenObjectValue"
  by (simp_all add: tokenValueAllowed_def)

lemma tokenValueEnd_simps [simp]:
  "tokenValueEnd tokenTopValue = tokenTopValue" "tokenValueEnd tokenArrayStart = tokenArrayComma"
  "tokenValueEnd tokenArrayValue = tokenArrayComma" "tokenValueEnd tokenObjectValue = tokenObjectComma"
  by (simp_all add: tokenValueEnd_def)

subsection \<open>Skipping a value\<close>

abbreviation item_state :: "bool \<Rightarrow> tokState" where
  "item_state first \<equiv> (if first then tokenArrayStart else tokenArrayComma)"

abbreviation member_state :: "bool \<Rightarrow> tokState" where
  "member_state first \<equiv> (if first then tokenObjectStart else tokenObjectComma)"

lemma Token_item:
  "Token (Decoder (print_items first (t # ts) @ r) (item_state first) stk un) =
     Token (Decoder (json_print t @ print_items False ts @ r) (if first then tokenArrayStart else tokenArrayValue) stk un)"
  by simp

lemma Token_member:
  "plain_string k \<Longrightarrow>
     Token (Decoder (print_members first ((k, t) # kvs) @ r) (member_state first) stk un) =
       ReadTok (JString k) (Decoder (CHR '':'' # json_print t @ print_members False kvs @ r) tokenObjectColon stk un)"
  by (simp add: Token_key)

lemma More_item: "json_wf t \<Longrightarrow> More (Decoder (print_items first (t # ts) @ r) st stk un)"
  by (simp add: More_value)

lemma More_member: "More (Decoder (print_members first ((k, t) # kvs) @ r) st stk un)"
  by simp

lemmas print_steps = Token_item Token_member More_item More_member

lemma Token_scalar_at:
  "json_wf t \<Longrightarrow> scalar_token t = Some tok \<Longrightarrow> tokenValueAllowed st \<Longrightarrow> value_stop r \<Longrightarrow>
     Token d = Token (Decoder (json_print t @ r) st stk un) \<Longrightarrow> Token d = ReadTok tok (Decoder r (tokenValueEnd st) stk un)"
  by (simp add: Token_scalar)

lemma scalar_token_nodelim: "scalar_token t \<noteq> Some (JDelim c)"
  by (auto simp: scalar_token_def split: json.splits)

lemma skip_scalar:
  assumes "json_wf t" and "scalar_token t = Some tok" and "dp + json_depth t \<le> jsonDepthCap" and "tokenValueAllowed st" and "value_stop r"
    and "Token d = Token (Decoder (json_print t @ r) st stk un)"
  shows "skipValue d dp = (True, Decoder r (tokenValueEnd st) stk un)"
  using Token_scalar_at [OF assms(1,2,4,5,6)] assms(2,3) scalar_token_nodelim [of t]
  by (cases tok) (simp_all add: skipValue.simps [of d])

lemma skip_print:
  "json_wf t \<Longrightarrow> dp + json_depth t \<le> jsonDepthCap \<Longrightarrow> tokenValueAllowed st \<Longrightarrow> value_stop r \<Longrightarrow>
     Token d = Token (Decoder (json_print t @ r) st stk un) \<Longrightarrow> skipValue d dp = (True, Decoder r (tokenValueEnd st) stk un)"
  "list_all json_wf ts \<Longrightarrow> \<forall>t \<in> set ts. dp + json_depth t < jsonDepthCap \<Longrightarrow>
     skip_items (Decoder (print_items first ts @ r) (item_state first) (st # stk) un) dp = (True, Decoder r (tokenValueEnd st) stk un)"
  "list_all (\<lambda>(k, t). plain_string k \<and> json_wf t) kvs \<Longrightarrow> \<forall>(k, t) \<in> set kvs. dp + json_depth t < jsonDepthCap \<Longrightarrow>
     skip_items (Decoder (print_members first kvs @ r) (member_state first) (st # stk) un) dp = (True, Decoder r (tokenValueEnd st) stk un)"
proof (induction t and first ts and first kvs arbitrary: dp st r d stk and dp st r stk and dp st r stk
    rule: json_print_print_items_print_members.induct)
  case (5 ts)
  have "\<forall>t \<in> set ts. dp + json_depth t < jsonDepthCap" using "5.prems"(2) json_depth_item [of _ ts] by fastforce
  then show ?case using "5.prems" "5.IH" [of dp r st stk] by (simp add: skipValue.simps [of d])
next
  case (6 kvs)
  have "\<forall>(k, t) \<in> set kvs. dp + json_depth t < jsonDepthCap" using "6.prems"(2) json_depth_member [of _ _ kvs] by fastforce
  then show ?case using "6.prems" "6.IH" [of dp r st stk] by (simp add: skipValue.simps [of d])
next
  case (7 first)
  then show ?case by (simp add: skip_items.simps)
next
  case (8 first t ts)
  have "skipValue (Decoder (print_items first (t # ts) @ r) (item_state first) (st # stk) un) (dp + 1) =
      (True, Decoder (print_items False ts @ r) tokenArrayComma (st # stk) un)"
    using "8.prems" "8.IH"(1) [OF _ _ _ _ Token_item] by simp
  then show ?case using "8.prems" "8.IH"(2) [of dp r st stk] by (subst skip_items.simps) (simp add: More_item del: print_items.simps)
next
  case (9 first)
  then show ?case by (simp add: skip_items.simps)
next
  case (10 first k t kvs)
  let ?d = "Decoder (CHR '':'' # json_print t @ print_members False kvs @ r) tokenObjectColon (st # stk) un"
  have key: "skipValue (Decoder (print_members first ((k, t) # kvs) @ r) (member_state first) (st # stk) un) (dp + 1) = (True, ?d)"
    using "10.prems" by (simp add: skipValue.simps Token_member del: print_members.simps)
  have "skipValue ?d (dp + 1) = (True, Decoder (print_members False kvs @ r) tokenObjectComma (st # stk) un)"
    using "10.prems" "10.IH"(1) [of "dp + 1" tokenObjectValue "print_members False kvs @ r" ?d "st # stk"] by simp
  then have "skip_items ?d dp = (True, Decoder r (tokenValueEnd st) stk un)"
    using "10.prems" "10.IH"(2) [of dp r st stk] by (subst skip_items.simps) simp
  then show ?case using key by (subst skip_items.simps) (simp add: More_member del: print_members.simps)
qed (rule skip_scalar; (assumption | simp add: scalar_token_def))+

text \<open>A container that is skipped item by item is also drained.\<close>

lemma skipValue_shallower:
  "skipValue d dp = (True, d') \<Longrightarrow> dp' \<le> dp \<Longrightarrow> skipValue d dp' = (True, d')"
  "skip_items d dp = (True, d') \<Longrightarrow> dp' \<le> dp \<Longrightarrow> skip_items d dp' = (True, d')"
proof (induction d dp and d dp arbitrary: d' dp' and d' dp' rule: skipValue_skip_items.induct)
  case (1 d dp)
  show ?case
  proof (cases "Token d")
    case (ReadTok tok e)
    show ?thesis
    proof (cases tok)
      case (JDelim c)
      then show ?thesis using "1.prems" "1.IH" [OF _ ReadTok JDelim, of d' dp'] ReadTok by (simp add: skipValue.simps [of d] split: if_split_asm)
    qed (use "1.prems" ReadTok in \<open>simp_all add: skipValue.simps [of d] split: if_split_asm\<close>)
  qed (use "1.prems" in \<open>simp_all add: skipValue.simps [of d] split: if_split_asm\<close>)
next
  case (2 d dp)
  show ?case
  proof (cases "More d")
    case True
    then obtain d1 where "skipValue d (dp + 1) = (True, d1)" "skip_items d1 dp = (True, d')"
      using "2.prems"(1) by (cases "skipValue d (dp + 1)") (auto simp: skip_items.simps [of d] Let_def split: if_split_asm)
    then show ?thesis using "2.IH"(1) [OF True, of d1 "dp' + 1"] "2.IH"(2) [OF True refl, of d' dp'] "2.prems"(2) True
      by (simp add: skip_items.simps [of d])
  next
    case False
    then show ?thesis using "2.prems" by (simp add: skip_items.simps [of d])
  qed
qed

lemma drain_skip_items: "skip_items d dp = (True, d') \<Longrightarrow> drainContainer d = d'"
proof (induction d arbitrary: d' rule: drainContainer.induct)
  case (1 d)
  show ?case
  proof (cases "More d")
    case True
    then obtain d1 where s: "skipValue d (dp + 1) = (True, d1)" "skip_items d1 dp = (True, d')"
      using "1.prems" by (cases "skipValue d (dp + 1)") (auto simp: skip_items.simps [of d] Let_def split: if_split_asm)
    have "skipValue d 0 = (True, d1)" using skipValue_shallower(1) [OF s(1)] by simp
    then show ?thesis using "1.IH" [OF True refl] s(2) True by (simp add: drainContainer.simps [of d])
  next
    case False
    then show ?thesis using "1.prems" by (auto simp: skip_items.simps [of d] drainContainer.simps [of d] split: jread.splits)
  qed
qed

lemma drain_print:
  "json_wf (JsArr ts) \<Longrightarrow> json_depth (JsArr ts) \<le> jsonDepthCap \<Longrightarrow>
     drainContainer (Decoder (print_items True ts @ r) tokenArrayStart (st # stk) un) = Decoder r (tokenValueEnd st) stk un"
  "json_wf (JsObj kvs) \<Longrightarrow> json_depth (JsObj kvs) \<le> jsonDepthCap \<Longrightarrow>
     drainContainer (Decoder (print_members True kvs @ r) tokenObjectStart (st # stk) un) = Decoder r (tokenValueEnd st) stk un"
proof -
  assume "json_wf (JsArr ts)" and "json_depth (JsArr ts) \<le> jsonDepthCap"
  then have "\<forall>t \<in> set ts. 0 + json_depth t < jsonDepthCap" "list_all json_wf ts" using json_depth_item [of _ ts] by fastforce+
  then show "drainContainer (Decoder (print_items True ts @ r) tokenArrayStart (st # stk) un) = Decoder r (tokenValueEnd st) stk un"
    using drain_skip_items [OF skip_print(2) [of ts 0 True]] by simp
next
  assume "json_wf (JsObj kvs)" and "json_depth (JsObj kvs) \<le> jsonDepthCap"
  then have "\<forall>(k, t) \<in> set kvs. 0 + json_depth t < jsonDepthCap" "list_all (\<lambda>(k, t). plain_string k \<and> json_wf t) kvs"
    using json_depth_member [of _ _ kvs] by fastforce+
  then show "drainContainer (Decoder (print_members True kvs @ r) tokenObjectStart (st # stk) un) = Decoder r (tokenValueEnd st) stk un"
    using drain_skip_items [OF skip_print(3) [of kvs 0 True]] by simp
qed

subsection \<open>The whole document\<close>

lemma doc_scalar:
  assumes "json_wf t" and "scalar_token t = Some tok" and "tokenValueAllowed st" and "value_stop r"
    and "Token d = Token (Decoder (json_print t @ r) st stk un)"
  shows "doc_loop d dp False = doc_loop (Decoder r (tokenValueEnd st) stk un) dp (dp = 0)"
  using Token_scalar_at [OF assms] assms(2) scalar_token_nodelim [of t]
  by (cases tok) (simp_all add: doc_loop.simps [of d])

lemma doc_print:
  "json_wf t \<Longrightarrow> dp + json_depth t \<le> jsonDepthCap \<Longrightarrow> tokenValueAllowed st \<Longrightarrow> value_stop r \<Longrightarrow>
     Token d = Token (Decoder (json_print t @ r) st stk un) \<Longrightarrow> doc_loop d dp False = doc_loop (Decoder r (tokenValueEnd st) stk un) dp (dp = 0)"
  "list_all json_wf ts \<Longrightarrow> \<forall>t \<in> set ts. dp + json_depth t < jsonDepthCap \<Longrightarrow>
     doc_loop (Decoder (print_items first ts @ r) (item_state first) (st # stk) un) (Suc dp) False = doc_loop (Decoder r (tokenValueEnd st) stk un) dp (dp = 0)"
  "list_all (\<lambda>(k, t). plain_string k \<and> json_wf t) kvs \<Longrightarrow> \<forall>(k, t) \<in> set kvs. dp + json_depth t < jsonDepthCap \<Longrightarrow>
     doc_loop (Decoder (print_members first kvs @ r) (member_state first) (st # stk) un) (Suc dp) False = doc_loop (Decoder r (tokenValueEnd st) stk un) dp (dp = 0)"
proof (induction t and first ts and first kvs arbitrary: dp st r d stk and dp st r stk and dp st r stk
    rule: json_print_print_items_print_members.induct)
  case (5 ts)
  have "\<forall>t \<in> set ts. dp + json_depth t < jsonDepthCap" using "5.prems"(2) json_depth_item [of _ ts] by fastforce
  then show ?case using "5.prems" "5.IH" [of dp r st stk] by (simp add: doc_loop.simps [of d])
next
  case (6 kvs)
  have "\<forall>(k, t) \<in> set kvs. dp + json_depth t < jsonDepthCap" using "6.prems"(2) json_depth_member [of _ _ kvs] by fastforce
  then show ?case using "6.prems" "6.IH" [of dp r st stk] by (simp add: doc_loop.simps [of d])
next
  case (7 first)
  then show ?case by (simp add: doc_loop.simps [of "Decoder (_ # _) _ _ _"])
next
  case (8 first t ts)
  then show ?case using "8.IH"(1) [OF _ _ _ _ Token_item, of "Suc dp"] "8.IH"(2) [of dp r st stk] by simp
next
  case (9 first)
  then show ?case by (simp add: doc_loop.simps [of "Decoder (_ # _) _ _ _"])
next
  case (10 first k t kvs)
  let ?d = "Decoder (CHR '':'' # json_print t @ print_members False kvs @ r) tokenObjectColon (st # stk) un"
  have "doc_loop (Decoder (print_members first ((k, t) # kvs) @ r) (member_state first) (st # stk) un) (Suc dp) False = doc_loop ?d (Suc dp) False"
    using "10.prems" by (subst doc_loop.simps) (simp add: Token_member del: print_members.simps)
  also have "\<dots> = doc_loop (Decoder (print_members False kvs @ r) tokenObjectComma (st # stk) un) (Suc dp) False"
    using "10.prems" "10.IH"(1) [of "Suc dp" tokenObjectValue "print_members False kvs @ r" ?d "st # stk"] by simp
  also have "\<dots> = doc_loop (Decoder r (tokenValueEnd st) stk un) dp (dp = 0)" using "10.prems" "10.IH"(2) [of dp r st stk] by simp
  finally show ?case .
qed (rule doc_scalar; (assumption | simp add: scalar_token_def))+

lemma doc_valid: "json_wf t \<Longrightarrow> json_depth t \<le> jsonDepthCap \<Longrightarrow> jsonDocDepthValid (json_print t)"
  using doc_print(1) [of t 0 tokenTopValue "[]" "NewDecoder (json_print t)" "[]" False]
  by (simp add: jsonDocDepthValid_def NewDecoder_def value_stop_def doc_loop.simps [of "Decoder [] _ _ _"] Token.simps json_peek_def)

subsection \<open>Resolving a field\<close>

lemma decodeScalar_print:
  assumes "json_wf t" and "dp + json_depth t \<le> jsonDepthCap" and "tokenValueAllowed st" and "value_stop r"
    and "Token d = Token (Decoder (json_print t @ r) st stk un)"
  shows "decodeScalar d dp = (json_scalar t, Decoder r (tokenValueEnd st) stk un)"
proof (cases "scalar_token t")
  case None
  then show ?thesis using assms drain_print
    by (cases t) (auto simp: scalar_token_def decodeScalar_def json_scalar_def)
next
  case (Some tok)
  from Token_scalar_at [OF assms(1) Some assms(3,4,5)] Some assms(2) show ?thesis
    by (cases t) (auto simp: scalar_token_def decodeScalar_def json_scalar_def)
qed

lemma descend_scalar:
  assumes "json_wf t" and "scalar_token t = Some tok" and "dp + json_depth t \<le> jsonDepthCap" and "tokenValueAllowed st" and "value_stop r"
    and "dp < length segs" and "Token d = Token (Decoder (json_print t @ r) st stk un)"
  shows "descend d segs dp = (json_lookup t (drop dp segs), Decoder r (tokenValueEnd st) stk un)"
proof -
  have "json_lookup t (drop dp segs) = None" using assms(2,6) Cons_nth_drop_Suc [OF assms(6)]
    by (cases t; cases "segs ! dp") (auto simp: scalar_token_def simp flip: Cons_nth_drop_Suc)
  then show ?thesis using Token_scalar_at [OF assms(1,2,4,5,7)] assms(2,3) scalar_token_nodelim [of t]
    by (cases tok) (simp_all add: descend.simps [of d])
qed

lemma descend_print:
  "json_wf t \<Longrightarrow> dp + json_depth t \<le> jsonDepthCap \<Longrightarrow> tokenValueAllowed st \<Longrightarrow> value_stop r \<Longrightarrow> dp < length segs \<Longrightarrow>
     Token d = Token (Decoder (json_print t @ r) st stk un) \<Longrightarrow>
     descend d segs dp = (json_lookup t (drop dp segs), Decoder r (tokenValueEnd st) stk un)"
  "list_all json_wf ts \<Longrightarrow> \<forall>t \<in> set ts. dp + json_depth t < jsonDepthCap \<Longrightarrow> dp < length segs \<Longrightarrow>
     descendArray (Decoder (print_items first ts @ r) (item_state first) (st # stk) un) segs dp index i res =
       (if i \<le> index \<and> index < i + length ts then json_lookup (ts ! (index - i)) (drop (Suc dp) segs) else res,
        Decoder r (tokenValueEnd st) stk un)"
  "list_all (\<lambda>(k, t). plain_string k \<and> json_wf t) kvs \<Longrightarrow> \<forall>(k, t) \<in> set kvs. dp + json_depth t < jsonDepthCap \<Longrightarrow> dp < length segs \<Longrightarrow>
     descendObject (Decoder (print_members first kvs @ r) (member_state first) (st # stk) un) segs dp key res =
       (case map_of (rev kvs) key of None \<Rightarrow> res | Some t \<Rightarrow> json_lookup t (drop (Suc dp) segs), Decoder r (tokenValueEnd st) stk un)"
proof (induction t and first ts and first kvs arbitrary: dp st r d stk and dp st r stk index i res and dp st r stk key res
    rule: json_print_print_items_print_members.induct)
  case (5 ts)
  have "\<forall>t \<in> set ts. dp + json_depth t < jsonDepthCap" using "5.prems"(2) json_depth_item [of _ ts] by fastforce
  moreover have "json_depth (JsArr ts) \<le> jsonDepthCap" using "5.prems"(2) by simp
  ultimately show ?case using "5.prems" drain_print(1) [OF "5.prems"(1)]
    by (cases "segs ! dp") (auto simp: "5.IH" [simplified] descend.simps [of d] simp flip: Cons_nth_drop_Suc)
next
  case (6 kvs)
  have "\<forall>(k, t) \<in> set kvs. dp + json_depth t < jsonDepthCap" using "6.prems"(2) json_depth_member [of _ _ kvs] by fastforce
  moreover have "json_depth (JsObj kvs) \<le> jsonDepthCap" using "6.prems"(2) by simp
  ultimately show ?case using "6.prems" drain_print(2) [OF "6.prems"(1)]
    by (cases "segs ! dp") (auto simp: "6.IH" [simplified] descend.simps [of d] simp flip: Cons_nth_drop_Suc)
next
  case (7 first)
  then show ?case by (auto simp: descendArray.simps)
next
  case (8 first t ts)
  let ?d = "Decoder (print_items first (t # ts) @ r) (item_state first) (st # stk) un"
  let ?e = "Decoder (print_items False ts @ r) tokenArrayComma (st # stk) un"
  have wf: "json_wf t" "Suc dp + json_depth t \<le> jsonDepthCap" using "8.prems" by auto
  have rest: "descendArray ?e segs dp index (Suc i) res' =
      (if Suc i \<le> index \<and> index < Suc i + length ts then json_lookup (ts ! (index - Suc i)) (drop (Suc dp) segs) else res',
       Decoder r (tokenValueEnd st) stk un)" for res'
    using "8.prems" "8.IH"(2) [where dp = dp and r = r and st = st and stk = stk and index = index and i = "Suc i" and res = res'] by simp
  have skip: "skipValue ?d (Suc dp) = (True, ?e)" using skip_print(1) [OF wf _ _ Token_item, of first ts r "st # stk" un] by simp
  have "(if dp = length segs - 1 then decodeScalar ?d (dp + 1) else descend ?d segs (dp + 1)) = (json_lookup t (drop (Suc dp) segs), ?e)"
  proof (cases "dp = length segs - 1")
    case True
    then show ?thesis using decodeScalar_print [OF wf _ _ Token_item, of first ts r "st # stk" un] by simp
  next
    case False
    then have "Suc dp < length segs" using "8.prems"(3) by simp
    then show ?thesis using False "8.IH"(1) [OF wf _ _ _ Token_item, of first ts r "st # stk"] by simp
  qed
  then show ?case using rest skip More_item [OF wf(1), of first ts r] by (subst descendArray.simps) (auto simp: Let_def Suc_diff_Suc nth_Cons' simp del: print_items.simps)
next
  case (9 first)
  then show ?case by (simp add: descendObject.simps)
next
  case (10 first k t kvs)
  let ?d = "Decoder (CHR '':'' # json_print t @ print_members False kvs @ r) tokenObjectColon (st # stk) un"
  let ?e = "Decoder (print_members False kvs @ r) tokenObjectComma (st # stk) un"
  have wf: "json_wf t" "Suc dp + json_depth t \<le> jsonDepthCap" and k: "plain_string k" using "10.prems" by auto
  have at: "Token ?d = Token (Decoder (json_print t @ print_members False kvs @ r) tokenObjectValue (st # stk) un)" by simp
  have rest: "descendObject ?e segs dp key res' =
      (case map_of (rev kvs) key of None \<Rightarrow> res' | Some t \<Rightarrow> json_lookup t (drop (Suc dp) segs), Decoder r (tokenValueEnd st) stk un)" for res'
    using "10.prems" "10.IH"(2) [where dp = dp and r = r and st = st and stk = stk and key = key and res = res'] by simp
  have skip: "skipValue ?d (Suc dp) = (True, ?e)" using skip_print(1) [OF wf _ _ at] by simp
  have "(if dp = length segs - 1 then decodeScalar ?d (dp + 1) else descend ?d segs (dp + 1)) = (json_lookup t (drop (Suc dp) segs), ?e)"
  proof (cases "dp = length segs - 1")
    case True
    then show ?thesis using decodeScalar_print [OF wf _ _ at] by simp
  next
    case False
    then have "Suc dp < length segs" using "10.prems"(3) by simp
    then show ?thesis using False "10.IH"(1) [OF wf _ _ _ at] by simp
  qed
  then show ?case using rest skip Token_member [OF k, of first t kvs r]
    by (subst descendObject.simps) (auto simp: Let_def More_member map_add_def simp del: print_members.simps split: option.splits)
qed (rule descend_scalar; (assumption | simp add: scalar_token_def))+

text \<open>C17: Reading a field of a JSON value token by token gives what a lookup in the document gives: the scalar
  at the end of the path, with the last of several members of the same name, and nothing when the path
  leaves the document or ends at null or at a container. The document nests at most 32 deep and its text
  is at most 8192 bytes long.\<close>

theorem json_field_lookup:
  assumes "json_wf t" and "json_depth t \<le> jsonDepthCap" and "length (json_print t) \<le> jsonValueSizeCap" and "segs \<noteq> []"
  shows "resolveJSONField (json_print t) segs = json_lookup t segs"
  using assms doc_valid [OF assms(1,2)] descend_print(1) [of t 0 tokenTopValue "[]" segs "UseNumber (NewDecoder (json_print t))" "[]" True]
  by (simp add: resolveJSONField_def UseNumber_def NewDecoder_def value_stop_def)

definition sample_json :: json where
  "sample_json = JsObj [(''a'', JsBool True), (''a'', JsArr [JsNull, JsObj [(''b'', JsStr ''x'')]])]"

theorem json_field_lookup_witness:
  "resolveJSONField (json_print sample_json) [SegKey ''a'', SegIndex 1, SegKey ''b''] = Some ''x''"
proof -
  have "plain_string ''a''" "plain_string ''b''" "plain_string ''x''" by code_simp+
  then have "json_wf sample_json" by (simp add: sample_json_def)
  moreover have "json_depth sample_json \<le> jsonDepthCap" "length (json_print sample_json) \<le> jsonValueSizeCap"
    by (simp_all add: sample_json_def jsonDepthCap_def jsonValueSizeCap_def)
  moreover have "json_lookup sample_json [SegKey ''a'', SegIndex 1, SegKey ''b''] = Some ''x''"
    by (simp add: sample_json_def json_scalar_def)
  ultimately show ?thesis using json_field_lookup [of sample_json "[SegKey ''a'', SegIndex 1, SegKey ''b'']"] by simp
qed

end
