(* ===== verification/Duration.thy ===== *)
theory Duration
  imports Complex_Main Matcher
begin

text \<open>
  Durations, \<open>internal/pipeline/duration.go\<close>: the parser of operator durations and the lifetime an origin
  states in a header. A duration is a number of nanoseconds. The \<open>float64\<close> magnitude of a term is a
  rational number; its integer part is accumulated in an \<open>int64\<close> and wraps.
\<close>

subsection \<open>Parsing\<close>

definition maxHeaderTTL :: int where
  "maxHeaderTTL = 365 * 24 * 3600 * 1000000000"

definition unitDuration :: "string \<Rightarrow> int option" where
  "unitDuration u =
     (if u = ''ns'' then Some 1
      else if u = ''us'' \<or> u = [CHR 0xC2, CHR 0xB5, CHR ''s''] \<or> u = [CHR 0xCE, CHR 0xBC, CHR ''s''] then Some 1000
      else if u = ''ms'' then Some 1000000
      else if u = ''s'' then Some 1000000000
      else if u = ''m'' then Some (60 * 1000000000)
      else if u = ''h'' then Some (3600 * 1000000000)
      else if u = ''d'' then Some (24 * 3600 * 1000000000)
      else if u = ''w'' then Some (7 * 24 * 3600 * 1000000000)
      else None)"

definition whole_val :: "string \<Rightarrow> int" where
  "whole_val ds = foldl (\<lambda>w c. i64 (w * 10 + int (digit_val c))) 0 ds"

definition truncate_rat :: "rat \<Rightarrow> int" where
  "truncate_rat r = (if r \<ge> 0 then \<lfloor>r\<rfloor> else - \<lfloor>- r\<rfloor>)"

text \<open>The digits before and after the point, and what follows; there must be a digit.\<close>

definition scan_magnitude :: "string \<Rightarrow> (string \<times> string \<times> string) option" where
  "scan_magnitude s =
     (let ip = takeWhile is_digit s; t = dropWhile is_digit s in
      if HasPrefix t ''.'' then
        (let fr = takeWhile is_digit (tl t)
         in if ip = [] \<and> fr = [] then None else Some (ip, fr, dropWhile is_digit (tl t)))
      else if ip = [] then None else Some (ip, [], t))"

text \<open>One term: its number of nanoseconds, when it is within range, and what follows.\<close>

definition unit_byte :: "char \<Rightarrow> bool" where
  "unit_byte c \<longleftrightarrow> \<not> is_digit c \<and> c \<noteq> CHR ''.''"

definition duration_term :: "string \<Rightarrow> (int \<times> string) option" where
  "duration_term s =
     (case scan_magnitude s of
        None \<Rightarrow> None
      | Some (ip, fr, t) \<Rightarrow>
          (case unitDuration (takeWhile unit_byte t) of
             None \<Rightarrow> None
           | Some base \<Rightarrow>
               let ns = (of_int (whole_val ip) + of_nat (dec_val fr) / 10 ^ length fr) * of_int base
               in if ns > 2 ^ 63 \<or> ns < - (2 ^ 63) then None
                  else Some (i64 (truncate_rat ns), dropWhile unit_byte t)))"

lemma scan_magnitude_less: "scan_magnitude s = Some (ip, fr, t) \<Longrightarrow> length t < length s"
proof -
  assume *: "scan_magnitude s = Some (ip, fr, t)"
  have len: "length s = length (takeWhile is_digit s) + length (dropWhile is_digit s)" for s
    by (metis length_append takeWhile_dropWhile_id)
  show ?thesis
  proof (cases "HasPrefix (dropWhile is_digit s) ''.''")
    case True
    then obtain u where u: "dropWhile is_digit s = CHR ''.'' # u" by (auto simp: HasPrefix_iff)
    then have "t = dropWhile is_digit u" using * True by (auto simp: scan_magnitude_def Let_def split: if_split_asm)
    then show ?thesis using len [of s] u length_dropWhile_le [of is_digit u] by simp
  next
    case False
    then have "t = dropWhile is_digit s" "takeWhile is_digit s \<noteq> []"
      using * by (auto simp: scan_magnitude_def Let_def split: if_split_asm)
    then show ?thesis using len [of s] by (cases "takeWhile is_digit s") auto
  qed
qed

lemma duration_term_less: "duration_term s = Some (part, rest) \<Longrightarrow> length rest < length s"
  by (auto simp: duration_term_def Let_def split: option.splits if_split_asm dest!: scan_magnitude_less
      intro: le_less_trans [OF length_dropWhile_le])

function duration_loop :: "int \<Rightarrow> string \<Rightarrow> int option" where
  "duration_loop acc s =
     (if s = [] then Some acc
      else
        case duration_term s of
          None \<Rightarrow> None
        | Some (part, rest) \<Rightarrow>
            if part > 0 \<and> acc > 2 ^ 63 - 1 - part \<or> part < 0 \<and> acc < - (2 ^ 63) - part then None
            else duration_loop (acc + part) rest)"
  by pat_completeness auto
termination by (relation "measure (\<lambda>(acc, s). length s)") (auto dest: duration_term_less)

declare duration_loop.simps [simp del]

definition parseDuration :: "string \<Rightarrow> int option" where
  "parseDuration s =
     (if s = [] then None
      else if s = ''0'' then Some 0
      else
        let neg = (hd s = CHR ''-''); t = (if hd s = CHR ''+'' \<or> hd s = CHR ''-'' then tl s else s) in
        if t = [] then None
        else case duration_loop 0 t of None \<Rightarrow> None | Some acc \<Rightarrow> Some (if neg then i64 (- acc) else acc))"

subsection \<open>The lifetime an origin states\<close>

definition headerTTL :: "http_header \<Rightarrow> string \<Rightarrow> int option" where
  "headerTTL h name =
     (if h = None then None
      else
        let v = TrimSpace (Header_Get h name) in
        if v = [] then None
        else
          case ParseInt v of
            Some n \<Rightarrow>
              if n \<le> 0 \<or> n > (2 ^ 63 - 1) div 1000000000 then None
              else
                let d = i64 (n * 1000000000) in
                if d > maxHeaderTTL then None else Some d
          | None \<Rightarrow>
              (case parseDuration v of
                 None \<Rightarrow> None
               | Some d \<Rightarrow> if d \<le> 0 \<or> d > maxHeaderTTL then None else Some d))"

text \<open>A lifetime taken from an origin header is positive and at most a year, and one given as a bare
  number of seconds is that number of seconds: the multiplication does not wrap.\<close>

theorem header_ttl_bounds:
  assumes "headerTTL h name = Some d"
  shows "0 < d \<and> d \<le> maxHeaderTTL \<and> (\<forall>n. ParseInt (TrimSpace (Header_Get h name)) = Some n \<longrightarrow> d = n * 1000000000)"
proof (cases "ParseInt (TrimSpace (Header_Get h name))")
  case None
  then show ?thesis using assms by (auto simp: headerTTL_def Let_def split: if_split_asm option.splits)
next
  case (Some n)
  then have n: "0 < n" "n \<le> (2 ^ 63 - 1) div 1000000000" "d = i64 (n * 1000000000)" "d \<le> maxHeaderTTL"
    using assms by (auto simp: headerTTL_def Let_def split: if_split_asm option.splits)
  then have "in_i64 (n * 1000000000)" by (simp add: in_i64_def)
  then have "d = n * 1000000000" using n(3) by (simp add: i64_id)
  then show ?thesis using n Some by simp
qed

theorem header_ttl_bounds_witness:
  "headerTTL (Some [(''X-Cache-Ttl'', ['' 300 ''])]) ''x-cache-ttl'' = Some 300000000000 \<and> (0 :: int) < 300000000000 \<and> 300000000000 \<le> maxHeaderTTL"
proof -
  have "headerTTL (Some [(''X-Cache-Ttl'', ['' 300 ''])]) ''x-cache-ttl'' = Some 300000000000" by code_simp
  then show ?thesis using header_ttl_bounds [of "Some [(''X-Cache-Ttl'', ['' 300 ''])]" "''x-cache-ttl''" 300000000000] by simp
qed

text \<open>The range check of the duration parser does not cover the digits themselves. A number of seconds
  that does not fit an \<open>int64\<close> wraps before it is checked, so that two to the sixty-fourth plus one seconds
  parse as one second.\<close>

lemma duration_digits_wrap: "parseDuration ''18446744073709551617s'' = Some 1000000000"
  by code_simp

end
