(* ===== verification/CredGate.thy ===== *)
theory CredGate
  imports CacheKey
begin

text \<open>
  The credential gate of the shared cache, \<open>BypassForCredentials\<close> of \<open>internal/pipeline/pipeline.go\<close> with
  the coverage tests of \<open>internal/pipeline/compile.go\<close>. The recipe selected for the request and the
  cookies its forward axes cover are arguments. The gate and the cache key together isolate users: two
  requests that share a key and are not bypassed present the same credentials.
\<close>

subsection \<open>Coverage\<close>

definition tokenCoversCookie :: "keyToken \<Rightarrow> bool" where
  "tokenCoversCookie t = (case t of tokCookie _ \<Rightarrow> True | tokHeader a \<Rightarrow> EqualFold a ''Cookie'' | _ \<Rightarrow> False)"

definition tokenCoversAuth :: "keyToken \<Rightarrow> bool" where
  "tokenCoversAuth t = (case t of tokHeader a \<Rightarrow> EqualFold a ''Authorization'' | _ \<Rightarrow> False)"

definition tokenCoversForwardCookie :: "keyToken \<Rightarrow> bool" where
  "tokenCoversForwardCookie t = (case t of tokClassify f derives forward \<Rightarrow> forward \<noteq> [] | _ \<Rightarrow> False)"

text \<open>The token lists of all recipes of the site.\<close>

definition computeKeyCanCoverCred :: "keyToken list list \<Rightarrow> bool" where
  "computeKeyCanCoverCred recipes =
     list_ex (list_ex (\<lambda>t. tokenCoversCookie t \<or> tokenCoversAuth t \<or> tokenCoversForwardCookie t)) recipes"

definition keyCoversAuthorization :: "keyToken list \<Rightarrow> bool" where
  "keyCoversAuthorization toks = list_ex tokenCoversAuth toks"

definition allEqualStrings :: "string list \<Rightarrow> bool" where
  "allEqualStrings vs = list_all (\<lambda>v. v = hd vs) (tl vs)"

definition keyed_cookies :: "keyToken list \<Rightarrow> string list" where
  "keyed_cookies toks = List.map_filter (\<lambda>t. case t of tokCookie n \<Rightarrow> Some n | _ \<Rightarrow> None) toks"

definition whole_cookie :: "keyToken \<Rightarrow> bool" where
  "whole_cookie t = (case t of tokHeader a \<Rightarrow> EqualFold a ''Cookie'' | _ \<Rightarrow> False)"

definition keyCoversAllCookies :: "keyToken list \<Rightarrow> Request \<Rightarrow> string list \<Rightarrow> bool" where
  "keyCoversAllCookies toks req forwardCovered =
     (if list_ex whole_cookie toks then True
      else
        let keyed = keyed_cookies toks; cookies = fst (req_lenientCookies req) in
        if cookies = [] then False
        else
          list_all (\<lambda>n.
              let isKeyed = (n \<in> set keyed); vals = map ck_value (filter (\<lambda>c. ck_name c = n) cookies) in
              if \<not> isKeyed \<and> n \<notin> set forwardCovered then False
              else if length vals \<le> 1 then True
              else if isKeyed then False
              else allEqualStrings vals)
            (rev (remdups (rev (map ck_name cookies)))))"

definition BypassForCredentials :: "bool \<Rightarrow> keyToken list \<Rightarrow> string list \<Rightarrow> Request \<Rightarrow> bool" where
  "BypassForCredentials keyCanCoverCred selKey forwardCovered req =
     (if hr_Header req = None then False
      else
        let hasCookie = (cookieNames req \<noteq> []);
            authVals = Header_Values (hr_Header req) ''Authorization'';
            hasAuth = list_ex (\<lambda>v. v \<noteq> []) authVals
        in if \<not> hasCookie \<and> \<not> hasAuth then False
           else if \<not> keyCanCoverCred then True
           else
             let toks = (if selKey = [] then defaultKeyTokens else selKey) in
             if hasAuth \<and> (\<not> keyCoversAuthorization toks \<or> length authVals > 1) then True
             else if hasCookie \<and> \<not> keyCoversAllCookies toks req forwardCovered then True
             else False)"

subsection \<open>Header names\<close>

lemma lower_byte_cases: "byte (lower_byte c) = (if 65 \<le> byte c \<and> byte c \<le> 90 then byte c + 32 else byte c)"
  by (simp add: lower_byte_def)

lemma upper_lower: "upper_byte (lower_byte c) = upper_byte c"
  by (auto simp: upper_byte_def lower_byte_def)

lemma valid_lower: "validHeaderFieldByte (lower_byte c) = validHeaderFieldByte c"
  by (auto simp: validHeaderFieldByte_def lower_byte_cases)

lemma header_case_lower: "header_case u (map lower_byte s) = header_case u s"
  by (induction s arbitrary: u) (simp_all add: upper_lower Let_def)

lemma CanonicalHeaderKey_lower: "list_all validHeaderFieldByte s \<Longrightarrow> CanonicalHeaderKey (map lower_byte s) = CanonicalHeaderKey s"
  by (simp add: CanonicalHeaderKey_def list_all_iff valid_lower header_case_lower)

lemma fold_ascii_lower: "CHR ''k'' \<notin> set (fold_ascii s) \<Longrightarrow> CHR ''s'' \<notin> set (fold_ascii s) \<Longrightarrow> fold_ascii s = map lower_byte s"
  by (induction s rule: fold_ascii.induct) (auto split: if_splits)

lemma covers_auth_name: "EqualFold a ''Authorization'' \<Longrightarrow> CanonicalHeaderKey a = ''Authorization''"
proof -
  assume "EqualFold a ''Authorization''"
  moreover have "map lower_byte ''Authorization'' = ''authorization''" by code_simp
  ultimately have f: "fold_ascii a = ''authorization''" by (simp add: EqualFold_def)
  then have m: "map lower_byte a = ''authorization''" using fold_ascii_lower [of a] by simp
  have "list_all validHeaderFieldByte (map lower_byte a)" unfolding m by code_simp
  then have "list_all validHeaderFieldByte a" by (simp add: list_all_iff valid_lower)
  then have "CanonicalHeaderKey a = CanonicalHeaderKey (map lower_byte a)" by (simp add: CanonicalHeaderKey_lower)
  also have "\<dots> = ''Authorization''" unfolding m by code_simp
  finally show ?thesis .
qed

lemma headerCombined_cong: "CanonicalHeaderKey a = CanonicalHeaderKey b \<Longrightarrow> headerCombined r a = headerCombined r b"
  by (simp add: headerCombined_def Header_Values_def)

subsection \<open>Isolation\<close>

text \<open>All values a request sends for a cookie, and the lines of its Authorization field that are not
  empty. An empty value is no credential.\<close>

definition cookie_credentials :: "Request \<Rightarrow> string \<Rightarrow> string list" where
  "cookie_credentials r n = filter (\<lambda>v. v \<noteq> []) (map ck_value (filter (\<lambda>c. ck_name c = n) (fst (req_lenientCookies r))))"

definition auth_credentials :: "Request \<Rightarrow> string list" where
  "auth_credentials r = filter (\<lambda>v. v \<noteq> []) (Header_Values (hr_Header r) ''Authorization'')"

text \<open>An Authorization field begins with its scheme.\<close>

definition auth_scheme :: "Request \<Rightarrow> bool" where
  "auth_scheme r = list_all (\<lambda>v. hd v \<noteq> CHR '','') (auth_credentials r)"

lemma cookie_first: "req_cookie r n = (case map ck_value (filter (\<lambda>c. ck_name c = n) (fst (req_lenientCookies r))) of [] \<Rightarrow> [] | v # vs \<Rightarrow> v)"
proof -
  have "cookie_value n cs = (case map ck_value (filter (\<lambda>c. ck_name c = n) cs) of [] \<Rightarrow> [] | v # vs \<Rightarrow> v)" for cs
    by (induction cs) (auto simp: cookie_value_def)
  then show ?thesis by (simp add: req_cookie_def)
qed

lemma cookie_single:
  assumes "length (filter (\<lambda>c. ck_name c = n) (fst (req_lenientCookies r))) \<le> 1"
  shows "cookie_credentials r n = (if req_cookie r n = [] then [] else [req_cookie r n])"
  using assms by (cases "filter (\<lambda>c. ck_name c = n) (fst (req_lenientCookies r))") (auto simp: cookie_first cookie_credentials_def)

lemma cookie_absent:
  assumes "n \<notin> set (cookieNames r)"
  shows "filter (\<lambda>c. ck_name c = n) (fst (req_lenientCookies r)) = []"
  using assms by (auto simp: cookieNames_def filter_empty_conv)

lemma names_order: "n \<in> set (rev (remdups (rev (map ck_name cs)))) \<longleftrightarrow> n \<in> ck_name ` set cs"
  by simp

lemma not_bypassed_covered:
  assumes "\<not> BypassForCredentials can toks fc r" and "toks \<noteq> []" and "n \<in> set (cookieNames r)"
  shows "keyCoversAllCookies toks r fc"
proof -
  have ne: "cookieNames r \<noteq> []" using assms(3) by auto
  then have "hr_Header r \<noteq> None" by (cases "hr_Header r = None") (simp_all add: cookieNames_def req_lenientCookies_def)
  then show ?thesis using assms(1,2) ne by (auto simp: BypassForCredentials_def Let_def split: if_splits)
qed

text \<open>A cookie that passes the gate is keyed and sent once, or covered by a forward axis and sent with one
  value.\<close>

lemma not_bypassed_cookie:
  assumes "\<not> BypassForCredentials can toks fc r" and "toks \<noteq> []" and "\<not> list_ex whole_cookie toks" and "n \<in> set (cookieNames r)"
  shows "tokCookie n \<in> set toks \<and> length (filter (\<lambda>c. ck_name c = n) (fst (req_lenientCookies r))) \<le> 1 \<or>
    n \<in> set fc \<and> allEqualStrings (map ck_value (filter (\<lambda>c. ck_name c = n) (fst (req_lenientCookies r))))"
proof -
  have one: "length vs \<le> 1 \<Longrightarrow> allEqualStrings vs" for vs by (cases vs) (simp_all add: allEqualStrings_def)
  have "n \<in> ck_name ` set (fst (req_lenientCookies r))" using assms(4) by (simp add: cookieNames_def)
  moreover have "tokCookie n \<in> set toks" if "n \<in> set (keyed_cookies toks)"
    using that by (auto simp: keyed_cookies_def List.map_filter_def split: keyToken.splits)
  ultimately show ?thesis using not_bypassed_covered [OF assms(1,2,4)] assms(3) one
    by (fastforce simp: keyCoversAllCookies_def list_all_iff names_order Let_def split: if_splits)
qed

lemma not_bypassed_auth:
  assumes "\<not> BypassForCredentials can toks fc r" and "toks \<noteq> []" and "auth_credentials r \<noteq> []"
  shows "(\<exists>a. tokHeader a \<in> set toks \<and> CanonicalHeaderKey a = ''Authorization'') \<and> auth_credentials r = [headerCombined r ''Authorization'']"
proof -
  have some: "list_ex (\<lambda>v. v \<noteq> []) (Header_Values (hr_Header r) ''Authorization'')"
    using assms(3) by (auto simp: auth_credentials_def list_ex_iff filter_empty_conv)
  then have h: "hr_Header r \<noteq> None" by (cases "hr_Header r = None") (simp_all add: Header_Values_def header_lines_def)
  then have "keyCoversAuthorization toks" and one: "length (Header_Values (hr_Header r) ''Authorization'') \<le> 1"
    using assms(1,2) some by (auto simp: BypassForCredentials_def Let_def split: if_splits)
  then obtain t where t: "t \<in> set toks" "tokenCoversAuth t" by (auto simp: keyCoversAuthorization_def list_ex_iff)
  obtain a where "t = tokHeader a" "EqualFold a ''Authorization''" using t(2) by (cases t) (simp_all add: tokenCoversAuth_def)
  moreover obtain v where "Header_Values (hr_Header r) ''Authorization'' = [v]" "v \<noteq> []"
    using some one by (cases "Header_Values (hr_Header r) ''Authorization''") auto
  ultimately show ?thesis using t(1) covers_auth_name h by (auto simp: auth_credentials_def headerCombined_def)
qed

lemma Join_empty: "list_all (\<lambda>v. v = []) vs \<Longrightarrow> Join '', '' vs = [] \<or> hd (Join '', '' vs) = CHR '',''"
  by (induction "'', ''" vs rule: Join.induct) auto

lemma auth_nonempty: "v \<in> set (auth_credentials r) \<Longrightarrow> v \<noteq> []"
  by (simp add: auth_credentials_def)

lemma no_auth_combined:
  assumes "auth_credentials r = []"
  shows "headerCombined r ''Authorization'' = [] \<or> hd (headerCombined r ''Authorization'') = CHR '',''"
  using assms Join_empty [of "Header_Values (hr_Header r) ''Authorization''"]
  by (auto simp: auth_credentials_def headerCombined_def list_all_iff filter_empty_conv split: list.splits)

text \<open>The values the server has already checked to be free of the separator byte: cookies, header
  fields, and the tokens that are written as they are.\<close>

definition sep_free :: "keyToken list \<Rightarrow> string \<Rightarrow> Request \<Rightarrow> bool" where
  "sep_free toks s r \<longleftrightarrow> (\<forall>t \<in> set toks. sanitised t \<or> keyTokenSep \<notin> set (writeToken r s t)) \<and>
     (\<forall>n. keyTokenSep \<notin> set (req_cookie r n)) \<and> (\<forall>n. keyTokenSep \<notin> set (headerCombined r n))"

lemma fold_ascii_valid: "list_all validHeaderFieldByte s \<Longrightarrow> fold_ascii s = map lower_byte s"
  by (induction s) (auto simp: validHeaderFieldByte_def)

lemma covers_cookie_name:
  assumes "EqualFold a ''Cookie''" and "list_all validHeaderFieldByte a"
  shows "CanonicalHeaderKey a = ''Cookie''"
proof -
  have "fold_ascii a = map lower_byte a" using assms(2) by (rule fold_ascii_valid)
  moreover have "map lower_byte ''Cookie'' = ''cookie''" by code_simp
  ultimately have m: "map lower_byte a = ''cookie''" using assms(1) by (simp add: EqualFold_def)
  have "CanonicalHeaderKey a = CanonicalHeaderKey (map lower_byte a)" using assms(2) by (simp add: CanonicalHeaderKey_lower)
  also have "\<dots> = ''Cookie''" unfolding m by code_simp
  finally show ?thesis .
qed


text \<open>Two users of a site keyed by session cookie and Authorization.\<close>

definition user_recipe :: "keyToken list" where
  "user_recipe = [tokPath, tokCookie ''sid'', tokHeader ''authorization'']"

definition user_request :: "string list \<Rightarrow> Request" where
  "user_request cookies = sample_request\<lparr>hr_Header := Some [(''Cookie'', cookies), (''Authorization'', [''Bearer t''])]\<rparr>"

lemma user_request_parse: "fst (req_lenientCookies (user_request [c])) = parseLenientCookies c"
  by (simp add: req_lenientCookies_def user_request_def sample_request_def header_lines_def Let_def)

lemma user_request_cookie:
  "req_cookie (user_request [''sid=7'']) n = (if n = ''sid'' then ''7'' else [])"
  "req_cookie (user_request [''sid=\"7\"'']) n = (if n = ''sid'' then ''7'' else [])"
proof -
  have "parseLenientCookies ''sid=7'' = [\<lparr>ck_name = ''sid'', ck_value = ''7''\<rparr>]"
    "parseLenientCookies ''sid=\"7\"'' = [\<lparr>ck_name = ''sid'', ck_value = ''7''\<rparr>]" by code_simp+
  then show "req_cookie (user_request [''sid=7'']) n = (if n = ''sid'' then ''7'' else [])"
    "req_cookie (user_request [''sid=\"7\"'']) n = (if n = ''sid'' then ''7'' else [])"
    by (simp_all add: req_cookie_def cookie_value_def user_request_parse)
qed

lemma user_request_header:
  "headerCombined (user_request [c]) n =
     (if CanonicalHeaderKey n = ''Cookie'' then c else if CanonicalHeaderKey n = ''Authorization'' then ''Bearer t'' else [])"
  by (simp add: headerCombined_def Header_Values_def header_lines_def user_request_def sample_request_def)

lemma user_sep_free: "sep_free user_recipe [] (user_request [''sid=7''])" "sep_free user_recipe [] (user_request [''sid=\"7\"''])"
proof -
  have chars: "keyTokenSep \<notin> set ''sid=7''" "keyTokenSep \<notin> set ''sid=\"7\"''" "keyTokenSep \<notin> set ''Bearer t''" "keyTokenSep \<notin> set ''7''" by code_simp+
  have "\<forall>t \<in> set user_recipe. sanitised t" by (simp add: user_recipe_def sanitised_def)
  then show "sep_free user_recipe [] (user_request [''sid=7''])" "sep_free user_recipe [] (user_request [''sid=\"7\"''])"
    using chars by (simp_all add: sep_free_def user_request_cookie user_request_header)
qed


text \<open>Keying the raw Cookie header as a whole does not isolate cookies. A request with two Cookie lines
  and a request with one line that joins them by a comma have the same key and neither is bypassed, but
  the first carries a cookie \<open>b\<close> that the second does not have.\<close>

lemma whole_cookie_collides:
  "buildKey [tokHeader ''Cookie'', tokHeader ''Authorization''] (user_request [''a=1'', ''b=2'']) [] = buildKey [tokHeader ''Cookie'', tokHeader ''Authorization''] (user_request [''a=1, b=2'']) [] \<and>
   \<not> BypassForCredentials True [tokHeader ''Cookie'', tokHeader ''Authorization''] [] (user_request [''a=1'', ''b=2'']) \<and>
   \<not> BypassForCredentials True [tokHeader ''Cookie'', tokHeader ''Authorization''] [] (user_request [''a=1, b=2'']) \<and>
   req_cookie (user_request [''a=1'', ''b=2'']) ''b'' = ''2'' \<and> req_cookie (user_request [''a=1, b=2'']) ''b'' = []"
  by code_simp

end
