(* ===== verification/SiteRules.thy ===== *)
theory SiteRules
  imports Duration CredGate
begin

text \<open>
  The compiled rules of a site, \<open>internal/pipeline/compile.go\<close>, as far as the phases below read them, with
  the parts of \<open>pipeline.go\<close> that the phases share: the upstream of a request, the selected key recipe, and
  the response served when the origin fails. A phase evaluates matchers through a memo, which is
  transparent, so that a matcher has one value per context.
\<close>

subsection \<open>Rules\<close>

datatype selectorKind = selStatusIn "int list" | selStatusNotIn "int list" | selScope scope | selDefault

record selector =
  sel_kind :: selectorKind
  sel_respHeader :: "matcher option"

definition selector_matches :: "matchContext \<Rightarrow> selector \<Rightarrow> int \<Rightarrow> bool" where
  "selector_matches c s status =
     ((case sel_respHeader s of None \<Rightarrow> True | Some m \<Rightarrow> ctx_matches c m) \<and>
      (case sel_kind s of
         selStatusIn codes \<Rightarrow> status \<in> set codes
       | selStatusNotIn codes \<Rightarrow> status \<notin> set codes
       | selScope sc \<Rightarrow> ctx_scope c sc
       | selDefault \<Rightarrow> True))"

record onErrorRule =
  oe_scope :: scope
  oe_status :: int
  oe_body :: string
  oe_contentType :: string

record routeRule =
  rt_scope :: scope
  rt_upstream :: string

definition routeRule_matches :: "matchContext \<Rightarrow> routeRule \<Rightarrow> bool" where
  "routeRule_matches c r = ctx_scope c (rt_scope r)"

record ttlRule =
  tr_sel :: selector
  tr_ttl :: int
  tr_grace :: int
  tr_hfm :: int
  tr_isHFM :: bool
  tr_maxStale :: int
  tr_fromHeader :: string
  tr_graceFromHeader :: string
  tr_maxStaleFromHeader :: string

definition consumedHeaders :: "ttlRule \<Rightarrow> string list" where
  "consumedHeaders r = filter (\<lambda>n. n \<noteq> []) [tr_fromHeader r, tr_graceFromHeader r, tr_maxStaleFromHeader r]"

record storageRule =
  st_sel :: selector
  st_tier :: string

record keyRule =
  kr_sel :: selector
  kr_toks :: "keyToken list"

datatype secAction = secAllow | secDeny

record secRule =
  sr_action :: secAction
  sr_terms :: "secTerm list"
  sr_monitor :: bool
  sr_name :: string

datatype rlKeyKind = rlKeyIP | rlKeyHeader | rlKeyGlobal

record rateLimitRule =
  rr_id :: int
  rr_scope :: scope
  rr_ratePerSec :: rat
  rr_burst :: int
  rr_keyKind :: rlKeyKind
  rr_keyHeader :: string
  rr_monitor :: bool
  rr_name :: string

record Pipeline =
  p_onErrorRules :: "onErrorRule list"
  p_routeRules :: "routeRule list"
  p_credentialedRules :: "scope list"
  p_allowRules :: "secRule list"
  p_denyRules :: "secRule list"
  p_rateLimitRules :: "rateLimitRule list"
  p_securityMonitor :: bool
  p_keyRules :: "keyRule list"
  p_defaultUpstream :: string
  p_ttlRules :: "ttlRule list"
  p_storageRules :: "storageRule list"
  p_cacheUnsafe :: bool
  p_cookieAllow :: "nameGlobSet option"
  p_derivedSurviveCookies :: "string list"
  p_stripRules :: "scope list"

subsection \<open>Routing and recipes\<close>

definition resolveUpstream :: "Pipeline \<Rightarrow> Request \<Rightarrow> string" where
  "resolveUpstream p req =
     (case find (routeRule_matches \<lparr>mc_req = req, mc_upstream = [], mc_respHeader = None\<rparr>) (p_routeRules p) of
        Some r \<Rightarrow> rt_upstream r
      | None \<Rightarrow> p_defaultUpstream p)"

definition request_context :: "Pipeline \<Rightarrow> Request \<Rightarrow> matchContext" where
  "request_context p req = \<lparr>mc_req = req, mc_upstream = resolveUpstream p req, mc_respHeader = None\<rparr>"

definition selectKeyTokens :: "Pipeline \<Rightarrow> matchContext \<Rightarrow> keyToken list" where
  "selectKeyTokens p c = (case find (\<lambda>r. selector_matches c (kr_sel r) 0) (p_keyRules p) of Some r \<Rightarrow> kr_toks r | None \<Rightarrow> [])"

text \<open>The recipe that the request phase has captured on the request, \<^const>\<open>None\<close> when it has not run.\<close>

type_synonym selKey = "keyToken list option"

definition resolvedKeyTokens :: "Pipeline \<Rightarrow> selKey \<Rightarrow> matchContext \<Rightarrow> keyToken list" where
  "resolvedKeyTokens p selKey c = (case selKey of Some toks \<Rightarrow> toks | None \<Rightarrow> selectKeyTokens p c)"

definition recipeTokensForReq :: "Pipeline \<Rightarrow> selKey \<Rightarrow> Request \<Rightarrow> keyToken list" where
  "recipeTokensForReq p selKey req =
     (let toks = (case selKey of Some toks \<Rightarrow> toks | None \<Rightarrow> selectKeyTokens p (request_context p req))
      in if toks = [] then defaultKeyTokens else toks)"

subsection \<open>Origin errors\<close>

record OnError =
  on_Status :: int
  on_Body :: string
  on_ContentType :: string

definition EvalOnError :: "Pipeline \<Rightarrow> Request \<Rightarrow> int \<Rightarrow> OnError option" where
  "EvalOnError p req status =
     map_option (\<lambda>r. \<lparr>on_Status = oe_status r, on_Body = oe_body r, on_ContentType = oe_contentType r\<rparr>)
       (find (\<lambda>r. ctx_scope (request_context p req) (oe_scope r)) (p_onErrorRules p))"

subsection \<open>A site\<close>

text \<open>One rule: every response is stored for a minute.\<close>

definition sample_site :: Pipeline where
  "sample_site = \<lparr>p_onErrorRules = [], p_routeRules = [], p_credentialedRules = [], p_allowRules = [], p_denyRules = [],
     p_rateLimitRules = [], p_securityMonitor = False, p_keyRules = [], p_defaultUpstream = ''origin'',
     p_ttlRules = [\<lparr>tr_sel = \<lparr>sel_kind = selDefault, sel_respHeader = None\<rparr>, tr_ttl = 60000000000, tr_grace = 0, tr_hfm = 0, tr_isHFM = False,
       tr_maxStale = 0, tr_fromHeader = [], tr_graceFromHeader = [], tr_maxStaleFromHeader = []\<rparr>],
     p_storageRules = [], p_cacheUnsafe = False, p_cookieAllow = None, p_derivedSurviveCookies = [], p_stripRules = []\<rparr>"

end
