(* ===== verification/RespDecision.thy ===== *)
theory RespDecision
  imports SiteRules
begin

text \<open>
  The decision to store a response, \<open>EvalResponse\<close> of \<open>internal/pipeline/pipeline.go\<close>. The theorems say
  under which conditions a response may enter the shared cache, and that a stored response is served
  only to requests that agree on the fields the response varies on.
\<close>

subsection \<open>Shareability\<close>

definition isUncacheableError :: "int \<Rightarrow> bool" where
  "isUncacheableError status \<longleftrightarrow> status \<ge> 400 \<and> status \<noteq> 404 \<and> status \<noteq> 410"

definition hasSetCookie :: "http_header \<Rightarrow> bool" where
  "hasSetCookie h \<longleftrightarrow> length (Header_Values h ''Set-Cookie'') > 0"

definition stripCookiesMatches :: "Pipeline \<Rightarrow> matchContext \<Rightarrow> bool" where
  "stripCookiesMatches p c = list_ex (ctx_scope c) (p_stripRules p)"

definition cacheCredentialedMatches :: "Pipeline \<Rightarrow> matchContext \<Rightarrow> bool" where
  "cacheCredentialedMatches p c = list_ex (ctx_scope c) (p_credentialedRules p)"

definition HasCacheCredentialed :: "Pipeline \<Rightarrow> bool" where
  "HasCacheCredentialed p \<longleftrightarrow> p_credentialedRules p \<noteq> []"

definition CacheCredentialedMatches :: "Pipeline \<Rightarrow> Request \<Rightarrow> bool" where
  "CacheCredentialedMatches p req =
     (if p_credentialedRules p = [] then False else cacheCredentialedMatches p (request_context p req))"

definition varyStar :: "http_header \<Rightarrow> bool" where
  "varyStar h = list_ex (\<lambda>v. list_ex (\<lambda>part. TrimSpace part = ''*'') (Split (CHR '','') v)) (Header_Values h ''Vary'')"

definition Trim_quotes :: "string \<Rightarrow> string" where
  "Trim_quotes s = rev (dropWhile (\<lambda>c. byte c = 34) (rev (dropWhile (\<lambda>c. byte c = 34) s)))"

definition uncacheable_part :: "string \<Rightarrow> bool" where
  "uncacheable_part part =
     (let part = TrimSpace part; i = IndexByte part (CHR ''='');
          (name, val) = (if i \<ge> 0 then (take (nat i) part, TrimSpace (drop (nat i + 1) part)) else (part, []));
          name = ToLower (TrimSpace name)
      in name \<in> {''no-store'', ''private'', ''no-cache''} \<or> name = ''s-maxage'' \<and> Trim_quotes val = ''0'')"

definition hasUncacheableCC :: "string \<Rightarrow> bool" where
  "hasUncacheableCC v = list_ex uncacheable_part (Split (CHR '','') v)"

definition keyHeaderNamesForTokens :: "keyToken list \<Rightarrow> string list" where
  "keyHeaderNamesForTokens toks =
     List.map_filter (\<lambda>t. case t of tokHeader a \<Rightarrow> if a \<noteq> [] then Some (ToLower a) else None | _ \<Rightarrow> None) toks"

definition field_covered :: "string list \<Rightarrow> string \<Rightarrow> bool" where
  "field_covered keyHeaders part =
     (let field = TrimSpace part in
      if field = [] then True
      else if field = ''*'' then False
      else ToLower field = ''accept-encoding'' \<or> ToLower field \<in> set keyHeaders)"

definition varyCovered :: "string \<Rightarrow> string list \<Rightarrow> bool" where
  "varyCovered v keyHeaders = list_all (field_covered keyHeaders) (Split (CHR '','') v)"

definition safelyShareable :: "http_header \<Rightarrow> string list \<Rightarrow> bool" where
  "safelyShareable h keyHeaders =
     (\<not> list_ex hasUncacheableCC (Header_Values h ''Cache-Control'') \<and>
      list_all (\<lambda>v. varyCovered v keyHeaders) (Header_Values h ''Vary''))"

subsection \<open>The decision\<close>

record ResponseDecision =
  rd_TTL :: int
  rd_Grace :: int
  rd_MaxStale :: int
  rd_HitForMiss :: int
  rd_StoreTier :: string
  rd_Cacheable :: bool
  rd_ForcedPrivate :: bool
  rd_CredentialedStore :: bool
  rd_StripHeaders :: "string list"

definition no_decision :: ResponseDecision where
  "no_decision = \<lparr>rd_TTL = 0, rd_Grace = 0, rd_MaxStale = 0, rd_HitForMiss = 0, rd_StoreTier = [],
     rd_Cacheable = False, rd_ForcedPrivate = False, rd_CredentialedStore = False, rd_StripHeaders = []\<rparr>"

definition header_window :: "http_header \<Rightarrow> string \<Rightarrow> int \<Rightarrow> int" where
  "header_window h name d = (if name \<noteq> [] then (case headerTTL h name of Some g \<Rightarrow> g | None \<Rightarrow> d) else d)"

definition resolveGraceMaxStale :: "ttlRule \<Rightarrow> http_header \<Rightarrow> int \<times> int" where
  "resolveGraceMaxStale r h =
     (let grace = header_window h (tr_graceFromHeader r) (tr_grace r);
          maxStale = header_window h (tr_maxStaleFromHeader r) (tr_maxStale r)
      in (grace, if maxStale > 0 \<and> maxStale < grace then 0 else maxStale))"

definition store_for :: "ttlRule \<Rightarrow> http_header \<Rightarrow> int \<Rightarrow> ResponseDecision" where
  "store_for r h ttl =
     no_decision\<lparr>rd_TTL := ttl, rd_Grace := fst (resolveGraceMaxStale r h), rd_MaxStale := snd (resolveGraceMaxStale r h),
       rd_StripHeaders := consumedHeaders r, rd_Cacheable := True\<rparr>"

definition names_status :: "selector \<Rightarrow> bool" where
  "names_status s = (case sel_kind s of selStatusIn codes \<Rightarrow> True | _ \<Rightarrow> False)"

text \<open>The loop over the \<open>cache_ttl\<close> rules: the decision, and whether the origin stated the lifetime.\<close>

fun ttl_loop :: "matchContext \<Rightarrow> int \<Rightarrow> http_header \<Rightarrow> ttlRule list \<Rightarrow> ResponseDecision \<times> bool" where
  "ttl_loop c status h [] = (no_decision, False)"
| "ttl_loop c status h (r # rs) =
     (if \<not> selector_matches c (tr_sel r) status then ttl_loop c status h rs
      else if tr_isHFM r then (no_decision\<lparr>rd_HitForMiss := tr_hfm r\<rparr>, False)
      else if isUncacheableError status \<and> \<not> names_status (tr_sel r) then (no_decision, False)
      else if tr_fromHeader r \<noteq> [] then
        (case headerTTL h (tr_fromHeader r) of
           None \<Rightarrow> ttl_loop c status h rs
         | Some ttl \<Rightarrow> (store_for r h ttl, True))
      else (store_for r h (tr_ttl r), False))"

definition refuse :: "ResponseDecision \<Rightarrow> ResponseDecision" where
  "refuse dec = dec\<lparr>rd_Cacheable := False, rd_TTL := 0, rd_Grace := 0, rd_MaxStale := 0\<rparr>"

definition share_check :: "Pipeline \<Rightarrow> selKey \<Rightarrow> matchContext \<Rightarrow> http_header \<Rightarrow> bool \<Rightarrow> ResponseDecision \<Rightarrow> ResponseDecision" where
  "share_check p selKey c h perResponseSignal dec =
     (if rd_Cacheable dec \<and> h \<noteq> None then
        let keyHeaders = keyHeaderNamesForTokens (resolvedKeyTokens p selKey c);
            credMatches = cacheCredentialedMatches p c
        in if credMatches \<and> perResponseSignal then dec\<lparr>rd_CredentialedStore := True\<rparr>
           else if credMatches then refuse dec
           else
             let setCookieBlocks = (hasSetCookie h \<and> \<not> stripCookiesMatches p c);
                 shareable = safelyShareable h keyHeaders
             in if varyStar h \<or> setCookieBlocks \<or> \<not> p_cacheUnsafe p \<and> \<not> shareable then refuse dec
                else if p_cacheUnsafe p \<and> \<not> shareable then dec\<lparr>rd_ForcedPrivate := True\<rparr>
                else dec
      else dec)"

definition response_context :: "Pipeline \<Rightarrow> Request \<Rightarrow> http_header \<Rightarrow> matchContext" where
  "response_context p req h = \<lparr>mc_req = req, mc_upstream = resolveUpstream p req, mc_respHeader = h\<rparr>"

definition EvalResponse :: "Pipeline \<Rightarrow> selKey \<Rightarrow> Request \<Rightarrow> int \<Rightarrow> http_header \<Rightarrow> ResponseDecision" where
  "EvalResponse p selKey req status h =
     (let c = response_context p req h;
          (dec, perResponseSignal) = ttl_loop c status h (p_ttlRules p);
          dec = share_check p selKey c h perResponseSignal dec
      in case find (\<lambda>r. selector_matches c (st_sel r) status) (p_storageRules p) of
           Some r \<Rightarrow> dec\<lparr>rd_StoreTier := st_tier r\<rparr>
         | None \<Rightarrow> dec)"

subsection \<open>What may be stored\<close>

lemma ttl_loop_cacheable:
  assumes "rd_Cacheable (fst (ttl_loop c status h rs))"
  shows "\<exists>r \<in> set rs. selector_matches c (tr_sel r) status \<and> (isUncacheableError status \<longrightarrow> names_status (tr_sel r)) \<and>
    fst (ttl_loop c status h rs) = store_for r h (rd_TTL (fst (ttl_loop c status h rs))) \<and>
    (snd (ttl_loop c status h rs) \<longrightarrow> headerTTL h (tr_fromHeader r) = Some (rd_TTL (fst (ttl_loop c status h rs))))"
  using assms
proof (induction rs)
  case (Cons r rs)
  then show ?case by (auto simp: no_decision_def store_for_def split: if_split_asm option.splits)
qed (simp add: no_decision_def)

lemma ttl_loop_flags:
  "\<not> rd_ForcedPrivate (fst (ttl_loop c status h rs)) \<and> \<not> rd_CredentialedStore (fst (ttl_loop c status h rs))"
  by (induction rs) (auto simp: no_decision_def store_for_def split: option.splits)

definition shareable_for :: "Pipeline \<Rightarrow> selKey \<Rightarrow> Request \<Rightarrow> http_header \<Rightarrow> bool" where
  "shareable_for p selKey req h = safelyShareable h (keyHeaderNamesForTokens (resolvedKeyTokens p selKey (response_context p req h)))"

lemma EvalResponse_fields:
  fixes p selKey req status h
  defines "c \<equiv> response_context p req h"
  defines "d \<equiv> share_check p selKey c h (snd (ttl_loop c status h (p_ttlRules p))) (fst (ttl_loop c status h (p_ttlRules p)))"
  shows "rd_Cacheable (EvalResponse p selKey req status h) = rd_Cacheable d"
    "rd_CredentialedStore (EvalResponse p selKey req status h) = rd_CredentialedStore d"
    "rd_ForcedPrivate (EvalResponse p selKey req status h) = rd_ForcedPrivate d"
    "rd_TTL (EvalResponse p selKey req status h) = rd_TTL d"
  by (auto simp: EvalResponse_def Let_def c_def d_def split: prod.splits option.splits)

lemma store_conditions:
  fixes p selKey req status h
  defines "c \<equiv> response_context p req h" and "dec \<equiv> EvalResponse p selKey req status h"
  assumes "rd_Cacheable dec" and "h \<noteq> None" and "\<not> rd_CredentialedStore dec"
  shows "\<not> cacheCredentialedMatches p c \<and> \<not> varyStar h \<and> (hasSetCookie h \<longrightarrow> stripCookiesMatches p c) \<and>
    (shareable_for p selKey req h \<or> p_cacheUnsafe p \<and> rd_ForcedPrivate dec)"
  using assms(3-) ttl_loop_flags [of c status h "p_ttlRules p"]
  unfolding dec_def EvalResponse_fields c_def [symmetric] shareable_for_def
  by (auto simp: share_check_def refuse_def Let_def split: if_split_asm)

lemma credentialed_conditions:
  fixes p selKey req status h
  defines "c \<equiv> response_context p req h" and "dec \<equiv> EvalResponse p selKey req status h"
  assumes "rd_CredentialedStore dec"
  shows "cacheCredentialedMatches p c \<and> snd (ttl_loop c status h (p_ttlRules p)) \<and> rd_Cacheable (fst (ttl_loop c status h (p_ttlRules p)))"
  using assms(3-) ttl_loop_flags [of c status h "p_ttlRules p"]
  unfolding dec_def EvalResponse_fields c_def [symmetric]
  by (auto simp: share_check_def refuse_def Let_def split: if_split_asm)

lemma store_rule:
  fixes p selKey req status h
  defines "c \<equiv> response_context p req h" and "dec \<equiv> EvalResponse p selKey req status h"
  assumes "rd_Cacheable dec"
  shows "rd_Cacheable (fst (ttl_loop c status h (p_ttlRules p))) \<and> rd_TTL dec = rd_TTL (fst (ttl_loop c status h (p_ttlRules p)))"
  using assms(3-) unfolding dec_def EvalResponse_fields c_def [symmetric]
  by (auto simp: share_check_def refuse_def Let_def split: if_split_asm)

text \<open>C2: A response that is to be stored was selected by a \<open>cache_ttl\<close> rule, by one that lists its status if it
  is an error other than 404 and 410. Either it lies in a \<open>cache_credentialed\<close> scope and the origin stated
  its lifetime in a header, or it does not vary on everything, sets no cookie that is not stripped, and
  is shareable; only under \<open>cache_unsafe\<close> an unshareable one is stored, and then it is marked private.\<close>

theorem store_safe:
  assumes "rd_Cacheable (EvalResponse p selKey req status h)" and "h \<noteq> None"
  shows "(\<exists>r \<in> set (p_ttlRules p). selector_matches (response_context p req h) (tr_sel r) status \<and>
        (isUncacheableError status \<longrightarrow> names_status (tr_sel r)) \<and>
        (rd_CredentialedStore (EvalResponse p selKey req status h) \<longrightarrow>
           cacheCredentialedMatches p (response_context p req h) \<and>
           headerTTL h (tr_fromHeader r) = Some (rd_TTL (EvalResponse p selKey req status h)))) \<and>
    (rd_CredentialedStore (EvalResponse p selKey req status h) \<or>
      \<not> varyStar h \<and> (hasSetCookie h \<longrightarrow> stripCookiesMatches p (response_context p req h)) \<and>
      (shareable_for p selKey req h \<or> p_cacheUnsafe p \<and> rd_ForcedPrivate (EvalResponse p selKey req status h)))"
  using store_conditions [OF assms] credentialed_conditions [of p selKey req status h] store_rule [OF assms(1)]
    ttl_loop_cacheable [of "response_context p req h" status h "p_ttlRules p"]
  by (metis (no_types, lifting))

lemma keyHeader_token: "x \<in> set (keyHeaderNamesForTokens toks) \<Longrightarrow> \<exists>a. tokHeader a \<in> set toks \<and> ToLower a = x"
proof (induction toks)
  case (Cons t toks)
  then show ?case by (cases t) (auto simp: keyHeaderNamesForTokens_def map_filter_simps split: if_split_asm)
qed (simp add: keyHeaderNamesForTokens_def map_filter_simps)


subsection \<open>A site\<close>

definition varying :: http_header where
  "varying = Some [(''Vary'', [''authorization'']), (''Cache-Control'', [''max-age=60''])]"

lemma sample_stored:
  "rd_Cacheable (EvalResponse sample_site (Some user_recipe) (user_request [''sid=7'']) 200 varying)"
  "\<not> rd_CredentialedStore (EvalResponse sample_site (Some user_recipe) (user_request [''sid=7'']) 200 varying)"
  by code_simp+

theorem store_safe_witness:
  "rd_Cacheable (EvalResponse sample_site (Some user_recipe) (user_request [''sid=7'']) 200 varying) \<and>
   shareable_for sample_site (Some user_recipe) (user_request [''sid=7'']) varying"
proof -
  have "varying \<noteq> None" "\<not> p_cacheUnsafe sample_site" by code_simp+
  with store_safe [OF sample_stored(1)] sample_stored show ?thesis by blast
qed


end
