(* ===== verification/SecGate.thy ===== *)
theory SecGate
  imports SiteRules
begin

text \<open>
  The security gate, \<open>internal/pipeline/secgate.go\<close> with the rule choice and bucket keys of \<open>ratelimit.go\<close>:
  allow, then deny, then rate limits, before the cache key and the origin. A deny rule on header values
  cannot be evaded by sending more header lines, one on a cookie value can.
\<close>

subsection \<open>Addresses as text\<close>

text \<open>\<open>netip.Addr.String\<close>: dotted decimal, or hexadecimal groups with the first longest run of at least two
  zero groups written as two colons.\<close>

definition v6_groups :: "string \<Rightarrow> nat list" where
  "v6_groups b = map (\<lambda>i. 256 * byte (b ! (2 * i)) + byte (b ! (2 * i + 1))) [0..<8]"

definition hex_char :: "nat \<Rightarrow> char" where
  "hex_char n = (if n < 10 then char_of (48 + n) else char_of (87 + n))"

definition group_hex :: "nat \<Rightarrow> string" where
  "group_hex g =
     (if g \<ge> 4096 then [hex_char (g div 4096)] else []) @ (if g \<ge> 256 then [hex_char (g div 256 mod 16)] else []) @
     (if g \<ge> 16 then [hex_char (g div 16 mod 16)] else []) @ [hex_char (g mod 16)]"

definition zero_run :: "nat list \<Rightarrow> nat \<Rightarrow> nat" where
  "zero_run gs i = length (takeWhile (\<lambda>g. g = 0) (drop i gs))"

definition longest_run :: "nat list \<Rightarrow> nat \<times> nat" where
  "longest_run gs =
     foldl (\<lambda>(start, len) i. if zero_run gs i \<ge> 2 \<and> zero_run gs i > len then (i, zero_run gs i) else (start, len)) (0, 0) [0..<8]"

definition v6_string :: "nat list \<Rightarrow> string" where
  "v6_string gs =
     (case longest_run gs of (start, len) \<Rightarrow>
        if len = 0 then Join '':'' (map group_hex gs)
        else Join '':'' (map group_hex (take start gs)) @ ''::'' @ Join '':'' (map group_hex (drop (start + len) gs)))"

definition Addr_String :: "Addr \<Rightarrow> string" where
  "Addr_String a =
     (case a of
        Addr4 b \<Rightarrow> print4 b
      | Addr6 b z \<Rightarrow>
          (if take 12 b = mapped_prefix then ''::ffff:'' @ print4 (drop 12 b) else v6_string (v6_groups b)) @
          (if z = [] then [] else CHR ''%'' # z))"

subsection \<open>The gate\<close>

definition terms_match :: "matchContext \<Rightarrow> secTerm list \<Rightarrow> bool" where
  "terms_match c terms = list_all (\<lambda>(m, negate). ctx_matches c m \<noteq> negate) terms"

definition secRule_matches :: "matchContext \<Rightarrow> secRule \<Rightarrow> bool" where
  "secRule_matches c r = terms_match c (sr_terms r)"

record RateLimitHit =
  rh_Key :: string
  rh_RatePerSec :: rat
  rh_Burst :: int
  rh_Monitor :: bool
  rh_Rule :: string

record SecurityDecision =
  sd_Block :: bool
  sd_Monitor :: bool
  sd_Allow :: bool
  sd_Status :: int
  sd_Rule :: string
  sd_RateLimit :: "RateLimitHit option"

definition securityBlockStatus :: int where "securityBlockStatus = 403"

definition pass_decision :: SecurityDecision where
  "pass_decision = \<lparr>sd_Block = False, sd_Monitor = False, sd_Allow = False, sd_Status = 0, sd_Rule = [], sd_RateLimit = None\<rparr>"

definition hasSecurityGate :: "Pipeline \<Rightarrow> bool" where
  "hasSecurityGate p \<longleftrightarrow> p_allowRules p \<noteq> [] \<or> p_denyRules p \<noteq> [] \<or> p_rateLimitRules p \<noteq> []"

definition bucketKey :: "rateLimitRule \<Rightarrow> Request \<Rightarrow> string" where
  "bucketKey r req =
     (let dim =
        (case rr_keyKind r of
           rlKeyIP \<Rightarrow> (case hr_RealClientIP req of Some a \<Rightarrow> Addr_String a | None \<Rightarrow> ''noip'')
         | rlKeyHeader \<Rightarrow> (let d = headerCombined req (rr_keyHeader r) in if d = [] then ''noheader'' else d)
         | rlKeyGlobal \<Rightarrow> ''global'')
      in FormatInt (rr_id r) @ ''|'' @ dim)"

definition evalRateLimit :: "Pipeline \<Rightarrow> matchContext \<Rightarrow> RateLimitHit option" where
  "evalRateLimit p c =
     map_option (\<lambda>r. \<lparr>rh_Key = bucketKey r (mc_req c), rh_RatePerSec = rr_ratePerSec r, rh_Burst = rr_burst r,
         rh_Monitor = rr_monitor r \<or> p_securityMonitor p, rh_Rule = rr_name r\<rparr>)
       (find (\<lambda>r. ctx_scope c (rr_scope r)) (p_rateLimitRules p))"

definition EvalSecurity :: "Pipeline \<Rightarrow> Request \<Rightarrow> SecurityDecision" where
  "EvalSecurity p req =
     (if \<not> hasSecurityGate p then pass_decision
      else
        let c = \<lparr>mc_req = req, mc_upstream = [], mc_respHeader = None\<rparr> in
        case find (secRule_matches c) (p_allowRules p) of
          Some r \<Rightarrow> pass_decision\<lparr>sd_Allow := True, sd_Rule := sr_name r\<rparr>
        | None \<Rightarrow>
            (case find (secRule_matches c) (p_denyRules p) of
               Some r \<Rightarrow>
                 if p_securityMonitor p \<or> sr_monitor r
                 then pass_decision\<lparr>sd_Monitor := True, sd_Status := securityBlockStatus, sd_Rule := sr_name r\<rparr>
                 else pass_decision\<lparr>sd_Block := True, sd_Status := securityBlockStatus, sd_Rule := sr_name r\<rparr>
             | None \<Rightarrow> pass_decision\<lparr>sd_RateLimit := evalRateLimit p c\<rparr>))"

text \<open>The conjunction is the evaluation of the terms without a memo.\<close>

lemma terms_match_eq: "fst (respondTermsMatch c terms []) = terms_match c terms"
proof (induction terms)
  case (Cons t terms)
  obtain m n where t: "t = (m, n)" by fastforce
  obtain got memo where e: "matches c m [] = (got, memo)" by fastforce
  have "memo = []" using no_memo(2) [of c m] e by simp
  then show ?case using Cons e t by (auto simp: terms_match_def ctx_matches_def)
qed (simp add: terms_match_def)

subsection \<open>Buckets\<close>

lemma FormatInt_no_bar: "CHR ''|'' \<notin> set (FormatInt n)"
  using dec_digits_digits [of "nat n"] dec_digits_digits [of "nat (- n)"] by (auto simp: FormatInt_def list_all_iff is_digit_def)

text \<open>C16: Rate limit rules never share a bucket, and a rule that is keyed by address puts two requests in one
  bucket only if their addresses print alike.\<close>

theorem rate_buckets_disjoint:
  assumes "bucketKey r1 q1 = bucketKey r2 q2"
  shows "rr_id r1 = rr_id r2 \<and>
    (\<forall>a1 a2. rr_keyKind r1 = rlKeyIP \<and> rr_keyKind r2 = rlKeyIP \<and> hr_RealClientIP q1 = Some a1 \<and> hr_RealClientIP q2 = Some a2 \<longrightarrow>
       Addr_String a1 = Addr_String a2)"
proof -
  obtain d1 d2 where d: "bucketKey r1 q1 = FormatInt (rr_id r1) @ CHR ''|'' # d1" "bucketKey r2 q2 = FormatInt (rr_id r2) @ CHR ''|'' # d2"
    by (auto simp: bucketKey_def Let_def)
  then have eq: "FormatInt (rr_id r1) @ CHR ''|'' # d1 = FormatInt (rr_id r2) @ CHR ''|'' # d2" using assms by simp
  have "FormatInt (rr_id r1) = FormatInt (rr_id r2)"
    using arg_cong [OF eq, of "\<lambda>s. hd (Split (CHR ''|'') s)"] by (simp add: Split_append FormatInt_no_bar)
  moreover from this eq have "d1 = d2" by simp
  ultimately have "FormatInt (rr_id r1) = FormatInt (rr_id r2)" "d1 = d2" by simp_all
  then show ?thesis using FormatInt_inj d by (auto simp: bucketKey_def Let_def)
qed

definition bucket_rule :: "int \<Rightarrow> rateLimitRule" where
  "bucket_rule i = \<lparr>rr_id = i, rr_scope = None, rr_ratePerSec = 1, rr_burst = 0, rr_keyKind = rlKeyIP, rr_keyHeader = [], rr_monitor = False, rr_name = []\<rparr>"

definition from_address :: "Addr \<Rightarrow> Request" where
  "from_address a = sample_request\<lparr>hr_RealClientIP := Some a\<rparr>"

theorem rate_buckets_disjoint_witness:
  "bucketKey (bucket_rule 3) (from_address (Addr4 ''abcd'')) = ''3|97.98.99.100'' \<and>
   rr_id (bucket_rule 3) = rr_id ((bucket_rule 3)\<lparr>rr_burst := 5\<rparr>)"
proof -
  have "bucketKey (bucket_rule 3) (from_address (Addr4 ''abcd'')) = ''3|97.98.99.100''" by code_simp
  moreover have "bucketKey (bucket_rule 3) (from_address (Addr4 ''abcd'')) = bucketKey ((bucket_rule 3)\<lparr>rr_burst := 5\<rparr>) (from_address (Addr4 ''abcd''))"
    by (simp add: bucketKey_def bucket_rule_def)
  ultimately show ?thesis using rate_buckets_disjoint by blast
qed

subsection \<open>Evasion\<close>

text \<open>Matchers that only look for a header line: presence, listed values, a regular expression or a JSON field,
  and conjunctions of them.\<close>

fun header_leaf :: "leafKind \<Rightarrow> bool" where
  "header_leaf (kindHeader name values) = True"
| "header_leaf (kindHeaderPresent name) = True"
| "header_leaf (kindHeaderRegex name re) = True"
| "header_leaf (kindHeaderJSON name path values) = True"
| "header_leaf _ = False"

function header_matcher :: "matcher \<Rightarrow> bool" and header_terms :: "secTerm list \<Rightarrow> bool" where
  "header_matcher (Matcher name idx (Leaf l)) = header_leaf l"
| "header_matcher (Matcher name idx (kindAll terms)) = header_terms terms"
| "header_matcher (Matcher name idx (kindClassify cl val negate)) = False"
| "header_terms [] = True"
| "header_terms ((m, negate) # terms) = (\<not> negate \<and> header_matcher m \<and> header_terms terms)"
  by pat_completeness auto
termination by (relation "measure (case_sum size (size_list (size_prod size (\<lambda>_. 0))))") auto

text \<open>Every field of the first request is a field of the second, with at least the same lines.\<close>

definition more_headers :: "Request \<Rightarrow> Request \<Rightarrow> bool" where
  "more_headers r r' \<longleftrightarrow>
     (\<forall>h. hr_Header r = Some h \<longrightarrow>
        (\<exists>h'. hr_Header r' = Some h' \<and> (\<forall>k vs. map_of h k = Some vs \<longrightarrow> (\<exists>vs'. map_of h' k = Some vs' \<and> set vs \<subseteq> set vs'))))"

lemma more_headerPresent: "more_headers r r' \<Longrightarrow> headerPresent r name \<Longrightarrow> headerPresent r' name"
  by (fastforce simp: more_headers_def headerPresent_def split: option.splits)

lemma more_header_lines: "more_headers r r' \<Longrightarrow> v \<in> set (header_lines (hr_Header r) k) \<Longrightarrow> v \<in> set (header_lines (hr_Header r') k)"
proof -
  assume more: "more_headers r r'" and v: "v \<in> set (header_lines (hr_Header r) k)"
  obtain h vs where "hr_Header r = Some h" "map_of h k = Some vs" "v \<in> set vs"
    using v by (cases "hr_Header r"; cases "map_of (the (hr_Header r)) k") (auto simp: header_lines_def)
  moreover from this more obtain h' vs' where "hr_Header r' = Some h'" "map_of h' k = Some vs'" "set vs \<subseteq> set vs'"
    unfolding more_headers_def by blast
  ultimately show ?thesis by (auto simp: header_lines_def)
qed

lemma more_headerValues: "more_headers r r' \<Longrightarrow> v \<in> set (headerValues r name) \<Longrightarrow> v \<in> set (headerValues r' name)"
  using more_header_lines [of r r' v "CanonicalHeaderKey name"]
  by (auto simp: headerValues_def more_headers_def split: if_split_asm)

lemma header_leaf_more: "header_leaf l \<Longrightarrow> more_headers (mc_req c) (mc_req c') \<Longrightarrow> leaf_match c l \<Longrightarrow> leaf_match c' l"
  using more_headerPresent [of "mc_req c" "mc_req c'"] more_headerValues [of "mc_req c" "mc_req c'"] more_header_lines [of "mc_req c" "mc_req c'"]
  by (cases l) (auto simp: leaf_match_def Let_def list_ex_iff Header_Values_def split: if_split_asm)

lemma header_matcher_more:
  "header_matcher m \<Longrightarrow> more_headers (mc_req c) (mc_req c') \<Longrightarrow> ctx_matches c m \<Longrightarrow> ctx_matches c' m"
  "header_terms terms \<Longrightarrow> more_headers (mc_req c) (mc_req c') \<Longrightarrow> terms_match c terms \<Longrightarrow> terms_match c' terms"
proof (induction m and terms rule: header_matcher_header_terms.induct)
  case (1 name idx l)
  then show ?case using header_leaf_more by (simp add: ctx_matches_def)
next
  case (2 name idx terms)
  then show ?case by (simp add: ctx_matches_def terms_match_eq)
qed (auto simp: terms_match_def)

text \<open>C15: A request is blocked by deny rules that look for header lines, without negation. Whatever further
  header lines it carries, and however the rest of it changes, it stays blocked, unless an allow rule
  matches the new request or a deny rule that only monitors matches it: a benign line cannot hide a
  blocked one, and the request never falls through to the rate limits and the site.\<close>

theorem header_deny_sticks:
  assumes "sd_Block (EvalSecurity p r)" and "more_headers r r'"
    and "\<forall>rule \<in> set (p_denyRules p). secRule_matches \<lparr>mc_req = r, mc_upstream = [], mc_respHeader = None\<rparr> rule \<longrightarrow> header_terms (sr_terms rule)"
  shows "sd_Block (EvalSecurity p r') \<and> sd_Status (EvalSecurity p r') = 403 \<or>
    sd_Allow (EvalSecurity p r') \<and> (\<exists>rule \<in> set (p_allowRules p). secRule_matches \<lparr>mc_req = r', mc_upstream = [], mc_respHeader = None\<rparr> rule) \<or>
    sd_Monitor (EvalSecurity p r') \<and> (\<exists>rule \<in> set (p_denyRules p). sr_monitor rule \<and> secRule_matches \<lparr>mc_req = r', mc_upstream = [], mc_respHeader = None\<rparr> rule)"
proof -
  let ?c = "\<lparr>mc_req = r, mc_upstream = [], mc_respHeader = None\<rparr>" and ?c' = "\<lparr>mc_req = r', mc_upstream = [], mc_respHeader = None\<rparr>"
  have gate: "hasSecurityGate p" using assms(1) by (auto simp: EvalSecurity_def pass_decision_def split: if_split_asm)
  obtain rule where rule: "rule \<in> set (p_denyRules p)" "secRule_matches ?c rule" and mon: "\<not> p_securityMonitor p"
    using assms(1) gate by (auto simp: EvalSecurity_def pass_decision_def Let_def split: option.splits if_split_asm dest: find_SomeD)
  have "secRule_matches ?c' rule" using rule assms(2,3) header_matcher_more(2) [of "sr_terms rule" ?c ?c'] by (simp add: secRule_matches_def)
  then obtain rule' where deny: "find (secRule_matches ?c') (p_denyRules p) = Some rule'" using rule(1) by (cases "find (secRule_matches ?c') (p_denyRules p)") (auto simp: find_None_iff)
  have allow: "\<exists>rule \<in> set (p_allowRules p). secRule_matches ?c' rule" if "find (secRule_matches ?c') (p_allowRules p) = Some a" for a
    using that by (auto dest: find_SomeD)
  have "rule' \<in> set (p_denyRules p)" "secRule_matches ?c' rule'" using deny by (auto dest: find_SomeD)
  then show ?thesis using gate mon deny allow
    by (cases "find (secRule_matches ?c') (p_allowRules p)") (auto simp: EvalSecurity_def pass_decision_def Let_def securityBlockStatus_def)
qed

definition deny_site :: "leafKind \<Rightarrow> Pipeline" where
  "deny_site l = sample_site\<lparr>p_denyRules := [\<lparr>sr_action = secDeny, sr_terms = [(Matcher ''m'' 0 (Leaf l), False)], sr_monitor = False, sr_name = ''m''\<rparr>]\<rparr>"

definition with_header :: "string \<Rightarrow> string list \<Rightarrow> Request" where
  "with_header name lines = sample_request\<lparr>hr_Header := Some [(name, lines)]\<rparr>"

theorem header_deny_sticks_witness:
  "sd_Block (EvalSecurity (deny_site (kindHeader ''x-role'' [''admin''])) (with_header ''X-Role'' [''user'', ''admin'']))"
proof -
  have "sd_Block (EvalSecurity (deny_site (kindHeader ''x-role'' [''admin''])) (with_header ''X-Role'' [''admin'']))" by code_simp
  moreover have "more_headers (with_header ''X-Role'' [''admin'']) (with_header ''X-Role'' [''user'', ''admin''])"
    by (simp add: more_headers_def with_header_def)
  ultimately show ?thesis
    using header_deny_sticks [of "deny_site (kindHeader ''x-role'' [''admin''])" "with_header ''X-Role'' [''admin'']" "with_header ''X-Role'' [''user'', ''admin'']"]
    by (simp add: deny_site_def sample_site_def)
qed

text \<open>A deny rule on a cookie value is evaded by a duplicate. The matcher reads the first cookie of the
  name, so a request that carries the denied cookie after a harmless one of the same name passes the gate.\<close>

lemma cookie_deny_evaded:
  "sd_Block (EvalSecurity (deny_site (kindCookie ''role'' False [''admin''])) (with_header ''Cookie'' [''role=admin''])) \<and>
   \<not> sd_Block (EvalSecurity (deny_site (kindCookie ''role'' False [''admin''])) (with_header ''Cookie'' [''role=x; role=admin''])) \<and>
   \<lparr>ck_name = ''role'', ck_value = ''admin''\<rparr> \<in> set (lenientCookies (hr_Header (with_header ''Cookie'' [''role=x; role=admin''])))"
  by code_simp

end
