(* ===== verification/ProxyProto.thy ===== *)
theory ProxyProto
  imports Netaddr CacheKey
begin

text \<open>
  The PROXY protocol reader, \<open>internal/proxyproto/proxyproto.go\<close>, versions 1 and 2. The input is what the
  connection delivers until it is closed; a reader returns a header or an error, and what is left of the
  input. Reading an encoded tuple gives the tuple back and leaves the application bytes, and the two
  versions agree.
\<close>

type_synonym addr_port = "Addr \<times> nat"

record pp_Header =
  ph_Local :: bool
  ph_Source :: "addr_port option"
  ph_Dest :: "addr_port option"

datatype pp_error =
    ShortHeader | NotProxy | ReadError | TooLong | NoCRLF | Malformed | FieldCount | BadSource | BadDest | UnknownProtocol
  | BadVersion | BadCommand | AddressTooShort | UnknownFamily

definition v2Signature :: string where
  "v2Signature = [CHR 0x0D, CHR 0x0A, CHR 0x0D, CHR 0x0A, CHR 0x00, CHR 0x0D, CHR 0x0A, CHR 0x51, CHR 0x55, CHR 0x49, CHR 0x54, CHR 0x0A]"

definition v1Prefix :: string where "v1Prefix = ''PROXY''"

definition maxV1Line :: nat where "maxV1Line = 108"

abbreviation LF :: char where "LF \<equiv> CHR 0x0A"

abbreviation CRLF :: string where "CRLF \<equiv> [CHR 0x0D, CHR 0x0A]"

definition local_header :: pp_Header where
  "local_header = \<lparr>ph_Local = True, ph_Source = None, ph_Dest = None\<rparr>"

subsection \<open>Version 1\<close>

text \<open>The loop over the bytes of the line: \<open>n\<close> more bytes may be read.\<close>

fun read_line :: "nat \<Rightarrow> string \<Rightarrow> string \<Rightarrow> (pp_error + string) \<times> string" where
  "read_line 0 acc br = (Inl TooLong, br)"
| "read_line (Suc n) acc [] = (Inl ReadError, [])"
| "read_line (Suc n) acc (b # br) = (if b = LF then (Inr (acc @ [b]), br) else read_line n (acc @ [b]) br)"

definition readV1Line :: "string \<Rightarrow> (pp_error + string) \<times> string" where
  "readV1Line br = read_line maxV1Line [] br"

definition parseV1AddrPort :: "string \<Rightarrow> string \<Rightarrow> bool \<Rightarrow> addr_port option" where
  "parseV1AddrPort ipStr portStr wantV4 =
     (case ParseAddr ipStr of
        None \<Rightarrow> None
      | Some a \<Rightarrow>
          if wantV4 \<and> \<not> Is4 a then None
          else if \<not> wantV4 \<and> Is4 a then None
          else if portStr = [] \<or> \<not> is_digit (hd portStr) then None
          else if \<not> list_all is_digit portStr \<or> dec_val portStr > 65535 then None
          else Some (Unmap a, dec_val portStr))"

definition readV1 :: "string \<Rightarrow> (pp_error + pp_Header) \<times> string" where
  "readV1 br =
     (case readV1Line br of
        (Inl e, br) \<Rightarrow> (Inl e, br)
      | (Inr line, br) \<Rightarrow>
          if \<not> HasSuffix line CRLF then (Inl NoCRLF, br)
          else
            let fields = Split (CHR '' '') (TrimSuffix line CRLF) in
            if length fields < 2 \<or> fields ! 0 \<noteq> ''PROXY'' then (Inl Malformed, br)
            else if fields ! 1 = ''UNKNOWN'' then (Inr local_header, br)
            else if fields ! 1 = ''TCP4'' \<or> fields ! 1 = ''TCP6'' then
              (if length fields \<noteq> 6 then (Inl FieldCount, br)
               else
                 let wantV4 = (fields ! 1 = ''TCP4'') in
                 case parseV1AddrPort (fields ! 2) (fields ! 4) wantV4 of
                   None \<Rightarrow> (Inl BadSource, br)
                 | Some src \<Rightarrow>
                     (case parseV1AddrPort (fields ! 3) (fields ! 5) wantV4 of
                        None \<Rightarrow> (Inl BadDest, br)
                      | Some dst \<Rightarrow> (Inr \<lparr>ph_Local = False, ph_Source = Some src, ph_Dest = Some dst\<rparr>, br)))
            else (Inl UnknownProtocol, br))"

subsection \<open>Version 2\<close>

definition be16 :: "string \<Rightarrow> nat \<Rightarrow> nat" where
  "be16 s i = 256 * byte (s ! i) + byte (s ! (i + 1))"

definition readV2 :: "string \<Rightarrow> (pp_error + pp_Header) \<times> string" where
  "readV2 br =
     (if length br < 16 then (Inl ReadError, [])
      else
        let hdr = take 16 br; br = drop 16 br; verCmd = byte (hdr ! 12) in
        if verCmd div 16 \<noteq> 2 then (Inl BadVersion, br)
        else
          let cmd = verCmd mod 16 in
          if cmd \<noteq> 0 \<and> cmd \<noteq> 1 then (Inl BadCommand, br)
          else
            let addrLen = be16 hdr 14 in
            if length br < addrLen then (Inl ReadError, [])
            else
              let addr = take addrLen br; br = drop addrLen br in
              if cmd = 0 then (Inr local_header, br)
              else
                let fam = byte (hdr ! 13) div 16 in
                if fam = 1 then
                  (if length addr < 12 then (Inl AddressTooShort, br)
                   else (Inr \<lparr>ph_Local = False, ph_Source = Some (Addr4 (take 4 addr), be16 addr 8),
                               ph_Dest = Some (Addr4 (take 4 (drop 4 addr)), be16 addr 10)\<rparr>, br))
                else if fam = 2 then
                  (if length addr < 36 then (Inl AddressTooShort, br)
                   else (Inr \<lparr>ph_Local = False, ph_Source = Some (Unmap (Addr6 (take 16 addr) []), be16 addr 32),
                               ph_Dest = Some (Unmap (Addr6 (take 16 (drop 16 addr)) []), be16 addr 34)\<rparr>, br))
                else if fam = 0 \<or> fam = 3 then (Inr local_header, br)
                else (Inl UnknownFamily, br))"

definition ReadHeader :: "string \<Rightarrow> (pp_error + pp_Header) \<times> string" where
  "ReadHeader br =
     (if length br \<ge> 12 \<and> take 12 br = v2Signature then readV2 br
      else if length br < 5 then (Inl ShortHeader, br)
      else if take 5 br \<noteq> v1Prefix then (Inl NotProxy, br)
      else readV1 br)"

definition SourceTCPAddr :: "pp_Header \<Rightarrow> addr_port option" where
  "SourceTCPAddr h = (if ph_Local h then None else ph_Source h)"

subsection \<open>What a load balancer sends\<close>

definition put16 :: "nat \<Rightarrow> string" where
  "put16 n = [char_of (n div 256), char_of (n mod 256)]"

text \<open>The header for an IPv4 connection, as text and in binary with extension fields.\<close>

definition sendV1 :: "string \<Rightarrow> nat \<Rightarrow> string \<Rightarrow> nat \<Rightarrow> string" where
  "sendV1 src sport dst dport =
     Join '' '' [''PROXY'', ''TCP4'', print4 src, print4 dst, dec_digits sport, dec_digits dport] @ CRLF"

definition sendV2 :: "string \<Rightarrow> nat \<Rightarrow> string \<Rightarrow> nat \<Rightarrow> string \<Rightarrow> string" where
  "sendV2 src sport dst dport tlvs =
     v2Signature @ [char_of (33 :: nat), char_of (17 :: nat)] @ put16 (12 + length tlvs) @
     src @ dst @ put16 sport @ put16 dport @ tlvs"

definition tuple4 :: "string \<Rightarrow> nat \<Rightarrow> string \<Rightarrow> nat \<Rightarrow> pp_Header" where
  "tuple4 src sport dst dport = \<lparr>ph_Local = False, ph_Source = Some (Addr4 src, sport), ph_Dest = Some (Addr4 dst, dport)\<rparr>"

subsection \<open>Reading it back\<close>

lemma put16_be16: "n < 65536 \<Longrightarrow> i + 2 \<le> length s \<Longrightarrow> take 2 (drop i s) = put16 n \<Longrightarrow> be16 s i = n"
proof -
  assume n: "n < 65536" and i: "i + 2 \<le> length s" and s: "take 2 (drop i s) = put16 n"
  have hi: "n div 256 < 256" using n by (simp add: less_mult_imp_div_less)
  have "s ! i = take 2 (drop i s) ! 0" "s ! (i + 1) = take 2 (drop i s) ! 1" using i by simp_all
  then have "s ! i = char_of (n div 256)" "s ! (i + 1) = char_of (n mod 256)"
    unfolding s put16_def by (simp_all del: char_of_mod_256)
  then show ?thesis using hi by (simp add: be16_def del: char_of_mod_256)
qed

lemma length_put16 [simp]: "length (put16 n) = 2"
  by (simp add: put16_def)

lemma length_v2Signature [simp]: "length v2Signature = 12"
  by (simp add: v2Signature_def)

lemma readV2_sent:
  assumes len: "length src = 4" "length dst = 4" and ports: "sport < 65536" "dport < 65536"
    and tlvs: "12 + length tlvs < 65536"
  shows "ReadHeader (sendV2 src sport dst dport tlvs @ rest) = (Inr (tuple4 src sport dst dport), rest)"
proof -
  define hdr where "hdr = v2Signature @ [char_of (33 :: nat), char_of (17 :: nat)] @ put16 (12 + length tlvs)"
  define addr where "addr = src @ dst @ put16 sport @ put16 dport @ tlvs"
  have sent: "sendV2 src sport dst dport tlvs @ rest = hdr @ addr @ rest"
    by (simp add: sendV2_def hdr_def addr_def)
  have lh: "length hdr = 16" by (simp add: hdr_def)
  have la: "length addr = 12 + length tlvs" using len by (simp add: addr_def)
  have h12: "hdr ! 12 = char_of (33 :: nat)" and h13: "hdr ! 13 = char_of (17 :: nat)"
    by (simp_all add: hdr_def nth_append)
  have blk: "be16 hdr 14 = 12 + length tlvs"
    by (rule put16_be16 [OF tlvs]) (simp_all add: hdr_def)
  have sp: "be16 addr 8 = sport" by (rule put16_be16 [OF ports(1)]) (simp_all add: addr_def len)
  have dp: "be16 addr 10 = dport" by (rule put16_be16 [OF ports(2)]) (simp_all add: addr_def len)
  have src: "take 4 addr = src" and dst: "take 4 (drop 4 addr) = dst" by (simp_all add: addr_def len)
  have "take 12 (hdr @ addr @ rest) = v2Signature" by (simp add: hdr_def)
  then have "ReadHeader (hdr @ addr @ rest) = readV2 (hdr @ addr @ rest)"
    by (simp add: ReadHeader_def lh)
  also have "\<dots> = (Inr (tuple4 src sport dst dport), rest)"
    unfolding readV2_def by (simp add: Let_def lh la h12 h13 blk sp dp src dst tuple4_def)
  finally show ?thesis unfolding sent .
qed

lemma dec_digits_no: "\<not> is_digit c \<Longrightarrow> c \<notin> set (dec_digits n)"
  using dec_digits_digits [of n] by (auto simp: list_all_iff)

lemma dec_digits_length: "n < 10 ^ k \<Longrightarrow> 0 < k \<Longrightarrow> length (dec_digits n) \<le> k"
proof (induction k arbitrary: n)
  case (Suc k)
  show ?case
  proof (cases "n < 10")
    case False
    then have "0 < k" using Suc.prems by (cases k) auto
    moreover have "n div 10 < 10 ^ k" using Suc.prems by (simp add: less_mult_imp_div_less)
    ultimately show ?thesis using Suc.IH False by (simp add: dec_digits.simps [of n])
  qed (simp add: dec_digits.simps [of n])
qed simp

lemma dec_digits_leading: "length (dec_digits n) > 1 \<Longrightarrow> hd (dec_digits n) \<noteq> CHR ''0''"
proof (induction n rule: dec_digits.induct)
  case (1 n)
  then have n: "\<not> n < 10" by (auto simp: dec_digits.simps [of n] split: if_splits)
  show ?case
  proof (cases "n div 10 < 10")
    case True
    have "digit_val (digit_char (n div 10)) = n div 10" using True by simp
    then have "digit_char (n div 10) \<noteq> CHR ''0''" using n by (auto simp: digit_val_def)
    then show ?thesis using True n by (simp add: dec_digits.simps [of n] dec_digits.simps [of "n div 10"])
  next
    case False
    then have "length (dec_digits (n div 10)) > 1" by (auto simp: dec_digits.simps [of "n div 10"])
    then show ?thesis using 1 n by (simp add: dec_digits.simps [of n])
  qed
qed

text \<open>A printed address reads back.\<close>

lemma Join_set: "c \<in> set (Join sep xs) \<Longrightarrow> c \<in> set sep \<or> (\<exists>x \<in> set xs. c \<in> set x)"
  by (induction sep xs rule: Join.induct) auto

lemma print4_chars: "c \<in> set (print4 b) \<Longrightarrow> is_digit c \<or> c = CHR ''.''"
  using dec_digits_no by (fastforce simp: print4_def dest: Join_set)

lemma length_Join: "length (Join [c] xs) \<le> sum_list (map length xs) + (length xs - 1)"
  by (induction "[c]" xs rule: Join.induct) auto

lemma byte_less: "byte c < 256"
  using of_char_of [of "of_char c :: nat"] by (metis mod_less_divisor of_char_of zero_less_numeral char_of_char)

lemma length_byte_digits: "length (dec_digits (byte c)) \<le> 3"
  using less_trans [OF byte_less [of c], of 1000] by (intro dec_digits_length) simp_all

lemma print4_length: "length b = 4 \<Longrightarrow> length (print4 b) \<le> 15"
proof -
  assume b: "length b = 4"
  have "sum_list (map (\<lambda>c. length (dec_digits (byte c))) b) \<le> sum_list (map (\<lambda>c. 3) b)"
    by (rule sum_list_mono) (rule length_byte_digits)
  then have "sum_list (map length (map (\<lambda>c. dec_digits (byte c)) b)) \<le> 12" using b by (simp add: o_def sum_list_triv)
  then show ?thesis using length_Join [of "CHR ''.''" "map (\<lambda>c. dec_digits (byte c)) b"] b by (simp add: print4_def)
qed

lemma find_skip: "find P xs = None \<Longrightarrow> find P (xs @ ys) = find P ys"
  by (induction xs) (auto split: if_splits)

lemma ParseAddr_print4:
  assumes b: "length b = 4"
  shows "ParseAddr (print4 b) = Some (Addr4 b)"
proof -
  let ?fs = "map (\<lambda>c. dec_digits (byte c)) b"
  have dot: "\<not> is_digit (CHR ''.'')" by (simp add: is_digit_def)
  have split: "Split (CHR ''.'') (print4 b) = ?fs"
    unfolding print4_def by (rule Split_Join) (use b dec_digits_no [OF dot] in auto)
  have le8: "byte c \<le> 255" for c using less_Suc_eq_le [of "byte c" 255] byte_less [of c] by linarith
  have "ipv4_field (dec_digits (byte c))" for c
    using dec_digits_leading [of "byte c"] dec_digits_digits le8 [of c] by (simp add: ipv4_field_def)
  then have four: "parseIPv4 (print4 b) = Some b"
    unfolding parseIPv4_def Let_def split using b by (simp add: list_all_iff o_def)
  obtain x y bs where xy: "b = x # y # bs" using b by (cases b; cases "tl b") auto
  then have p: "print4 b = dec_digits (byte x) @ CHR ''.'' # Join ''.'' (map (\<lambda>c. dec_digits (byte c)) (y # bs))"
    by (simp add: print4_def)
  have none: "find (\<lambda>c. c \<in> {CHR ''.'', CHR '':'', CHR ''%''}) (dec_digits (byte x)) = None"
    using dec_digits_no [of "CHR ''.''"] dec_digits_no [of "CHR '':''"] dec_digits_no [of "CHR ''%''"]
    by (auto simp: find_None_iff is_digit_def)
  have "find (\<lambda>c. c \<in> {CHR ''.'', CHR '':'', CHR ''%''}) (print4 b) = Some (CHR ''.'')"
    unfolding p find_skip [OF none] by simp
  then show ?thesis by (simp add: ParseAddr_def four)
qed

lemma read_line_ok:
  "LF \<notin> set s \<Longrightarrow> length s < n \<Longrightarrow> read_line n acc (s @ LF # rest) = (Inr (acc @ s @ [LF]), rest)"
proof (induction s arbitrary: n acc)
  case Nil
  then show ?case by (cases n) simp_all
next
  case (Cons c s)
  then show ?case by (cases n) auto
qed

lemma parseV1AddrPort_sent:
  "length b = 4 \<Longrightarrow> n < 65536 \<Longrightarrow> parseV1AddrPort (print4 b) (dec_digits n) True = Some (Addr4 b, n)"
  using dec_digits_digits [of n]
  by (simp add: parseV1AddrPort_def ParseAddr_print4 Is4_def Unmap_def list_all_iff)

lemma readV1_sent:
  assumes len: "length src = 4" "length dst = 4" and ports: "sport < 65536" "dport < 65536"
  shows "ReadHeader (sendV1 src sport dst dport @ rest) = (Inr (tuple4 src sport dst dport), rest)"
proof -
  let ?fs = "[''PROXY'', ''TCP4'', print4 src, print4 dst, dec_digits sport, dec_digits dport]"
  let ?CR = "CHR 0x0D"
  define body where "body = Join '' '' ?fs"
  have printed: "c \<notin> set (print4 b)" "c \<notin> set (dec_digits n)" if "\<not> is_digit c" "c \<noteq> CHR ''.''" for b c n
    using that print4_chars [of c b] dec_digits_no [of c n] by auto
  have lf: "LF \<notin> set (body @ [?CR])"
    unfolding body_def using printed [of LF] by (auto simp: is_digit_def)
  have sp: "Split (CHR '' '') body = ?fs"
    unfolding body_def by (rule Split_Join) (use printed [of "CHR '' ''"] in \<open>auto simp: is_digit_def\<close>)
  have "length (dec_digits sport) \<le> 5" "length (dec_digits dport) \<le> 5"
    using ports by (auto intro!: dec_digits_length)
  then have bl: "length (body @ [?CR]) < maxV1Line"
    unfolding body_def using print4_length [OF len(1)] print4_length [OF len(2)] by (simp add: maxV1Line_def)
  have sent: "sendV1 src sport dst dport @ rest = (body @ [?CR]) @ LF # rest"
    by (simp add: sendV1_def body_def)
  have line: "readV1Line ((body @ [?CR]) @ LF # rest) = (Inr (body @ CRLF), rest)"
    unfolding readV1Line_def read_line_ok [OF lf bl] by simp
  have trim: "HasSuffix (body @ CRLF) CRLF" "TrimSuffix (body @ CRLF) CRLF = body"
    by (simp_all add: HasSuffix_def TrimSuffix_def)
  have start: "take 5 (body @ x) = v1Prefix" "5 \<le> length (body @ x)" for x by (simp_all add: body_def v1Prefix_def)
  have nosig: "take 12 (body @ x) \<noteq> v2Signature" for x
  proof
    assume "take 12 (body @ x) = v2Signature"
    then have "hd (take 12 (body @ x)) = CHR 0x0D" by (simp add: v2Signature_def)
    moreover have "hd (take 12 (body @ x)) = CHR ''P''" by (simp add: body_def)
    ultimately show False by simp
  qed
  have "ReadHeader ((body @ [?CR]) @ LF # rest) = readV1 ((body @ [?CR]) @ LF # rest)"
    using start [of "?CR # LF # rest"] nosig [of "?CR # LF # rest"] by (simp add: ReadHeader_def)
  also have "\<dots> = (Inr (tuple4 src sport dst dport), rest)"
    unfolding readV1_def line using parseV1AddrPort_sent [OF len(1) ports(1)] parseV1AddrPort_sent [OF len(2) ports(2)]
    by (simp add: trim sp Let_def tuple4_def)
  finally show ?thesis unfolding sent .
qed

text \<open>C32: The two versions of the protocol agree. The header a load balancer sends for a connection
  between two IPv4 endpoints is read back as that connection, as text or in binary with any extension
  fields, and the bytes of the application behind it are left untouched.\<close>

theorem pp_versions_agree:
  assumes "length src = 4" "length dst = 4" "sport < 65536" "dport < 65536" "12 + length tlvs < 65536"
  shows "ReadHeader (sendV1 src sport dst dport @ rest) = (Inr (tuple4 src sport dst dport), rest) \<and>
    ReadHeader (sendV2 src sport dst dport tlvs @ rest) = (Inr (tuple4 src sport dst dport), rest)"
  using readV1_sent readV2_sent assms by blast

theorem pp_versions_agree_witness:
  "ReadHeader (sendV1 ''abcd'' 443 ''wxyz'' 80 @ ''GET'') = ReadHeader (sendV2 ''abcd'' 443 ''wxyz'' 80 ''t'' @ ''GET'')"
  using pp_versions_agree [of "''abcd''" "''wxyz''" 443 80 "''t''" "''GET''"] by simp

end
