(* ===== verification/ProxyListener.thy ===== *)
theory ProxyListener
  imports ProxyProto ClientIP
begin

text \<open>
  The listener that reads a PROXY header from every connection, \<open>internal/proxyproto/listener.go\<close>. A raw
  connection is the address of its peer and the bytes the peer sends until it closes or the deadline
  passes. The inner listener is the list of the connections it delivers before it fails. A connection
  reports the client of the header only when its peer is trusted, and reports it from the first call on.
\<close>

text \<open>A socket address: a TCP address, whose IP may be empty, or another address with its text.\<close>

datatype net_Addr = TCPAddr "Addr option" nat | OtherAddr string

record raw_conn =
  rc_RemoteAddr :: "net_Addr option"
  rc_input :: string

definition DefaultReadTimeout :: int where
  "DefaultReadTimeout = 5 * 10 ^ 9"

record pp_Listener =
  pl_trust :: "Prefix list"
  pl_readTimeout :: int

definition NewListener :: "Prefix list \<Rightarrow> int \<Rightarrow> pp_Listener option" where
  "NewListener trust readTimeout =
     (if trust = [] then None
      else Some \<lparr>pl_trust = trust, pl_readTimeout = (if readTimeout \<le> 0 then DefaultReadTimeout else readTimeout)\<rparr>)"

record pp_conn =
  pc_Conn :: raw_conn
  pc_hsOnce :: bool
  pc_br :: string
  pc_remote :: "net_Addr option"
  pc_hsErr :: "pp_error option"

definition host_addr :: "string \<Rightarrow> Addr option" where
  "host_addr s = (case SplitHostPort s of None \<Rightarrow> None | Some host \<Rightarrow> map_option Unmap (ParseAddr host))"

definition peerAddr :: "net_Addr option \<Rightarrow> Addr option" where
  "peerAddr a =
     (case a of
        None \<Rightarrow> None
      | Some (TCPAddr (Some ip) port) \<Rightarrow> Some (Unmap ip)
      | Some (TCPAddr None port) \<Rightarrow> host_addr ('':'' @ dec_digits port)
      | Some (OtherAddr s) \<Rightarrow> host_addr s)"

text \<open>The accept loop: the connections it closes, the connection it returns, unless the inner listener
  fails first, and what the inner listener has left.\<close>

fun Accept :: "pp_Listener \<Rightarrow> raw_conn list \<Rightarrow> raw_conn list \<times> pp_conn option \<times> raw_conn list" where
  "Accept l [] = ([], None, [])"
| "Accept l (raw # inner) =
     (let peer = peerAddr (rc_RemoteAddr raw) in
      if peer = None \<or> \<not> inAny (the peer) (pl_trust l) then
        let (closed, c, rest) = Accept l inner in (raw # closed, c, rest)
      else ([], Some \<lparr>pc_Conn = raw, pc_hsOnce = False, pc_br = [], pc_remote = None, pc_hsErr = None\<rparr>, inner))"

definition handshake :: "pp_conn \<Rightarrow> pp_conn" where
  "handshake c =
     (if pc_hsOnce c then c
      else
        let (r, br) = ReadHeader (rc_input (pc_Conn c));
            c = c\<lparr>pc_hsOnce := True, pc_br := br\<rparr>
        in case r of
             Inl e \<Rightarrow> c\<lparr>pc_hsErr := Some e\<rparr>
           | Inr hdr \<Rightarrow>
               let remote = rc_RemoteAddr (pc_Conn c);
                   remote = (if \<not> ph_Local hdr then
                               (case SourceTCPAddr hdr of Some (a, p) \<Rightarrow> Some (TCPAddr (Some a) p) | None \<Rightarrow> remote)
                             else remote)
               in c\<lparr>pc_remote := remote\<rparr>)"

text \<open>A read is given at most \<open>n\<close> bytes by the buffered reader.\<close>

definition conn_Read :: "nat \<Rightarrow> pp_conn \<Rightarrow> (pp_error + string) \<times> pp_conn" where
  "conn_Read n c =
     (let c = handshake c in
      case pc_hsErr c of
        Some e \<Rightarrow> (Inl e, c)
      | None \<Rightarrow> (Inr (take n (pc_br c)), c\<lparr>pc_br := drop n (pc_br c)\<rparr>))"

definition conn_RemoteAddr :: "pp_conn \<Rightarrow> net_Addr option \<times> pp_conn" where
  "conn_RemoteAddr c =
     (let c = handshake c in
      (case pc_remote c of Some a \<Rightarrow> Some a | None \<Rightarrow> rc_RemoteAddr (pc_Conn c), c))"

subsection \<open>Uses of a connection\<close>

datatype conn_op = OpRead nat | OpRemoteAddr

datatype conn_obs = ObsRead "pp_error + string" | ObsAddr "net_Addr option"

definition conn_step :: "conn_op \<Rightarrow> pp_conn \<Rightarrow> conn_obs \<times> pp_conn" where
  "conn_step x c =
     (case x of
        OpRead n \<Rightarrow> let (r, c) = conn_Read n c in (ObsRead r, c)
      | OpRemoteAddr \<Rightarrow> let (a, c) = conn_RemoteAddr c in (ObsAddr a, c))"

fun conn_run :: "conn_op list \<Rightarrow> pp_conn \<Rightarrow> conn_obs list" where
  "conn_run [] c = []"
| "conn_run (x # xs) c = (let (v, c) = conn_step x c in v # conn_run xs c)"

text \<open>What the header of a connection says: its client and the bytes behind the header.\<close>

definition client_of :: "raw_conn \<Rightarrow> net_Addr option" where
  "client_of raw =
     (case fst (ReadHeader (rc_input raw)) of
        Inr h \<Rightarrow> (case SourceTCPAddr h of Some (a, p) \<Rightarrow> Some (TCPAddr (Some a) p) | None \<Rightarrow> rc_RemoteAddr raw)
      | Inl e \<Rightarrow> rc_RemoteAddr raw)"

definition trusted_peer :: "pp_Listener \<Rightarrow> raw_conn \<Rightarrow> bool" where
  "trusted_peer l raw = (case peerAddr (rc_RemoteAddr raw) of None \<Rightarrow> False | Some a \<Rightarrow> inAny a (pl_trust l))"

text \<open>An observation is what the header allows when \<open>sent\<close> is what the application is still to get.\<close>

fun obs_ok :: "raw_conn \<Rightarrow> string \<Rightarrow> conn_obs list \<Rightarrow> bool" where
  "obs_ok raw sent [] = True"
| "obs_ok raw sent (ObsAddr a # vs) = (a = client_of raw \<and> obs_ok raw sent vs)"
| "obs_ok raw sent (ObsRead r # vs) =
     (case fst (ReadHeader (rc_input raw)) of
        Inl e \<Rightarrow> r = Inl e \<and> obs_ok raw sent vs
      | Inr h \<Rightarrow> (case r of Inl e \<Rightarrow> False | Inr d \<Rightarrow> HasPrefix sent d \<and> obs_ok raw (drop (length d) sent) vs))"

lemma handshake_once [simp]: "handshake (handshake c) = handshake c"
  by (auto simp: handshake_def Let_def split: prod.splits sum.splits)

lemma handshake_done [simp]: "pc_hsOnce (handshake c)"
  by (auto simp: handshake_def Let_def split: prod.splits sum.splits)

text \<open>A connection is settled when its handshake, made now or before, agrees with the header and leaves
  \<open>sent\<close> to read.\<close>

definition settled :: "raw_conn \<Rightarrow> string \<Rightarrow> pp_conn \<Rightarrow> bool" where
  "settled raw sent c \<longleftrightarrow>
     rc_RemoteAddr (pc_Conn (handshake c)) = rc_RemoteAddr raw \<and>
     (case fst (ReadHeader (rc_input raw)) of
        Inl e \<Rightarrow> pc_hsErr (handshake c) = Some e \<and> pc_remote (handshake c) = None
      | Inr h \<Rightarrow> pc_hsErr (handshake c) = None \<and> pc_br (handshake c) = sent \<and> pc_remote (handshake c) = client_of raw)"

lemma settled_handshake [simp]: "settled raw sent (handshake c) = settled raw sent c"
  unfolding settled_def handshake_once ..

lemma settled_start:
  "settled raw (snd (ReadHeader (rc_input raw)))
     \<lparr>pc_Conn = raw, pc_hsOnce = False, pc_br = [], pc_remote = None, pc_hsErr = None\<rparr>"
  by (auto simp: settled_def handshake_def client_of_def SourceTCPAddr_def split: prod.splits sum.splits option.splits)

lemma handshake_br: "handshake ((handshake c)\<lparr>pc_br := b\<rparr>) = (handshake c)\<lparr>pc_br := b\<rparr>"
  using handshake_done [of c] by (simp add: handshake_def)

lemma conn_run_ok: "settled raw sent c \<Longrightarrow> obs_ok raw sent (conn_run ops c)"
proof (induction ops arbitrary: sent c)
  case (Cons x ops)
  show ?case
  proof (cases x)
    case (OpRead n)
    have "settled raw (drop n sent) ((handshake c)\<lparr>pc_br := drop n sent\<rparr>)" if "\<not> isl (fst (ReadHeader (rc_input raw)))"
      using Cons.prems that by (auto simp: settled_def handshake_br split: sum.splits)
    then have "obs_ok raw (drop n sent) (conn_run ops ((handshake c)\<lparr>pc_br := drop n sent\<rparr>))"
      if "\<not> isl (fst (ReadHeader (rc_input raw)))" using Cons.IH that by blast
    moreover have "obs_ok raw sent (conn_run ops (handshake c))" using Cons by simp
    moreover have "drop (min (length sent) n) sent = drop n sent" by (simp add: min_def)
    ultimately show ?thesis using Cons.prems OpRead
      by (auto simp: conn_step_def conn_Read_def Let_def settled_def HasPrefix_def min_def split: sum.splits)
  next
    case OpRemoteAddr
    have "obs_ok raw sent (conn_run ops (handshake c))" using Cons by simp
    then show ?thesis using Cons.prems OpRemoteAddr
      by (auto simp: conn_step_def conn_RemoteAddr_def Let_def settled_def client_of_def split: sum.splits option.splits)
  qed
qed simp

lemma Accept_first:
  "Accept l inner = (closed, Some c, rest) \<Longrightarrow>
     \<exists>raw. inner = closed @ raw # rest \<and> trusted_peer l raw \<and> (\<forall>r \<in> set closed. \<not> trusted_peer l r) \<and>
       c = \<lparr>pc_Conn = raw, pc_hsOnce = False, pc_br = [], pc_remote = None, pc_hsErr = None\<rparr>"
proof (induction l inner arbitrary: closed rule: Accept.induct)
  case (2 l raw inner)
  show ?case
  proof (cases "trusted_peer l raw")
    case True
    with 2 show ?thesis by (auto simp: trusted_peer_def Let_def split: option.splits)
  next
    case False
    then have stop: "peerAddr (rc_RemoteAddr raw) = None \<or> \<not> inAny (the (peerAddr (rc_RemoteAddr raw))) (pl_trust l)"
      by (auto simp: trusted_peer_def split: option.splits)
    then obtain closed' where a: "Accept l inner = (closed', Some c, rest)" and cl: "closed = raw # closed'"
      using "2.prems" by (auto split: prod.splits)
    from "2.IH" [OF refl stop a] obtain raw' where "inner = closed' @ raw' # rest" "trusted_peer l raw'"
      "\<forall>r \<in> set closed'. \<not> trusted_peer l r"
      "c = \<lparr>pc_Conn = raw', pc_hsOnce = False, pc_br = [], pc_remote = None, pc_hsErr = None\<rparr>" by blast
    then show ?thesis using False cl by auto
  qed
qed simp

text \<open>C33: No peer outside the trust set can name a client. The listener closes the connections of
  untrusted peers unread and returns the first one of a trusted peer; whatever is then called on it, in
  any order, every address it reports is the one its header names, or the socket peer when the header names
  none, and every read delivers the bytes behind the header in order, or fails when the header does.\<close>

theorem pp_no_forgery:
  assumes "Accept l inner = (closed, Some c, rest)"
  shows "\<exists>raw. inner = closed @ raw # rest \<and> trusted_peer l raw \<and> (\<forall>r \<in> set closed. \<not> trusted_peer l r) \<and>
    (\<forall>ops. obs_ok raw (snd (ReadHeader (rc_input raw))) (conn_run ops c))"
  using Accept_first [OF assms] conn_run_ok [OF settled_start] by blast

definition sample_raw :: "Addr option \<Rightarrow> string \<Rightarrow> raw_conn" where
  "sample_raw ip input = \<lparr>rc_RemoteAddr = map_option (\<lambda>a. TCPAddr (Some a) 9) ip, rc_input = input\<rparr>"

definition sample_listener :: pp_Listener where
  "sample_listener = \<lparr>pl_trust = [\<lparr>px_addr = Addr4 ''abcd'', px_bits = 0\<rparr>], pl_readTimeout = 1\<rparr>"

theorem pp_no_forgery_witness:
  "\<exists>c. Accept sample_listener [sample_raw None ''x'', sample_raw (Some (Addr4 ''wxyz'')) ''PROXY''] =
         ([sample_raw None ''x''], Some c, []) \<and>
       trusted_peer sample_listener (sample_raw (Some (Addr4 ''wxyz'')) ''PROXY'') \<and>
       obs_ok (sample_raw (Some (Addr4 ''wxyz'')) ''PROXY'') (snd (ReadHeader ''PROXY'')) (conn_run [OpRead 3, OpRemoteAddr] c)"
proof -
  have "\<exists>c. Accept sample_listener [sample_raw None ''x'', sample_raw (Some (Addr4 ''wxyz'')) ''PROXY''] =
         ([sample_raw None ''x''], Some c, [])"
    by (simp add: sample_listener_def sample_raw_def peerAddr_def Unmap_def inAny_def Contains_def addr_bytes_def zone_def)
  then obtain c where a: "Accept sample_listener [sample_raw None ''x'', sample_raw (Some (Addr4 ''wxyz'')) ''PROXY''] =
         ([sample_raw None ''x''], Some c, [])" ..
  from pp_no_forgery [OF a] have "trusted_peer sample_listener (sample_raw (Some (Addr4 ''wxyz'')) ''PROXY'') \<and>
     (\<forall>ops. obs_ok (sample_raw (Some (Addr4 ''wxyz'')) ''PROXY'') (snd (ReadHeader ''PROXY'')) (conn_run ops c))"
    by (auto simp: sample_raw_def)
  with a show ?thesis by blast
qed

end
