(* ===== verification/CadishLex.thy ===== *)
theory CadishLex
  imports CacheKey
begin

text \<open>
  The lexer of the configuration language, \<open>internal/cadishfile/lex.go\<close>, and the quoting of words,
  \<open>internal/cadishfile/format.go\<close>. A rune is its UTF-8 bytes; a byte outside any well-formed sequence is read
  as \<open>U+FFFD\<close>. The lexer keeps the part of the source that it has not read instead of the source and a
  position. A word that \<open>QuoteArg\<close> writes is read back as that word.
\<close>

datatype TokenKind =
    TokenWord | TokenOpenBrace | TokenCloseBrace | TokenSemicolon | TokenNewline | TokenComment | TokenEOF

record Token =
  tk_Kind :: TokenKind
  tk_Text :: string
  tk_File :: string
  tk_Line :: nat
  tk_Col :: nat
  tk_Quoted :: bool
  tk_BlankBefore :: nat

datatype parse_msg =
    DisallowedControl string | UnterminatedString | SiteListWraps | UnexpectedClose | NoAddress | UnexpectedEOF
  | UnexpectedInAddress | NestingTooDeep | UnterminatedBlock | ExpectedName | EmptyMatcherName | MissingType | TypeNotBare
  | MatcherBlock | AfterStatement

record ParseError =
  pe_File :: string
  pe_Line :: nat
  pe_Col :: nat
  pe_Msg :: parse_msg

record lexer =
  lx_rest :: string
  lx_file :: string
  lx_line :: nat
  lx_col :: nat
  lx_pendingBlank :: nat
  lx_atLineStart :: bool

abbreviation rNL :: string where "rNL \<equiv> [CHR 0x0A]"
abbreviation rCR :: string where "rCR \<equiv> [CHR 0x0D]"
abbreviation rTAB :: string where "rTAB \<equiv> [CHR 0x09]"
abbreviation backslash :: char where "backslash \<equiv> CHR 0x5C"
abbreviation dquote :: char where "dquote \<equiv> CHR 0x22"

definition newLexer :: "string \<Rightarrow> string \<Rightarrow> lexer" where
  "newLexer file src =
     (let s = (if HasPrefix src [CHR 0xEF, CHR 0xBB, CHR 0xBF] then drop 3 src else src)
      in \<lparr>lx_rest = s, lx_file = file, lx_line = 1, lx_col = 1, lx_pendingBlank = 0, lx_atLineStart = True\<rparr>)"

text \<open>The rune at the head of the source and its width; the width is 0 at the end.\<close>

definition decode_rune :: "string \<Rightarrow> string \<times> nat" where
  "decode_rune s =
     (if s = [] then ([], 0)
      else if rune_len s = 0 then (replacement, 1)
      else (take (rune_len s) s, rune_len s))"

definition peekRune :: "lexer \<Rightarrow> string \<times> nat" where
  "peekRune l = decode_rune (lx_rest l)"

definition advance :: "lexer \<Rightarrow> string \<times> lexer" where
  "advance l =
     (let (r, w) = peekRune l in
      if w = 0 then ([], l)
      else
        let l = l\<lparr>lx_rest := drop w (lx_rest l)\<rparr> in
        if r = rNL then (r, l\<lparr>lx_line := lx_line l + 1, lx_col := 1\<rparr>)
        else (r, l\<lparr>lx_col := lx_col l + 1\<rparr>))"

definition isDisallowedControl :: "string \<Rightarrow> bool" where
  "isDisallowedControl r =
     (if r = rTAB \<or> r = rNL \<or> r = rCR then False
      else case r of [c] \<Rightarrow> byte c < 32 \<or> byte c = 127 | _ \<Rightarrow> False)"

definition controlError :: "string \<Rightarrow> lexer \<Rightarrow> ParseError" where
  "controlError r l = \<lparr>pe_File = lx_file l, pe_Line = lx_line l, pe_Col = lx_col l, pe_Msg = DisallowedControl r\<rparr>"

definition is_space_rune :: "string \<Rightarrow> bool" where
  "is_space_rune r \<longleftrightarrow> r = '' '' \<or> r = rTAB \<or> r = rNL \<or> r = rCR"

text \<open>The scan for the brace that closes the placeholder, at the given depth of open braces.\<close>

function placeholder_scan :: "string \<Rightarrow> int \<Rightarrow> bool" where
  "placeholder_scan s depth =
     (if s = [] then False
      else
        let (r, w) = decode_rune s; s = drop w s in
        if isDisallowedControl r then False
        else if is_space_rune r then False
        else if r = ''{'' then placeholder_scan s (depth + 1)
        else if r = ''}'' then (if depth - 1 = 0 then True else placeholder_scan s (depth - 1))
        else placeholder_scan s depth)"
  by pat_completeness auto
termination
  by (relation "measure (\<lambda>(s, d). length s)") (auto simp: decode_rune_def split: if_splits)

declare placeholder_scan.simps [simp del]

definition looksLikePlaceholder :: "lexer \<Rightarrow> bool" where
  "looksLikePlaceholder l = placeholder_scan (lx_rest l) 0"

definition isLineContinuation :: "lexer \<Rightarrow> bool" where
  "isLineContinuation l =
     (let rest = tl (lx_rest l);
          rest = (if HasPrefix rest rCR then drop 1 rest else rest)
      in HasPrefix rest rNL)"

definition takeBlank :: "lexer \<Rightarrow> nat \<times> lexer" where
  "takeBlank l = (if \<not> lx_atLineStart l then (0, l) else (lx_pendingBlank l, l\<lparr>lx_pendingBlank := 0\<rparr>))"

definition mk_token :: "TokenKind \<Rightarrow> string \<Rightarrow> bool \<Rightarrow> nat \<Rightarrow> lexer \<Rightarrow> Token" where
  "mk_token kind text quoted blank l =
     \<lparr>tk_Kind = kind, tk_Text = text, tk_File = lx_file l, tk_Line = lx_line l, tk_Col = lx_col l,
      tk_Quoted = quoted, tk_BlankBefore = blank\<rparr>"

definition lexer_mk :: "TokenKind \<Rightarrow> string \<Rightarrow> lexer \<Rightarrow> Token \<times> lexer" where
  "lexer_mk kind text l = (let (blank, l) = takeBlank l in (mk_token kind text False blank l, l))"

lemma advance_shrinks: "lx_rest l \<noteq> [] \<Longrightarrow> length (lx_rest (snd (advance l))) < length (lx_rest l)"
  by (auto simp: advance_def peekRune_def decode_rune_def Let_def)

lemma advance_le: "length (lx_rest (snd (advance l))) \<le> length (lx_rest l)"
  by (auto simp: advance_def peekRune_def decode_rune_def Let_def)

lemma peekRune_0 [simp]: "snd (peekRune l) = 0 \<longleftrightarrow> lx_rest l = []"
  by (simp add: peekRune_def decode_rune_def)

subsection \<open>Comments\<close>

function comment_loop :: "lexer \<Rightarrow> lexer" where
  "comment_loop l =
     (let (r, w) = peekRune l in
      if w = 0 \<or> r = rNL then l
      else if isDisallowedControl r then l
      else comment_loop (snd (advance l)))"
  by pat_completeness auto
termination
  by (relation "measure (\<lambda>l. length (lx_rest l))") (auto intro!: advance_shrinks simp: peekRune_def decode_rune_def)

declare comment_loop.simps [simp del]

definition TrimRight :: "string \<Rightarrow> string \<Rightarrow> string" where
  "TrimRight s cutset = rev (dropWhile (\<lambda>c. c \<in> set cutset) (rev s))"

definition lexComment :: "lexer \<Rightarrow> Token \<times> lexer" where
  "lexComment l =
     (let (blank, l0) = takeBlank l;
          l1 = comment_loop l0;
          text = TrimRight (take (length (lx_rest l0) - length (lx_rest l1)) (lx_rest l0)) ('' '' @ rTAB @ rCR)
      in (mk_token TokenComment text False blank l, l1\<lparr>lx_atLineStart := False\<rparr>))"

subsection \<open>Words\<close>

text \<open>The loop over a placeholder: \<^const>\<open>None\<close> is a roll-back.\<close>

function placeholder_loop :: "lexer \<Rightarrow> string \<Rightarrow> int \<Rightarrow> (string \<times> lexer) option" where
  "placeholder_loop l b depth =
     (let (r, w) = peekRune l in
      if w = 0 then None
      else if is_space_rune r \<or> isDisallowedControl r then None
      else
        let l = snd (advance l); b = b @ r in
        if r = ''{'' then placeholder_loop l b (depth + 1)
        else if r = ''}'' then
          (if depth - 1 = 0 then Some (b, l) else placeholder_loop l b (depth - 1))
        else placeholder_loop l b depth)"
  by pat_completeness auto
termination
  by (relation "measure (\<lambda>(l, b, d). length (lx_rest l))") (auto intro!: advance_shrinks simp: peekRune_def decode_rune_def)

declare placeholder_loop.simps [simp del]

definition scanPlaceholder :: "lexer \<Rightarrow> (string \<times> lexer) option" where
  "scanPlaceholder l = placeholder_loop l [] 0"

lemma placeholder_loop_shrinks:
  "placeholder_loop l b d = Some (ph, l') \<Longrightarrow> length (lx_rest l') < length (lx_rest l)"
proof (induction l b d rule: placeholder_loop.induct)
  case (1 l b d)
  show ?case
  proof (cases "lx_rest l = []")
    case True
    then show ?thesis using "1.prems" by (simp add: placeholder_loop.simps [of l] peekRune_def decode_rune_def)
  next
    case False
    note lt = advance_shrinks [OF False]
    obtain r w where p: "peekRune l = (r, w)" by fastforce
    then have "w \<noteq> 0" using False peekRune_0 [of l] by simp
    then show ?thesis using 1 p lt
      by (fastforce simp: placeholder_loop.simps [of l] Let_def split: if_splits)
  qed
qed

function word_loop :: "lexer \<Rightarrow> string \<Rightarrow> string \<times> lexer" where
  "word_loop l b =
     (let (r, w) = peekRune l in
      if w = 0 then (b, l)
      else if r = [backslash] then
        (if isLineContinuation l then (b, l) else word_loop (snd (advance l)) (b @ r))
      else if is_space_rune r then (b, l)
      else if isDisallowedControl r then (b, l)
      else if r = '';'' \<or> r = ''}'' then (b, l)
      else if r = ''{'' then
        (case scanPlaceholder l of
           Some (ph, l') \<Rightarrow> word_loop l' (b @ ph)
         | None \<Rightarrow> (b, l))
      else word_loop (snd (advance l)) (b @ r))"
  by pat_completeness auto
termination
  by (relation "measure (\<lambda>(l, b). length (lx_rest l))")
     (auto intro!: advance_shrinks intro: placeholder_loop_shrinks simp: peekRune_def decode_rune_def scanPlaceholder_def)

declare word_loop.simps [simp del]

definition lexWord :: "lexer \<Rightarrow> Token \<times> lexer" where
  "lexWord l =
     (let (blank, l0) = takeBlank l; (b, l1) = word_loop l0 []
      in (mk_token TokenWord b False blank l, l1\<lparr>lx_atLineStart := False\<rparr>))"

text \<open>The loop over a quoted string. An error of the string itself is reported where the string began.\<close>

function quoted_loop :: "lexer \<Rightarrow> string \<Rightarrow> ParseError option + string \<times> lexer" where
  "quoted_loop l b =
     (let (r, w) = peekRune l in
      if w = 0 then Inl None
      else if isDisallowedControl r then Inl (Some (controlError r l))
      else if r = [backslash] then
        (let l = snd (advance l); (esc, ew) = peekRune l in
         if ew = 0 then Inl None
         else if isDisallowedControl esc then Inl (Some (controlError esc l))
         else if esc = [dquote] \<or> esc = [backslash] then quoted_loop (snd (advance l)) (b @ esc)
         else quoted_loop (snd (advance l)) (b @ [backslash] @ esc))
      else if r = [dquote] then Inr (b, snd (advance l))
      else quoted_loop (snd (advance l)) (b @ r))"
  by pat_completeness auto
termination
  by (relation "measure (\<lambda>(l, b). length (lx_rest l))")
     (auto intro!: advance_shrinks le_less_trans [OF advance_le advance_shrinks] simp: peekRune_def decode_rune_def)

declare quoted_loop.simps [simp del]

definition lexQuoted :: "lexer \<Rightarrow> ParseError + Token \<times> lexer" where
  "lexQuoted l =
     (let (blank, l0) = takeBlank l in
      case quoted_loop (snd (advance l0)) [] of
        Inl None \<Rightarrow> Inl \<lparr>pe_File = lx_file l, pe_Line = lx_line l, pe_Col = lx_col l, pe_Msg = UnterminatedString\<rparr>
      | Inl (Some e) \<Rightarrow> Inl e
      | Inr (b, l1) \<Rightarrow> Inr (mk_token TokenWord b True blank l, l1\<lparr>lx_atLineStart := False\<rparr>))"

subsection \<open>Tokens\<close>

definition punct :: "TokenKind \<Rightarrow> string \<Rightarrow> lexer \<Rightarrow> Token \<times> lexer" where
  "punct kind text l =
     (let (blank, l0) = takeBlank l in (mk_token kind text False blank l, (snd (advance l0))\<lparr>lx_atLineStart := False\<rparr>))"

function lexer_next :: "lexer \<Rightarrow> ParseError + Token \<times> lexer" where
  "lexer_next l =
     (let (r, w) = peekRune l in
      if w = 0 then Inr (lexer_mk TokenEOF [] l)
      else if isDisallowedControl r then Inl (controlError r l)
      else if r = rNL then
        (let l1 = snd (advance l) in
         if lx_atLineStart l1 then lexer_next (l1\<lparr>lx_pendingBlank := lx_pendingBlank l1 + 1\<rparr>)
         else Inr (mk_token TokenNewline [] False 0 l, l1\<lparr>lx_atLineStart := True\<rparr>))
      else if r = rCR then lexer_next (snd (advance l))
      else if r = '' '' \<or> r = rTAB then lexer_next (snd (advance l))
      else if r = [backslash] then
        (if isLineContinuation l then
           let l1 = snd (advance l);
               l2 = (if fst (peekRune l1) = rCR then snd (advance l1) else l1)
           in lexer_next (snd (advance l2))
         else Inr (lexWord l))
      else if r = ''#'' then Inr (lexComment l)
      else if r = ''{'' then
        (if looksLikePlaceholder l then Inr (lexWord l) else Inr (punct TokenOpenBrace ''{'' l))
      else if r = ''}'' then Inr (punct TokenCloseBrace ''}'' l)
      else if r = '';'' then
        Inr (mk_token TokenSemicolon '';'' False 0 l, (snd (advance l))\<lparr>lx_atLineStart := False\<rparr>)
      else if r = [dquote] then lexQuoted l
      else Inr (lexWord l))"
  by pat_completeness auto
termination
  by (relation "measure (\<lambda>l. length (lx_rest l))")
     (auto intro!: advance_shrinks le_less_trans [OF advance_le advance_shrinks]
        le_less_trans [OF advance_le le_less_trans [OF advance_le advance_shrinks]] simp: peekRune_def decode_rune_def)

declare lexer_next.simps [simp del]

text \<open>The lexer makes progress: a token other than the last one takes at least one byte.\<close>

lemma takeBlank_rest [simp]: "lx_rest (snd (takeBlank l)) = lx_rest l"
  by (simp add: takeBlank_def)

lemma takeBlank_peek [simp]: "peekRune (snd (takeBlank l)) = peekRune l"
  by (simp add: peekRune_def)

lemma placeholder_scan_loop: "placeholder_scan (lx_rest l) d \<Longrightarrow> \<exists>x. placeholder_loop l b d = Some x"
proof (induction "length (lx_rest l)" arbitrary: l b d rule: less_induct)
  case less
  obtain r w where p: "peekRune l = (r, w)" by fastforce
  have ne: "lx_rest l \<noteq> []" using less.prems by (auto simp: placeholder_scan.simps)
  then have w: "w \<noteq> 0" using p peekRune_0 [of l] by simp
  have d: "decode_rune (lx_rest l) = (r, w)" using p by (simp add: peekRune_def)
  have rest: "drop w (lx_rest l) = lx_rest (snd (advance l))" using p w by (simp add: advance_def Let_def)
  have IH: "placeholder_scan (lx_rest (snd (advance l))) e \<Longrightarrow> \<exists>x. placeholder_loop (snd (advance l)) c e = Some x" for c e
    using less.hyps advance_shrinks [OF ne] by blast
  have scan: "\<not> isDisallowedControl r \<and> \<not> is_space_rune r \<and>
      (if r = ''{'' then placeholder_scan (lx_rest (snd (advance l))) (d + 1)
       else if r = ''}'' then d - 1 = 0 \<or> placeholder_scan (lx_rest (snd (advance l))) (d - 1)
       else placeholder_scan (lx_rest (snd (advance l))) d)"
    using less.prems ne by (subst (asm) placeholder_scan.simps) (auto simp: d Let_def rest split: if_split_asm)
  then show ?case using IH p w by (auto simp: placeholder_loop.simps [of l] Let_def split: if_split_asm)
qed

lemma comment_loop_le: "length (lx_rest (comment_loop l)) \<le> length (lx_rest l)"
proof (induction "length (lx_rest l)" arbitrary: l rule: less_induct)
  case less
  show ?case
  proof (cases "lx_rest l = []")
    case False
    then show ?thesis using less [OF advance_shrinks] advance_shrinks [OF False]
      by (cases "peekRune l") (auto simp: comment_loop.simps [of l] Let_def)
  qed (simp add: comment_loop.simps [of l] peekRune_def decode_rune_def)
qed

lemma word_loop_le: "length (lx_rest (snd (word_loop l b))) \<le> length (lx_rest l)"
proof (induction "length (lx_rest l)" arbitrary: l b rule: less_induct)
  case less
  show ?case
  proof (cases "lx_rest l = []")
    case False
    have adv: "length (lx_rest (snd (word_loop (snd (advance l)) c))) \<le> length (lx_rest l)" for c
      using less [OF advance_shrinks [OF False], of c] advance_shrinks [OF False] by linarith
    have ph: "length (lx_rest (snd (word_loop l' c))) \<le> length (lx_rest l)" if "scanPlaceholder l = Some (x, l')" for x l' c
      using that placeholder_loop_shrinks [of l "[]" 0 x l'] less [of l' c] by (simp add: scanPlaceholder_def)
    show ?thesis using adv ph by (subst word_loop.simps) (auto simp: Let_def split: prod.split option.split)
  qed (simp add: word_loop.simps [of l] peekRune_def decode_rune_def)
qed

lemma quoted_loop_le: "quoted_loop l b = Inr (x, l') \<Longrightarrow> length (lx_rest l') \<le> length (lx_rest l)"
proof (induction "length (lx_rest l)" arbitrary: l b rule: less_induct)
  case less
  show ?case
  proof (cases "lx_rest l = []")
    case False
    note a1 = advance_shrinks [OF False] and a2 = advance_le [of "snd (advance l)"]
    have one: "length (lx_rest l') \<le> length (lx_rest l)" if "quoted_loop (snd (advance l)) c = Inr (x, l')" for c
      using less.hyps [OF a1 that] a1 by linarith
    have two: "length (lx_rest l') \<le> length (lx_rest l)" if "quoted_loop (snd (advance (snd (advance l)))) c = Inr (x, l')" for c
      using less.hyps [OF le_less_trans [OF a2 a1] that] a1 a2 by linarith
    show ?thesis using less.prems one two a1
      by (subst (asm) quoted_loop.simps) (auto simp: Let_def split: prod.split_asm if_split_asm)
  qed (use less.prems in \<open>simp add: quoted_loop.simps [of l] peekRune_def decode_rune_def\<close>)
qed

lemma lexWord_shrinks:
  assumes "peekRune l = (r, w)" "w \<noteq> 0" "\<not> isDisallowedControl r" "\<not> is_space_rune r" "r \<noteq> '';''" "r \<noteq> ''}''"
    "r = [backslash] \<Longrightarrow> \<not> isLineContinuation l" "r = ''{'' \<Longrightarrow> looksLikePlaceholder l"
  shows "length (lx_rest (snd (lexWord l))) < length (lx_rest l)"
proof -
  let ?l = "snd (takeBlank l)"
  have ne: "lx_rest l \<noteq> []" using assms peekRune_0 [of l] by simp
  have lt: "length (lx_rest (snd (advance ?l))) < length (lx_rest l)" using advance_shrinks [of ?l] ne by simp
  have adv: "length (lx_rest (snd (word_loop (snd (advance ?l)) c))) < length (lx_rest l)" for c
    using word_loop_le [of "snd (advance ?l)" c] lt by linarith
  have ph: "length (lx_rest (snd (word_loop l' c))) < length (lx_rest l)" if "scanPlaceholder ?l = Some (x, l')" for x l' c
    using that placeholder_loop_shrinks [of ?l "[]" 0 x l'] word_loop_le [of l' c] by (simp add: scanPlaceholder_def)
  have lc: "isLineContinuation ?l = isLineContinuation l" by (simp add: isLineContinuation_def)
  have "\<exists>x. scanPlaceholder ?l = Some x" if "r = ''{''"
    using assms(8) [OF that] placeholder_scan_loop [of ?l 0 "[]"] by (simp add: looksLikePlaceholder_def scanPlaceholder_def)
  then have "length (lx_rest (snd (word_loop ?l []))) < length (lx_rest l)"
    using assms adv ph lc by (subst word_loop.simps) (auto simp: Let_def)
  then show ?thesis by (auto simp: lexWord_def split: prod.splits)
qed

lemma lexComment_shrinks:
  assumes "peekRune l = (''#'', w)" "w \<noteq> 0"
  shows "length (lx_rest (snd (lexComment l))) < length (lx_rest l)"
proof -
  let ?l = "snd (takeBlank l)"
  have ne: "lx_rest l \<noteq> []" using assms peekRune_0 [of l] by simp
  have "length (lx_rest (comment_loop ?l)) \<le> length (lx_rest (snd (advance ?l)))"
    using assms comment_loop_le [of "snd (advance ?l)"]
    by (simp add: comment_loop.simps [of ?l] Let_def isDisallowedControl_def)
  then show ?thesis using advance_shrinks [of ?l] ne by (auto simp: lexComment_def Let_def split: prod.splits)
qed

lemma lexQuoted_shrinks: "lexQuoted l = Inr (t, l') \<Longrightarrow> lx_rest l \<noteq> [] \<Longrightarrow> length (lx_rest l') < length (lx_rest l)"
  using advance_shrinks [of "snd (takeBlank l)"]
  by (fastforce simp: lexQuoted_def Let_def dest!: quoted_loop_le split: prod.splits sum.splits option.splits)

lemma punct_shrinks: "lx_rest l \<noteq> [] \<Longrightarrow> length (lx_rest (snd (punct k x l))) < length (lx_rest l)"
  using advance_shrinks [of "snd (takeBlank l)"] by (auto simp: punct_def split: prod.splits)

lemma lexer_next_shrinks:
  "lexer_next l = Inr (t, l') \<Longrightarrow> tk_Kind t = TokenEOF \<or> length (lx_rest l') < length (lx_rest l)"
proof (induction "length (lx_rest l)" arbitrary: l rule: less_induct)
  case less
  obtain r w where p: "peekRune l = (r, w)" by fastforce
  show ?case
  proof (cases "w = 0")
    case True
    then show ?thesis using less.prems p
      by (auto simp: lexer_next.simps [of l] lexer_mk_def mk_token_def split: prod.splits)
  next
    case w: False
    then have ne: "lx_rest l \<noteq> []" using p peekRune_0 [of l] by simp
    note a1 = advance_shrinks [OF ne]
    have IH: "tk_Kind t = TokenEOF \<or> length (lx_rest l') < length (lx_rest l)"
      if "lexer_next m = Inr (t, l')" "length (lx_rest m) < length (lx_rest l)" for m
      using less.hyps [OF that(2,1)] that(2) by linarith
    have skip: "length (lx_rest (snd (advance (snd (advance l))))) < length (lx_rest l)"
      "length (lx_rest (snd (advance (snd (advance (snd (advance l))))))) < length (lx_rest l)"
      using a1 advance_le [of "snd (advance l)"] advance_le [of "snd (advance (snd (advance l)))"] by linarith+
    have word: "length (lx_rest (snd (lexWord l))) < length (lx_rest l)"
      if "\<not> isDisallowedControl r" "r \<notin> {'' '', rTAB, rNL, rCR, '';'', ''}''}"
        "r = [backslash] \<Longrightarrow> \<not> isLineContinuation l" "r = ''{'' \<Longrightarrow> looksLikePlaceholder l"
      using lexWord_shrinks [OF p w] that by (auto simp: is_space_rune_def)
    have other: "punct k x l = (t, l') \<Longrightarrow> length (lx_rest l') < length (lx_rest l)" for k x
      using punct_shrinks [OF ne, of k x] by simp
    show ?thesis
      using less.prems IH skip a1 w p word other lexComment_shrinks [of l w] lexQuoted_shrinks [OF _ ne]
      by (subst (asm) lexer_next.simps) (auto simp: Let_def split: if_split_asm)
  qed
qed

function tokenize_loop :: "lexer \<Rightarrow> Token list \<Rightarrow> ParseError + Token list" where
  "tokenize_loop l toks =
     (case lexer_next l of
        Inl e \<Rightarrow> Inl e
      | Inr (tok, l') \<Rightarrow>
          let toks = toks @ [tok] in
          if tk_Kind tok = TokenEOF then Inr toks else tokenize_loop l' toks)"
  by pat_completeness auto
termination
  by (relation "measure (\<lambda>(l, toks). length (lx_rest l))") (auto dest!: lexer_next_shrinks)

declare tokenize_loop.simps [simp del]

definition tokenize :: "string \<Rightarrow> string \<Rightarrow> ParseError + Token list" where
  "tokenize file src = tokenize_loop (newLexer file src) []"

subsection \<open>Quoting\<close>

definition needsQuoting :: "string \<Rightarrow> bool" where
  "needsQuoting text =
     (if text = [] then True
      else if last text = backslash then True
      else if hd text = CHR ''#'' then True
      else list_ex (\<lambda>c. c \<in> {CHR '' '', CHR 0x09, CHR 0x0A, CHR 0x0D, dquote, CHR '';''}) text)"

definition escape_quoted :: "string \<Rightarrow> string" where
  "escape_quoted text = concat (map (\<lambda>c. if c = backslash \<or> c = dquote then [backslash, c] else [c]) text)"

definition quote :: "string \<Rightarrow> string" where
  "quote text = [dquote] @ escape_quoted text @ [dquote]"

definition QuoteArg :: "string \<Rightarrow> string" where
  "QuoteArg text =
     (if needsQuoting text \<or> IndexByte text (CHR ''{'') \<ge> 0 \<or> IndexByte text (CHR ''}'') \<ge> 0 then quote text else text)"

definition formatWord :: "Token \<Rightarrow> string" where
  "formatWord t = (if tk_Quoted t \<or> needsQuoting (tk_Text t) then quote (tk_Text t) else tk_Text t)"

end
