(* ===== verification/CadishQuote.thy ===== *)
theory CadishQuote
  imports CadishLex
begin

text \<open>
  Reading back what \<open>QuoteArg\<close> and the formatter write (\<open>internal/cadishfile/format.go\<close>): a quoted or bare word
  in front of a separator is one token with the text of the word.
\<close>

text \<open>A lexer that has moved on to \<open>r\<close>.\<close>

definition moved :: "lexer \<Rightarrow> string \<Rightarrow> lexer \<Rightarrow> bool" where
  "moved l r l' \<longleftrightarrow> lx_rest l' = r \<and> lx_file l' = lx_file l \<and> lx_pendingBlank l' = lx_pendingBlank l \<and>
     lx_atLineStart l' = lx_atLineStart l"

lemma moved_rest: "moved l r l' \<Longrightarrow> lx_rest l' = r"
  by (simp add: moved_def)

lemma moved_trans: "moved l r l' \<Longrightarrow> moved l' r' l'' \<Longrightarrow> moved l r' l''"
  by (simp add: moved_def)

text \<open>Texts that a file may hold: well-formed and free of control characters.\<close>

definition plain :: "string \<Rightarrow> bool" where
  "plain t \<longleftrightarrow> valid_utf8 t \<and> list_all (\<lambda>c. \<not> isDisallowedControl [c]) t"

lemma lead_len_multi: "lead_len b > 1 \<Longrightarrow> 128 \<le> b"
  by (simp add: lead_len_def split: if_splits)

lemma rune_multi: "rune_len t > 1 \<Longrightarrow> list_all (\<lambda>c. 128 \<le> byte c) (take (rune_len t) t)"
proof (cases t)
  case (Cons c cs)
  assume gt: "rune_len t > 1"
  then have n: "rune_len t = lead_len (byte c)" and "list_all cont (take (lead_len (byte c) - 1) cs)"
    using Cons by (auto simp: rune_len_def Let_def split: if_splits)
  then have "list_all cont (take (rune_len t - 1) cs)" "128 \<le> byte c" using lead_len_multi gt by simp_all
  then show ?thesis using Cons gt by (cases "rune_len t") (auto simp: list_all_iff cont_def)
qed simp

lemma rune_single: "rune_len t = 1 \<Longrightarrow> take (rune_len t) t = [hd t]"
  by (cases t) auto

text \<open>One step over a well-formed text: the first rune, and the rest of the text.\<close>

lemma rune_one: "rune_len ([c] @ s) = length [c] \<Longrightarrow> byte c < 128"
  by (auto simp: rune_len_def lead_len_def Let_def split: if_splits)

definition multi :: "string \<Rightarrow> bool" where
  "multi r \<longleftrightarrow> r \<noteq> [] \<and> list_all (\<lambda>c. 128 \<le> byte c) r"

lemma plain_step:
  assumes "plain t" "t \<noteq> []"
  obtains r t' where "t = r @ t'" "\<And>s. rune_len (r @ s) = length r" "r \<noteq> []" "plain t'"
    "(\<exists>c. r = [c] \<and> byte c < 128 \<and> \<not> isDisallowedControl [c]) \<or> multi r"
proof -
  let ?n = "rune_len t"
  have n: "?n \<noteq> 0" "valid_utf8 (drop ?n t)" using assms by (auto simp: plain_def valid_utf8_step)
  have len: "length (take ?n t) = ?n" using rune_len_le [of t] by simp
  have app: "rune_len (take ?n t @ s) = length (take ?n t)" for s
    using rune_len_append [of "take ?n t" s] rune_len_take [of t] n len by simp
  have pl: "plain (drop ?n t)" using assms n by (auto simp: plain_def list_all_iff dest: in_set_dropD)
  have ne: "take ?n t \<noteq> []" using n assms by simp
  have "(\<exists>c. take ?n t = [c] \<and> byte c < 128 \<and> \<not> isDisallowedControl [c]) \<or> multi (take ?n t)"
  proof (cases "?n = 1")
    case True
    then have one: "take ?n t = [hd t]" by (rule rune_single)
    then have "byte (hd t) < 128" using app [of "[]"] by (intro rune_one [of _ "[]"]) simp
    then show ?thesis using one assms by (auto simp: plain_def list_all_iff)
  next
    case False
    then show ?thesis using rune_multi [of t] n ne by (simp add: multi_def)
  qed
  then show ?thesis using that [of "take ?n t" "drop ?n t"] app pl ne by simp
qed

lemma multi_other:
  assumes "multi r" "rune_len (r @ s) = length r"
  shows "\<not> isDisallowedControl r" "\<not> is_space_rune r" "byte c < 128 \<Longrightarrow> r \<noteq> [c]"
proof -
  have "length r \<noteq> 1" using assms rune_one [of "hd r" s] by (cases r) (auto simp: multi_def)
  then show "\<not> isDisallowedControl r" "\<not> is_space_rune r" "byte c < 128 \<Longrightarrow> r \<noteq> [c]"
    by (auto simp: isDisallowedControl_def is_space_rune_def split: list.splits)
qed

lemma decode_prefix: "rune_len (r @ s) = length r \<Longrightarrow> r \<noteq> [] \<Longrightarrow> decode_rune (r @ s) = (r, length r)"
  by (simp add: decode_rune_def)

lemma advance_prefix:
  assumes "lx_rest l = r @ s" "rune_len (r @ s) = length r" "r \<noteq> []"
  shows "peekRune l = (r, length r)" "moved l s (snd (advance l))"
  using assms by (auto simp: peekRune_def decode_prefix advance_def moved_def Let_def)

subsection \<open>Quoted words\<close>

lemma escape_append: "escape_quoted (r @ t) = escape_quoted r @ escape_quoted t"
  by (simp add: escape_quoted_def)

lemma escape_multi: "multi r \<Longrightarrow> escape_quoted r = r"
proof -
  have "list_all (\<lambda>c. 128 \<le> byte c) r \<Longrightarrow> escape_quoted r = r"
    by (induction r) (auto simp: escape_quoted_def)
  then show "multi r \<Longrightarrow> escape_quoted r = r" by (simp add: multi_def)
qed

lemma rune_ascii: "byte c < 128 \<Longrightarrow> rune_len (c # s) = 1"
  by (simp add: rune_len_def lead_len_def)

lemma advance_ascii:
  assumes "lx_rest l = c # s" "byte c < 128"
  shows "peekRune l = ([c], 1)" "moved l s (snd (advance l))"
  using advance_prefix [of l "[c]" s] assms rune_ascii [of c s] by simp_all

lemma quoted_loop_ok:
  assumes "plain t" "lx_rest l = escape_quoted t @ dquote # s"
  shows "\<exists>l'. quoted_loop l b = Inr (b @ t, l') \<and> moved l s l'"
  using assms
proof (induction "length t" arbitrary: t l b rule: less_induct)
  case less
  show ?case
  proof (cases "t = []")
    case True
    then have "lx_rest l = dquote # s" using less.prems by (simp add: escape_quoted_def)
    then have "peekRune l = ([dquote], 1)" "moved l s (snd (advance l))" using advance_ascii [of l dquote s] by simp_all
    then show ?thesis using True by (simp add: quoted_loop.simps [of l] isDisallowedControl_def)
  next
    case False
    let ?tail = "\<lambda>t'. escape_quoted t' @ dquote # s"
    obtain r t' where t: "t = r @ t'" and rl: "\<And>s. rune_len (r @ s) = length r" "r \<noteq> []" and pl: "plain t'"
      and kind: "(\<exists>c. r = [c] \<and> byte c < 128 \<and> \<not> isDisallowedControl [c]) \<or> multi r"
      using plain_step [OF less.prems(1) False] by metis
    have IH: "\<exists>l'. quoted_loop m (b @ r) = Inr (b @ t, l') \<and> moved l s l'" if "moved l (?tail t') m" for m
      using less.hyps [of t' m "b @ r"] t rl(2) pl that moved_rest [OF that] moved_trans [OF that] by fastforce
    have src: "lx_rest l = escape_quoted r @ ?tail t'" using less.prems(2) t by (simp add: escape_append)
    from kind show ?thesis
    proof
      assume m: "multi r"
      note o = multi_other [OF m rl(1) [of "[]"]]
      have "lx_rest l = r @ ?tail t'" using src escape_multi [OF m] by simp
      note adv = advance_prefix [OF this rl(1) rl(2)]
      have "quoted_loop l b = quoted_loop (snd (advance l)) (b @ r)"
        using adv(1) o(1) o(3) [of backslash] o(3) [of dquote] rl(2) by (simp add: quoted_loop.simps [of l])
      then show ?thesis using IH [OF adv(2)] by simp
    next
      assume "\<exists>c. r = [c] \<and> byte c < 128 \<and> \<not> isDisallowedControl [c]"
      then obtain c where c: "r = [c]" "byte c < 128" "\<not> isDisallowedControl [c]" by blast
      show ?thesis
      proof (cases "c = backslash \<or> c = dquote")
        case True
        then have 1: "lx_rest l = backslash # c # ?tail t'" using src c by (auto simp: escape_quoted_def)
        have b: "byte backslash < 128" by simp
        note a1 = advance_ascii [OF 1 b] and a2 = advance_ascii [OF moved_rest [OF advance_ascii(2) [OF 1 b]] c(2)]
        have "quoted_loop l b = quoted_loop (snd (advance (snd (advance l)))) (b @ r)"
          using a1(1) a2(1) True c by (auto simp: quoted_loop.simps [of l] isDisallowedControl_def)
        then show ?thesis using IH [OF moved_trans [OF a1(2) a2(2)]] by simp
      next
        case False
        then have 1: "lx_rest l = c # ?tail t'" using src c by (simp add: escape_quoted_def)
        note a1 = advance_ascii [OF 1 c(2)]
        have "quoted_loop l b = quoted_loop (snd (advance l)) (b @ r)"
          using a1(1) False c by (simp add: quoted_loop.simps [of l])
        then show ?thesis using IH [OF a1(2)] by simp
      qed
    qed
  qed
qed

subsection \<open>Bare words\<close>

text \<open>A bare word ends in front of the end of the source, of white space and of a separator.\<close>

definition word_end :: "string \<Rightarrow> bool" where
  "word_end s \<longleftrightarrow> s = [] \<or> hd s \<in> {CHR '' '', CHR 0x09, CHR 0x0A, CHR 0x0D, CHR '';'', CHR ''}''}"

definition bare :: "string \<Rightarrow> bool" where
  "bare t \<longleftrightarrow> (t = [] \<or> last t \<noteq> backslash) \<and>
     list_all (\<lambda>c. c \<notin> {CHR '' '', CHR 0x09, CHR 0x0A, CHR 0x0D, CHR '';'', CHR ''{'', CHR ''}''}) t"

lemma bare_tail: "bare (r @ t) \<Longrightarrow> bare t"
  by (auto simp: bare_def)

lemma word_loop_end:
  assumes "word_end s" "lx_rest l = s"
  shows "word_loop l b = (b, l)"
proof (cases s)
  case Nil
  then show ?thesis using assms by (simp add: word_loop.simps [of l] peekRune_def decode_rune_def)
next
  case (Cons c s')
  then have "byte c < 128" using assms by (auto simp: word_end_def)
  then have "peekRune l = ([c], 1)" using advance_ascii(1) [of l c s'] assms Cons by simp
  then show ?thesis using assms Cons
    by (auto simp: word_loop.simps [of l] word_end_def is_space_rune_def isDisallowedControl_def)
qed

lemma word_loop_ok:
  assumes "plain t" "bare t" "word_end s" "lx_rest l = t @ s"
  shows "\<exists>l'. word_loop l b = (b @ t, l') \<and> moved l s l'"
  using assms
proof (induction "length t" arbitrary: t l b rule: less_induct)
  case less
  show ?case
  proof (cases "t = []")
    case True
    then show ?thesis using word_loop_end [OF less.prems(3)] less.prems(4) by (auto simp: moved_def)
  next
    case False
    obtain r t' where t: "t = r @ t'" and rl: "\<And>s. rune_len (r @ s) = length r" "r \<noteq> []" and pl: "plain t'"
      and kind: "(\<exists>c. r = [c] \<and> byte c < 128 \<and> \<not> isDisallowedControl [c]) \<or> multi r"
      using plain_step [OF less.prems(1) False] by metis
    have src: "lx_rest l = r @ t' @ s" using less.prems(4) t by simp
    note adv = advance_prefix [OF src rl(1) rl(2)]
    have IH: "\<exists>l'. word_loop (snd (advance l)) (b @ r) = (b @ t, l') \<and> moved l s l'"
      using less.hyps [of t' "snd (advance l)" "b @ r"] t rl(2) pl adv(2) less.prems(3) bare_tail less.prems(2)
        moved_rest [OF adv(2)] moved_trans [OF adv(2)] by fastforce
    have "word_loop l b = word_loop (snd (advance l)) (b @ r)"
    proof (cases "multi r")
      case True
      note o = multi_other [OF True rl(1) [of "[]"]]
      show ?thesis
        using adv(1) o(1,2) o(3) [of backslash] o(3) [of "CHR '';''"] o(3) [of "CHR ''}''"] o(3) [of "CHR ''{''"] rl(2)
        by (simp add: word_loop.simps [of l])
    next
      case False
      then obtain c where c: "r = [c]" "byte c < 128" "\<not> isDisallowedControl [c]" using kind by blast
      have cont: "\<not> isLineContinuation l" if "c = backslash"
      proof -
        have "t' \<noteq> []" using less.prems(2) t c that by (auto simp: bare_def)
        then obtain d t'' where d: "t' = d # t''" by (cases t') auto
        then have "d \<noteq> CHR 0x0A" "d \<noteq> CHR 0x0D" using less.prems(2) t by (auto simp: bare_def)
        then show ?thesis using src c d by (simp add: isLineContinuation_def HasPrefix_def)
      qed
      have "c \<notin> {CHR '' '', CHR 0x09, CHR 0x0A, CHR 0x0D, CHR '';'', CHR ''{'', CHR ''}''}"
        using less.prems(2) t c by (auto simp: bare_def)
      then show ?thesis using adv(1) c cont by (simp add: word_loop.simps [of l] is_space_rune_def)
    qed
    then show ?thesis using IH by simp
  qed
qed

subsection \<open>Runs of the lexer\<close>

definition tcore :: "Token \<Rightarrow> TokenKind \<times> string \<times> bool" where
  "tcore t = (tk_Kind t, tk_Text t, tk_Quoted t)"

text \<open>The lexer delivers tokens, given without their positions, on the way from one state to another.\<close>

inductive lexes :: "lexer \<Rightarrow> (TokenKind \<times> string \<times> bool) list \<Rightarrow> lexer \<Rightarrow> bool" where
  lexes_none: "lexes l [] l"
| lexes_more: "lexer_next l = Inr (t, m) \<Longrightarrow> tk_Kind t \<noteq> TokenEOF \<Longrightarrow> lexes m xs l' \<Longrightarrow> lexes l (tcore t # xs) l'"

lemma lexes_append: "lexes l xs m \<Longrightarrow> lexes m ys l' \<Longrightarrow> lexes l (xs @ ys) l'"
  by (induction rule: lexes.induct) (auto intro: lexes_more)

lemma lexes_one: "lexer_next l = Inr (t, m) \<Longrightarrow> tk_Kind t \<noteq> TokenEOF \<Longrightarrow> lexes l [tcore t] m"
  by (rule lexes_more [OF _ _ lexes_none])

lemma lexes_tokenize:
  assumes "lexes l xs l'" "lx_rest l' = []"
  shows "\<exists>ts e. tokenize_loop l acc = Inr (acc @ ts @ [e]) \<and> map tcore ts = xs \<and> tk_Kind e = TokenEOF"
  using assms
proof (induction arbitrary: acc rule: lexes.induct)
  case (lexes_none l)
  then show ?case
    by (auto simp: tokenize_loop.simps [of l] lexer_next.simps [of l] peekRune_def decode_rune_def lexer_mk_def mk_token_def
        split: prod.splits)
next
  case (lexes_more l t m xs l')
  from lexes_more.IH [OF lexes_more.prems, of "acc @ [t]"] obtain ts e where
    "tokenize_loop m (acc @ [t]) = Inr ((acc @ [t]) @ ts @ [e])" "map tcore ts = xs" "tk_Kind e = TokenEOF" by blast
  then show ?case using lexes_more.hyps
    by (intro exI [of _ "t # ts"] exI [of _ e]) (simp add: tokenize_loop.simps [of l])
qed

lemma lexes_space:
  assumes "lx_rest l = CHR '' '' # s" "lexes (snd (advance l)) xs l'" "xs \<noteq> []"
  shows "lexes l xs l'"
proof -
  have "peekRune l = ('' '', 1)" using advance_ascii(1) [OF assms(1)] by simp
  then have nx: "lexer_next l = lexer_next (snd (advance l))"
    by (subst lexer_next.simps) (simp add: isDisallowedControl_def)
  from assms(2) show ?thesis
  proof (cases rule: lexes.cases)
    case lexes_none
    with assms(3) show ?thesis by simp
  next
    case (lexes_more t m ys)
    with nx show ?thesis by (auto intro: lexes.lexes_more)
  qed
qed

lemma lexes_newline:
  assumes "lx_rest l = CHR 0x0A # s" "\<not> lx_atLineStart l"
  shows "\<exists>l'. lexes l [(TokenNewline, [], False)] l' \<and> lx_rest l' = s \<and> lx_atLineStart l'"
proof -
  have p: "peekRune l = (rNL, 1)" and m: "moved l s (snd (advance l))" using advance_ascii [OF assms(1)] by simp_all
  then have "lexer_next l = Inr (mk_token TokenNewline [] False 0 l, (snd (advance l))\<lparr>lx_atLineStart := True\<rparr>)"
    using assms(2) by (subst lexer_next.simps) (simp add: isDisallowedControl_def moved_def)
  from lexes_one [OF this] show ?thesis using moved_rest [OF m]
    by (intro exI [of _ "(snd (advance l))\<lparr>lx_atLineStart := True\<rparr>"]) (simp add: mk_token_def tcore_def)
qed

lemma lexes_brace:
  assumes src: "lx_rest l = c # s" and c: "c = CHR ''{'' \<and> (\<exists>s'. s = CHR 0x0A # s') \<or> c = CHR ''}''"
  shows "\<exists>l'. lexes l [(if c = CHR ''{'' then TokenOpenBrace else TokenCloseBrace, [c], False)] l' \<and> lx_rest l' = s \<and> \<not> lx_atLineStart l'"
proof -
  let ?k = "if c = CHR ''{'' then TokenOpenBrace else TokenCloseBrace"
  have small: "byte c < 128" using c by auto
  have p: "peekRune l = ([c], 1)" using advance_ascii(1) [OF src small] .
  have no: "\<not> looksLikePlaceholder l" if opn: "c = CHR ''{''"
  proof -
    obtain s' where s: "s = CHR 0x0A # s'" using c opn by auto
    have d: "decode_rune (CHR ''{'' # s) = (''{'', 1)" "decode_rune (CHR 0x0A # s') = (rNL, 1)"
      using rune_ascii [of "CHR ''{''" s] rune_ascii [of "CHR 0x0A" s'] by (simp_all add: decode_rune_def)
    have "placeholder_scan (CHR ''{'' # s) 0 = placeholder_scan s 1"
      by (subst placeholder_scan.simps) (simp add: d isDisallowedControl_def is_space_rune_def)
    also have "\<not> placeholder_scan s 1"
      unfolding s by (subst placeholder_scan.simps) (simp add: d isDisallowedControl_def is_space_rune_def)
    finally show ?thesis using src opn by (simp add: looksLikePlaceholder_def)
  qed
  have nx: "lexer_next l = Inr (punct ?k [c] l)"
    using p no c by (subst lexer_next.simps) (auto simp: isDisallowedControl_def)
  obtain t m where pm: "punct ?k [c] l = (t, m)" by fastforce
  have "tcore t = (?k, [c], False)" "\<not> lx_atLineStart m" "lx_rest m = s"
    using pm moved_rest [OF advance_ascii(2) [of "snd (takeBlank l)" c s]] src small
    by (auto simp: punct_def mk_token_def tcore_def split: prod.splits)
  then show ?thesis using lexes_one [OF nx [unfolded pm]] by (auto simp: tcore_def)
qed

lemma needsQuoting_bare: "\<not> needsQuoting t \<Longrightarrow> IndexByte t (CHR ''{'') < 0 \<Longrightarrow> IndexByte t (CHR ''}'') < 0 \<Longrightarrow>
    bare t \<and> t \<noteq> [] \<and> hd t \<noteq> CHR ''#'' \<and> dquote \<notin> set t"
  by (auto simp: needsQuoting_def bare_def list_ex_iff list_all_iff IndexByte_def split: if_splits)

text \<open>A word that \<open>QuoteArg\<close> writes is one token with the text of the word.\<close>

definition quoted_arg :: "string \<Rightarrow> bool" where
  "quoted_arg t \<longleftrightarrow> needsQuoting t \<or> CHR ''{'' \<in> set t \<or> CHR ''}'' \<in> set t"

lemma QuoteArg_alt: "QuoteArg t = (if quoted_arg t then quote t else t)"
  by (simp add: QuoteArg_def quoted_arg_def IndexByte_def)

lemma lexes_quoted:
  assumes src: "lx_rest l = quote t @ s" and t: "plain t"
  shows "\<exists>l'. lexes l [(TokenWord, t, True)] l' \<and> lx_rest l' = s \<and> \<not> lx_atLineStart l'"
proof -
  let ?l = "snd (takeBlank l)"
  have src': "lx_rest l = dquote # escape_quoted t @ dquote # s" using src by (simp add: quote_def)
  have p: "peekRune l = ([dquote], 1)" using advance_ascii(1) [OF src'] by simp
  have "moved ?l (escape_quoted t @ dquote # s) (snd (advance ?l))" using advance_ascii(2) [of ?l dquote] src' by simp
  then obtain l1 where q: "quoted_loop (snd (advance ?l)) [] = Inr (t, l1)" and r: "lx_rest l1 = s"
    using quoted_loop_ok [OF t, of "snd (advance ?l)" s "[]"] by (auto simp: moved_def)
  have "lexer_next l = lexQuoted l"
    using p by (subst lexer_next.simps) (simp add: isDisallowedControl_def)
  also have "\<dots> = Inr (mk_token TokenWord t True (fst (takeBlank l)) l, l1\<lparr>lx_atLineStart := False\<rparr>)"
    using q by (auto simp: lexQuoted_def Let_def split: prod.splits)
  finally have "lexes l [tcore (mk_token TokenWord t True (fst (takeBlank l)) l)] (l1\<lparr>lx_atLineStart := False\<rparr>)"
    by (rule lexes_one) (simp add: mk_token_def)
  then show ?thesis using r by (auto simp: mk_token_def tcore_def)
qed

lemma lexes_bare:
  assumes src: "lx_rest l = t @ s" and t: "plain t" "\<not> quoted_arg t" and s: "word_end s"
  shows "\<exists>l'. lexes l [(TokenWord, t, False)] l' \<and> lx_rest l' = s \<and> \<not> lx_atLineStart l'"
proof -
  let ?l = "snd (takeBlank l)"
  have b: "bare t" "t \<noteq> []" "hd t \<noteq> CHR ''#''" "dquote \<notin> set t"
    using needsQuoting_bare [of t] t(2) by (simp_all add: quoted_arg_def IndexByte_def)
  obtain l1 where q: "word_loop ?l [] = (t, l1)" and r: "lx_rest l1 = s"
    using word_loop_ok [OF t(1) b(1) s, of ?l "[]"] src by (auto simp: moved_def)
  obtain c where c: "peekRune l = (c, length c)" "c \<noteq> []"
      "(\<exists>x. c = [x] \<and> byte x < 128 \<and> \<not> isDisallowedControl [x] \<and> x = hd t) \<or> multi c" "rune_len (c @ []) = length c"
  proof -
    obtain r t' where t': "t = r @ t'" and rl: "\<And>s. rune_len (r @ s) = length r" "r \<noteq> []"
      and kind: "(\<exists>c. r = [c] \<and> byte c < 128 \<and> \<not> isDisallowedControl [c]) \<or> multi r"
      using plain_step [OF t(1) b(2)] by metis
    have "peekRune l = (r, length r)" using advance_prefix(1) [of l r "t' @ s"] src t' rl by simp
    then show ?thesis using that [of r] rl(1) [of "[]"] rl(2) kind t' by auto
  qed
  have "lexer_next l = Inr (lexWord l)"
  proof (cases "multi c")
    case True
    note o = multi_other [OF True c(4)]
    show ?thesis using c(1,2) o(1,2) o(3) [of backslash] o(3) [of "CHR ''#''"] o(3) [of "CHR ''{''"] o(3) [of "CHR ''}''"]
        o(3) [of "CHR '';''"] o(3) [of dquote] by (subst lexer_next.simps) (simp add: is_space_rune_def)
  next
    case False
    then obtain x where x: "c = [x]" "\<not> isDisallowedControl [x]" "x = hd t" using c(3) by blast
    have mem: "x \<notin> {CHR '' '', CHR 0x09, CHR 0x0A, CHR 0x0D, CHR '';'', CHR ''{'', CHR ''}''}" "x \<noteq> CHR ''#''" "x \<noteq> dquote"
    proof -
      have "x \<in> set t" using x(3) b(2) by simp
      then show "x \<notin> {CHR '' '', CHR 0x09, CHR 0x0A, CHR 0x0D, CHR '';'', CHR ''{'', CHR ''}''}" "x \<noteq> dquote"
        using b(1,4) unfolding bare_def list_all_iff by blast+
    qed (use b(3) x(3) in simp)
    have cont: "\<not> isLineContinuation l" if bs: "x = backslash"
    proof -
      obtain d u where d: "t = x # d # u" using b x bs by (cases t; cases "tl t") (auto simp: bare_def)
      then have "d \<noteq> CHR 0x0A" "d \<noteq> CHR 0x0D" using b by (auto simp: bare_def)
      then show ?thesis using src d by (simp add: isLineContinuation_def HasPrefix_def)
    qed
    show ?thesis using c(1) x(1,2) mem cont by (subst lexer_next.simps) simp
  qed
  also have "lexWord l = (mk_token TokenWord t False (fst (takeBlank l)) l, l1\<lparr>lx_atLineStart := False\<rparr>)"
    using q by (auto simp: lexWord_def split: prod.splits)
  finally have "lexes l [tcore (mk_token TokenWord t False (fst (takeBlank l)) l)] (l1\<lparr>lx_atLineStart := False\<rparr>)"
    by (rule lexes_one) (simp add: mk_token_def)
  then show ?thesis using r by (auto simp: mk_token_def tcore_def)
qed

lemma lexes_arg:
  assumes "lx_rest l = QuoteArg t @ s" "plain t" "word_end s"
  shows "\<exists>l'. lexes l [(TokenWord, t, quoted_arg t)] l' \<and> lx_rest l' = s \<and> \<not> lx_atLineStart l'"
  using assms lexes_quoted [of l t s] lexes_bare [of l t s] by (cases "quoted_arg t") (simp_all add: QuoteArg_alt)

end
