(* ===== verification/CadishParse.thy ===== *)
theory CadishParse
  imports CadishLex
begin

text \<open>
  The parser of the configuration language, \<open>internal/cadishfile/parse.go\<close> and \<open>ast.go\<close>. The parser keeps the
  tokens from its position on; the last token is the end of the file and is never passed. A block of a
  directive is a list of statements, so the parsers of a block, a statement and a directive call each
  other; they are total because a statement takes at least one token.
\<close>

subsection \<open>The syntax tree\<close>

record Pos =
  ps_File :: string
  ps_Line :: nat
  ps_Col :: nat

datatype ArgKind = ArgLiteral | ArgMatcherRef | ArgPlaceholder

record Arg =
  ar_Raw :: string
  ar_Quoted :: bool
  ar_Kind :: ArgKind
  ar_Pos :: Pos

datatype Node =
    MatcherDef (md_Name: string) (md_Type: string) (nd_Args: "Arg list") (nd_Pos: Pos)
  | Directive (di_Name: string) (nd_Args: "Arg list") (di_Block: "Node list") (di_HasBlock: bool) (nd_Pos: Pos)

record Options =
  op_Body :: "Node list"
  op_Pos :: Pos

record Site =
  si_Addresses :: "string list"
  si_Body :: "Node list"
  si_Pos :: Pos

record File =
  fl_Global :: "Options option"
  fl_Sites :: "Site list"
  fl_Body :: "Node list"

text \<open>An open brace that no backslash escapes.\<close>

fun containsPlaceholder :: "string \<Rightarrow> bool" where
  "containsPlaceholder [] = False"
| "containsPlaceholder [c] = (c = CHR ''{'')"
| "containsPlaceholder (c # d # s) =
     (if c = backslash then containsPlaceholder s
      else if c = CHR ''{'' then True
      else containsPlaceholder (d # s))"

definition classifyArg :: "string \<Rightarrow> bool \<Rightarrow> ArgKind" where
  "classifyArg text quoted =
     (if quoted then ArgLiteral
      else if HasPrefix text ''@'' \<and> length text > 1 then ArgMatcherRef
      else if containsPlaceholder text then ArgPlaceholder
      else ArgLiteral)"

subsection \<open>Tokens\<close>

definition maxBlockDepth :: nat where "maxBlockDepth = 1000"

definition eof_token :: Token where
  "eof_token = \<lparr>tk_Kind = TokenEOF, tk_Text = [], tk_File = [], tk_Line = 0, tk_Col = 0, tk_Quoted = False, tk_BlankBefore = 0\<rparr>"

definition cur :: "Token list \<Rightarrow> Token" where
  "cur ts = (case ts of [] \<Rightarrow> eof_token | t # _ \<Rightarrow> t)"

definition parser_next :: "Token list \<Rightarrow> Token list" where
  "parser_next ts = (if tk_Kind (cur ts) \<noteq> TokenEOF then tl ts else ts)"

definition errf :: "string \<Rightarrow> Token \<Rightarrow> parse_msg \<Rightarrow> ParseError" where
  "errf file t msg = \<lparr>pe_File = file, pe_Line = tk_Line t, pe_Col = tk_Col t, pe_Msg = msg\<rparr>"

definition tokPos :: "string \<Rightarrow> Token \<Rightarrow> Pos" where
  "tokPos file t = \<lparr>ps_File = file, ps_Line = tk_Line t, ps_Col = tk_Col t\<rparr>"

definition skipSeparators :: "Token list \<Rightarrow> Token list" where
  "skipSeparators ts = dropWhile (\<lambda>t. tk_Kind t \<in> {TokenNewline, TokenSemicolon, TokenComment}) ts"

definition isArgToken :: "Token \<Rightarrow> bool" where
  "isArgToken t \<longleftrightarrow> tk_Kind t = TokenWord"

definition expectStatementEnd :: "string \<Rightarrow> Token list \<Rightarrow> ParseError + Token list" where
  "expectStatementEnd file ts =
     (let t = cur ts in
      case tk_Kind t of
        TokenNewline \<Rightarrow> Inr (parser_next ts)
      | TokenSemicolon \<Rightarrow> Inr (parser_next ts)
      | TokenComment \<Rightarrow> Inr (parser_next ts)
      | TokenCloseBrace \<Rightarrow> Inr ts
      | TokenEOF \<Rightarrow> Inr ts
      | _ \<Rightarrow> Inl (errf file t AfterStatement))"

definition mk_arg :: "string \<Rightarrow> Token \<Rightarrow> Arg" where
  "mk_arg file t =
     \<lparr>ar_Raw = tk_Text t, ar_Quoted = tk_Quoted t, ar_Kind = classifyArg (tk_Text t) (tk_Quoted t), ar_Pos = tokPos file t\<rparr>"

fun parseArgs :: "string \<Rightarrow> Token list \<Rightarrow> Arg list \<times> Token list" where
  "parseArgs file [] = ([], [])"
| "parseArgs file (t # ts) =
     (if tk_Kind t = TokenWord then let (args, rest) = parseArgs file ts in (mk_arg file t # args, rest)
      else ([], t # ts))"

definition parseMatcherDef :: "string \<Rightarrow> Token list \<Rightarrow> ParseError + Node \<times> Token list" where
  "parseMatcherDef file ts =
     (let nameTok = cur ts; ts = parser_next ts;
          name = (if HasPrefix (tk_Text nameTok) ''@'' then drop 1 (tk_Text nameTok) else tk_Text nameTok)
      in if name = [] then Inl (errf file nameTok EmptyMatcherName)
         else
           let tt = cur ts in
           if \<not> isArgToken tt then Inl (errf file nameTok MissingType)
           else if tk_Quoted tt \<or> HasPrefix (tk_Text tt) ''@'' \<or> containsPlaceholder (tk_Text tt) \<or> needsQuoting (tk_Text tt)
             then Inl (errf file tt TypeNotBare)
           else
             let (args, ts) = parseArgs file (parser_next ts) in
             if tk_Kind (cur ts) = TokenOpenBrace then Inl (errf file (cur ts) MatcherBlock)
             else
               case expectStatementEnd file ts of
                 Inl e \<Rightarrow> Inl e
               | Inr ts \<Rightarrow> Inr (MatcherDef name (tk_Text tt) args (tokPos file nameTok), ts))"

text \<open>The parsers return fewer tokens than they are given.\<close>

lemma parser_next_le: "length (parser_next ts) \<le> length ts"
  by (simp add: parser_next_def)

lemma parser_next_less: "tk_Kind (cur ts) \<noteq> TokenEOF \<Longrightarrow> length (parser_next ts) < length ts"
  by (cases ts) (simp_all add: parser_next_def cur_def eof_token_def)

lemma skipSeparators_le: "length (skipSeparators ts) \<le> length ts"
  by (simp add: skipSeparators_def length_dropWhile_le)

lemma parseArgs_le: "parseArgs file ts = (args, rest) \<Longrightarrow> length rest \<le> length ts"
  by (induction ts arbitrary: args rest) (auto simp: le_SucI split: if_splits prod.splits)

lemma expectStatementEnd_le: "expectStatementEnd file ts = Inr rest \<Longrightarrow> length rest \<le> length ts"
  using parser_next_le [of ts] by (auto simp: expectStatementEnd_def Let_def split: TokenKind.splits)

lemma parseMatcherDef_less:
  assumes "parseMatcherDef file ts = Inr (n, rest)" "tk_Kind (cur ts) \<noteq> TokenEOF"
  shows "length rest < length ts"
proof -
  obtain args us where a: "parseArgs file (parser_next (parser_next ts)) = (args, us)" and e: "expectStatementEnd file us = Inr rest"
    using assms(1) by (auto simp: parseMatcherDef_def Let_def split: if_splits prod.splits sum.splits)
  show ?thesis
    using expectStatementEnd_le [OF e] parseArgs_le [OF a] parser_next_le [of "parser_next ts"] parser_next_less [OF assms(2)]
    by linarith
qed

subsection \<open>Statements and blocks\<close>

function parse_block :: "string \<Rightarrow> nat \<Rightarrow> Token \<Rightarrow> Node list \<Rightarrow> Token list \<Rightarrow> ParseError + Node list \<times> Token list"
  and parseBlockBody :: "string \<Rightarrow> nat \<Rightarrow> Token \<Rightarrow> Token list \<Rightarrow> ParseError + Node list \<times> Token list"
  and parseStatement :: "string \<Rightarrow> nat \<Rightarrow> Token list \<Rightarrow> ParseError + Node \<times> Token list"
  and parseDirective :: "string \<Rightarrow> nat \<Rightarrow> Token list \<Rightarrow> ParseError + Node \<times> Token list"
where
  "parse_block file depth opn body ts =
     (if tk_Kind (cur (skipSeparators ts)) = TokenCloseBrace then Inr (body, parser_next (skipSeparators ts))
      else if tk_Kind (cur (skipSeparators ts)) = TokenEOF then Inl (errf file opn UnterminatedBlock)
      else
        case parseStatement file depth (skipSeparators ts) of
          Inl e \<Rightarrow> Inl e
        | Inr (stmt, ts') \<Rightarrow> parse_block file depth opn (body @ [stmt]) ts')"
| "parseBlockBody file depth opn ts =
     (if depth + 1 > maxBlockDepth then Inl (errf file opn NestingTooDeep)
      else parse_block file (depth + 1) opn [] ts)"
| "parseStatement file depth ts =
     (if tk_Kind (cur ts) \<noteq> TokenWord then Inl (errf file (cur ts) ExpectedName)
      else if \<not> tk_Quoted (cur ts) \<and> HasPrefix (tk_Text (cur ts)) ''@'' then parseMatcherDef file ts
      else parseDirective file depth ts)"
| "parseDirective file depth ts =
     (case parseArgs file (parser_next ts) of
        (args, ts') \<Rightarrow>
          if tk_Kind (cur ts') = TokenOpenBrace then
            (case parseBlockBody file depth (cur ts') (parser_next ts') of
               Inl e \<Rightarrow> Inl e
             | Inr (block, ts'') \<Rightarrow>
                 (case expectStatementEnd file ts'' of
                    Inl e \<Rightarrow> Inl e
                  | Inr rest \<Rightarrow> Inr (Directive (tk_Text (cur ts)) args block True (tokPos file (cur ts)), rest)))
          else
            (case expectStatementEnd file ts' of
               Inl e \<Rightarrow> Inl e
             | Inr rest \<Rightarrow> Inr (Directive (tk_Text (cur ts)) args [] False (tokPos file (cur ts)), rest)))"
  by pat_completeness auto
termination
proof (relation "inv_image (less_than <*lex*> less_than) (\<lambda>x. case x of
      Inl (Inl (fl, depth, opn, body, ts)) \<Rightarrow> (length ts, 3 :: nat)
    | Inl (Inr (fl, depth, opn, ts)) \<Rightarrow> (length ts, 4)
    | Inr (Inl (fl, depth, ts)) \<Rightarrow> (length ts, 2)
    | Inr (Inr (fl, depth, ts)) \<Rightarrow> (length ts, 1))", goal_cases)
  case (2 fl depth opn body ts)
  then show ?case using skipSeparators_le [of ts] by auto
next
  case (3 fl0 depth0 opn0 body0 ts0 x stmt0 us0)
  have shrinks:
    "parse_block_parseBlockBody_parseStatement_parseDirective_dom (Inl (Inl (fl, depth, opn, body, ts))) \<Longrightarrow>
       parse_block fl depth opn body ts = Inr (ns, rest) \<Longrightarrow> length rest \<le> length ts"
    "parse_block_parseBlockBody_parseStatement_parseDirective_dom (Inl (Inr (fl, depth, opn, ts))) \<Longrightarrow>
       parseBlockBody fl depth opn ts = Inr (ns, rest) \<Longrightarrow> length rest \<le> length ts"
    "parse_block_parseBlockBody_parseStatement_parseDirective_dom (Inr (Inl (fl, depth, ts))) \<Longrightarrow>
       parseStatement fl depth ts = Inr (n, rest) \<Longrightarrow> length rest < length ts"
    "parse_block_parseBlockBody_parseStatement_parseDirective_dom (Inr (Inr (fl, depth, ts))) \<Longrightarrow>
       tk_Kind (cur ts) \<noteq> TokenEOF \<Longrightarrow> parseDirective fl depth ts = Inr (n, rest) \<Longrightarrow> length rest < length ts"
    for fl depth opn body ts ns n rest
  proof (induction arbitrary: ns rest and ns rest and n rest and n rest
      rule: parse_block_parseBlockBody_parseStatement_parseDirective.pinduct)
    case (1 fl depth opn body ts)
    have sk: "length (skipSeparators ts) \<le> length ts" by (rule skipSeparators_le)
    show ?case
    proof (cases "tk_Kind (cur (skipSeparators ts)) = TokenCloseBrace")
      case True
      then show ?thesis using "1.prems" "1.hyps" sk parser_next_le [of "skipSeparators ts"]
        by (simp add: parse_block.psimps)
    next
      case False
      then obtain stmt us where st: "parseStatement fl depth (skipSeparators ts) = Inr (stmt, us)"
        and b: "parse_block fl depth opn (body @ [stmt]) us = Inr (ns, rest)"
        and ne: "tk_Kind (cur (skipSeparators ts)) \<noteq> TokenEOF"
        using "1.prems" "1.hyps" by (auto simp: parse_block.psimps split: if_splits sum.splits)
      have "length us < length (skipSeparators ts)" using "1.IH"(1) [OF False ne st] .
      moreover have "length rest \<le> length us" using "1.IH"(2) [OF False ne st refl b] .
      ultimately show ?thesis using sk by linarith
    qed
  next
    case (2 fl depth opn ts)
    then show ?case by (simp add: parseBlockBody.psimps split: if_splits)
  next
    case (3 fl depth ts)
    then show ?case using parseMatcherDef_less [of fl ts n rest] by (simp add: parseStatement.psimps split: if_splits)
  next
    case (4 fl depth ts)
    obtain args us where a: "parseArgs fl (parser_next ts) = (args, us)" by fastforce
    have lt: "length us < length ts" using parseArgs_le [OF a] parser_next_less "4.prems"(1) by fastforce
    show ?case
    proof (cases "tk_Kind (cur us) = TokenOpenBrace")
      case True
      then obtain block vs where b: "parseBlockBody fl depth (cur us) (parser_next us) = Inr (block, vs)"
        and e: "expectStatementEnd fl vs = Inr rest"
        using "4.prems" "4.hyps" a by (auto simp: parseDirective.psimps split: sum.splits)
      show ?thesis
        using "4.IH" [OF a [symmetric] True b] expectStatementEnd_le [OF e] parser_next_le [of us] lt by linarith
    next
      case False
      then show ?thesis using "4.prems" "4.hyps" a lt
        by (auto simp: parseDirective.psimps dest!: expectStatementEnd_le split: sum.splits)
    qed
  qed
  show ?case using 3 skipSeparators_le [of ts0] shrinks(3) [of fl0 depth0 "skipSeparators ts0" stmt0 us0] by simp
next
  case (6 fl depth ts args us)
  then have "length us \<le> length (parser_next ts)" using parseArgs_le [of fl "parser_next ts" args us] by simp
  moreover have "length (parser_next us) < length us" using 6 parser_next_less [of us] by simp
  ultimately show ?case using parser_next_le [of ts] by simp
qed auto

declare parse_block.simps [simp del] parseBlockBody.simps [simp del] parseStatement.simps [simp del] parseDirective.simps [simp del]

lemma parse_shrinks:
  "parse_block fl d opn body ts = Inr (ns, rest) \<Longrightarrow> length rest \<le> length ts"
  "parseBlockBody fl d opn ts = Inr (ns, rest) \<Longrightarrow> length rest \<le> length ts"
  "parseStatement fl d ts = Inr (n, rest) \<Longrightarrow> length rest < length ts"
  "parseDirective fl d ts = Inr (n, rest) \<Longrightarrow> tk_Kind (cur ts) \<noteq> TokenEOF \<longrightarrow> length rest < length ts"
proof (induction fl d opn body ts and fl d opn ts and fl d ts and fl d ts
    arbitrary: ns rest and ns rest and n rest and n rest
    rule: parse_block_parseBlockBody_parseStatement_parseDirective.induct)
  case (1 fl d opn body ts)
  then show ?case using skipSeparators_le [of ts] parser_next_le [of "skipSeparators ts"]
    by (fastforce simp: parse_block.simps [of fl d opn body ts] split: if_splits sum.splits)
next
  case (2 fl d opn ts)
  then show ?case by (simp add: parseBlockBody.simps split: if_splits)
next
  case (3 fl d ts)
  then show ?case using parseMatcherDef_less [of fl ts n rest] by (simp add: parseStatement.simps [of fl d ts] split: if_splits)
next
  case (4 fl d ts)
  obtain args us where a: "parseArgs fl (parser_next ts) = (args, us)" by fastforce
  have "length us < length ts" if "tk_Kind (cur ts) \<noteq> TokenEOF" using parseArgs_le [OF a] parser_next_less [OF that] by linarith
  then show ?case using 4 a parser_next_le [of us]
    by (fastforce simp: parseDirective.simps [of fl d ts] dest!: expectStatementEnd_le split: if_splits sum.splits)
qed

lemmas parseStatement_less = parse_shrinks(3) and parseBlockBody_le = parse_shrinks(2)

subsection \<open>Fragments\<close>

function fragment_loop :: "string \<Rightarrow> Node list \<Rightarrow> Token list \<Rightarrow> ParseError + Node list" where
  "fragment_loop fl body ts =
     (let ts = skipSeparators ts; t = cur ts in
      if tk_Kind t = TokenEOF then Inr body
      else if tk_Kind t = TokenCloseBrace then Inl (errf fl t UnexpectedClose)
      else
        case parseStatement fl 0 ts of
          Inl e \<Rightarrow> Inl e
        | Inr (stmt, ts') \<Rightarrow> fragment_loop fl (body @ [stmt]) ts')"
  by pat_completeness auto
termination
  by (relation "measure (\<lambda>(fl, body, ts). length ts)")
     (auto dest!: parseStatement_less intro: less_le_trans [OF _ skipSeparators_le])

declare fragment_loop.simps [simp del]

definition parseFragmentBody :: "string \<Rightarrow> Token list \<Rightarrow> ParseError + Node list" where
  "parseFragmentBody fl ts = fragment_loop fl [] ts"

definition ParseFragment :: "string \<Rightarrow> string \<Rightarrow> ParseError + Node list" where
  "ParseFragment filename src =
     (case tokenize filename src of Inl e \<Rightarrow> Inl e | Inr toks \<Rightarrow> parseFragmentBody filename toks)"

subsection \<open>Site headers\<close>

definition hostname_char :: "char \<Rightarrow> bool" where
  "hostname_char c \<longleftrightarrow> 97 \<le> byte c \<and> byte c \<le> 122 \<or> 65 \<le> byte c \<and> byte c \<le> 90 \<or> is_digit c \<or> c \<in> {CHR ''.'', CHR ''-'', CHR ''_''}"

definition isAddressToken :: "string \<Rightarrow> bool" where
  "isAddressToken text =
     (let text = TrimSuffix text '','' in
      if text = [] then True
      else if HasPrefix text '':'' then tl text \<noteq> [] \<and> list_all is_digit (tl text)
      else
        let text = (case StrIndex text ''://'' of None \<Rightarrow> text | Some i \<Rightarrow> drop (i + 3) text);
            text = takeWhile (\<lambda>c. c \<notin> {CHR ''/'', CHR ''?'', CHR ''#''}) text;
            text = (if HasPrefix text ''*.'' then drop 2 text else text)
        in if text = [] then False
           else if HasPrefix text ''['' then CHR '']'' \<in> set text
           else
             let text = (case LastIndexByte text (CHR '':'') of None \<Rightarrow> text | Some i \<Rightarrow> take i text)
             in text \<noteq> [] \<and> list_all hostname_char text)"

definition neverDirectiveShaped :: "string \<Rightarrow> bool" where
  "neverDirectiveShaped text =
     (if StrIndex text ''://'' \<noteq> None then True
      else if HasPrefix text ''['' then True
      else if HasPrefix text '':'' then tl text \<noteq> [] \<and> list_all is_digit (tl text)
      else False)"

definition clearlyHostnameShaped :: "string \<Rightarrow> bool" where
  "clearlyHostnameShaped text =
     (let text = TrimSuffix text '','' in
      neverDirectiveShaped text \<or>
      isAddressToken text \<and> (CHR ''.'' \<in> set text \<or> text = ''localhost'' \<or> CHR '':'' \<in> set text))"

fun site_scan :: "bool \<Rightarrow> Token list \<Rightarrow> bool" where
  "site_scan addrList [] = False"
| "site_scan addrList (t # ts) =
     (case tk_Kind t of
        TokenOpenBrace \<Rightarrow> True
      | TokenWord \<Rightarrow>
          site_scan (if tk_Quoted t \<or> \<not> isAddressToken (tk_Text t) \<or> \<not> HasSuffix (tk_Text t) '','' then False else addrList) ts
      | TokenComment \<Rightarrow> site_scan addrList ts
      | TokenNewline \<Rightarrow> if addrList then site_scan addrList ts else False
      | _ \<Rightarrow> False)"

definition startsSiteBlock :: "Token list \<Rightarrow> bool" where
  "startsSiteBlock ts =
     (let first = cur ts in
      if tk_Kind first = TokenWord \<and> \<not> tk_Quoted first \<and> HasPrefix (tk_Text first) ''@'' then False
      else site_scan True ts)"

fun wrap_scan :: "nat \<Rightarrow> bool \<Rightarrow> Token list \<Rightarrow> bool" where
  "wrap_scan clearCount sawSep [] = False"
| "wrap_scan clearCount sawSep (t # ts) =
     (case tk_Kind t of
        TokenWord \<Rightarrow>
          if tk_Quoted t \<or> \<not> isAddressToken (tk_Text t) then False
          else wrap_scan (if clearlyHostnameShaped (tk_Text t) then clearCount + 1 else clearCount) sawSep ts
      | TokenNewline \<Rightarrow> wrap_scan clearCount True ts
      | TokenSemicolon \<Rightarrow> wrap_scan clearCount True ts
      | TokenComment \<Rightarrow> wrap_scan clearCount sawSep ts
      | TokenOpenBrace \<Rightarrow> sawSep \<and> clearCount \<ge> 2
      | _ \<Rightarrow> False)"

definition unseparatedAddrWrap :: "Token list \<Rightarrow> bool" where
  "unseparatedAddrWrap ts =
     (let first = cur ts in
      if tk_Kind first \<noteq> TokenWord \<or> tk_Quoted first \<or> HasPrefix (tk_Text first) ''@'' then False
      else if \<not> clearlyHostnameShaped (tk_Text first) then False
      else wrap_scan 0 False ts)"

definition splitAddressToken :: "string \<Rightarrow> string list" where
  "splitAddressToken text =
     (if CHR '','' \<notin> set text then [text]
      else filter (\<lambda>p. p \<noteq> []) (map TrimSpace (Split (CHR '','') text)))"

subsection \<open>Files\<close>

fun site_loop :: "string \<Rightarrow> Pos \<Rightarrow> string list \<Rightarrow> Token list \<Rightarrow> ParseError + Site \<times> Token list" where
  "site_loop fl pos addrs [] = Inl (errf fl eof_token UnexpectedEOF)"
| "site_loop fl pos addrs (t # ts) =
     (case tk_Kind t of
        TokenOpenBrace \<Rightarrow>
          (if addrs = [] then Inl (errf fl t NoAddress)
           else
             case parseBlockBody fl 0 t ts of
               Inl e \<Rightarrow> Inl e
             | Inr (body, rest) \<Rightarrow> Inr (\<lparr>si_Addresses = addrs, si_Body = body, si_Pos = pos\<rparr>, rest))
      | TokenWord \<Rightarrow> site_loop fl pos (addrs @ splitAddressToken (tk_Text t)) ts
      | TokenNewline \<Rightarrow> site_loop fl pos addrs ts
      | TokenComment \<Rightarrow> site_loop fl pos addrs ts
      | TokenEOF \<Rightarrow> Inl (errf fl t UnexpectedEOF)
      | TokenCloseBrace \<Rightarrow> Inl (errf fl t UnexpectedClose)
      | TokenSemicolon \<Rightarrow> Inl (errf fl t UnexpectedInAddress))"

definition parseSite :: "string \<Rightarrow> Token list \<Rightarrow> ParseError + Site \<times> Token list" where
  "parseSite fl ts = site_loop fl (tokPos fl (cur ts)) [] ts"

definition parseGlobalOptions :: "string \<Rightarrow> Token list \<Rightarrow> ParseError + Options \<times> Token list" where
  "parseGlobalOptions fl ts =
     (case parseBlockBody fl 0 (cur ts) (parser_next ts) of
        Inl e \<Rightarrow> Inl e
      | Inr (body, rest) \<Rightarrow> Inr (\<lparr>op_Body = body, op_Pos = tokPos fl (cur ts)\<rparr>, rest))"

lemma site_loop_less: "site_loop fl pos addrs ts = Inr (s, rest) \<Longrightarrow> length rest < length ts"
  by (induction fl pos addrs ts rule: site_loop.induct)
     (auto split: TokenKind.splits if_splits sum.splits prod.splits dest!: parseBlockBody_le intro: le_imp_less_Suc)

function file_loop :: "string \<Rightarrow> File \<Rightarrow> Token list \<Rightarrow> ParseError + File" where
  "file_loop fl f ts =
     (if tk_Kind (cur ts) = TokenEOF then Inr f
      else if tk_Kind (cur ts) = TokenCloseBrace then Inl (errf fl (cur ts) UnexpectedClose)
      else if startsSiteBlock ts then
        (case parseSite fl ts of
           Inl e \<Rightarrow> Inl e
         | Inr (site, rest) \<Rightarrow> file_loop fl (f\<lparr>fl_Sites := fl_Sites f @ [site]\<rparr>) (skipSeparators rest))
      else if unseparatedAddrWrap ts then Inl (errf fl (cur ts) SiteListWraps)
      else
        (case parseStatement fl 0 ts of
           Inl e \<Rightarrow> Inl e
         | Inr (stmt, rest) \<Rightarrow> file_loop fl (f\<lparr>fl_Body := fl_Body f @ [stmt]\<rparr>) (skipSeparators rest)))"
  by pat_completeness auto
termination
  by (relation "measure (\<lambda>(fl, f, ts). length ts)")
     (auto simp: parseSite_def dest!: parseStatement_less site_loop_less intro: le_less_trans [OF skipSeparators_le])

declare file_loop.simps [simp del]

definition parseFile :: "string \<Rightarrow> Token list \<Rightarrow> ParseError + File" where
  "parseFile fl ts =
     (let f = \<lparr>fl_Global = None, fl_Sites = [], fl_Body = []\<rparr>; ts = skipSeparators ts in
      if tk_Kind (cur ts) = TokenOpenBrace then
        (case parseGlobalOptions fl ts of
           Inl e \<Rightarrow> Inl e
         | Inr (opts, rest) \<Rightarrow> file_loop fl (f\<lparr>fl_Global := Some opts\<rparr>) (skipSeparators rest))
      else file_loop fl f ts)"

definition Parse :: "string \<Rightarrow> string \<Rightarrow> ParseError + File" where
  "Parse filename src = (case tokenize filename src of Inl e \<Rightarrow> Inl e | Inr toks \<Rightarrow> parseFile filename toks)"

end
