(* ===== verification/CadishGen.thy ===== *)
theory CadishGen
  imports CadishQuote CadishParse
begin

text \<open>
  Generated configuration text. The Kubernetes controllers write statements whose words come from users
  through \<open>QuoteArg\<close> (\<open>internal/cadishfile/format.go\<close>). The lexer and the parser read every such text back as
  the statements it was written from, so that no word can leave its statement or its block.
\<close>

subsection \<open>Statements and their text\<close>

datatype shape = SMatcher string string "string list" | SLine string "string list" | SBlock string "string list" "shape list"

fun shape_of :: "Node \<Rightarrow> shape" where
  "shape_of (MatcherDef name ty args pos) = SMatcher name ty (map ar_Raw args)"
| "shape_of (Directive name args block hasBlock pos) =
     (if hasBlock then SBlock name (map ar_Raw args) (map shape_of block) else SLine name (map ar_Raw args))"

definition gen_words :: "string list \<Rightarrow> string" where
  "gen_words ws = Join '' '' (map QuoteArg ws)"

fun gen :: "shape \<Rightarrow> string" where
  "gen (SMatcher name ty args) = gen_words ((''@'' @ name) # ty # args) @ rNL"
| "gen (SLine name args) = gen_words (name # args) @ rNL"
| "gen (SBlock name args block) = gen_words (name # args) @ '' {'' @ rNL @ concat (map gen block) @ ''}'' @ rNL"

text \<open>What a generator must take care of: names of matchers and their types are bare words, the name of a
  directive is not that of a matcher, and no word has a control character or is ill-formed.\<close>

fun gen_ok :: "shape \<Rightarrow> bool" where
  "gen_ok (SMatcher name ty args) \<longleftrightarrow>
     name \<noteq> [] \<and> \<not> quoted_arg (''@'' @ name) \<and> \<not> quoted_arg ty \<and> \<not> HasPrefix ty ''@'' \<and> list_all plain (name # ty # args)"
| "gen_ok (SLine name args) \<longleftrightarrow> \<not> HasPrefix name ''@'' \<and> list_all plain (name # args)"
| "gen_ok (SBlock name args block) \<longleftrightarrow>
     \<not> HasPrefix name ''@'' \<and> list_all plain (name # args) \<and> list_all gen_ok block"

fun nest :: "shape \<Rightarrow> nat" where
  "nest (SBlock name args block) = Suc (fold max (map nest block) 0)"
| "nest _ = 0"

subsection \<open>Its tokens\<close>

definition arg_core :: "string \<Rightarrow> TokenKind \<times> string \<times> bool" where
  "arg_core a = (TokenWord, a, quoted_arg a)"

abbreviation nl_core :: "TokenKind \<times> string \<times> bool" where "nl_core \<equiv> (TokenNewline, [], False)"
abbreviation open_core :: "TokenKind \<times> string \<times> bool" where "open_core \<equiv> (TokenOpenBrace, ''{'', False)"
abbreviation close_core :: "TokenKind \<times> string \<times> bool" where "close_core \<equiv> (TokenCloseBrace, ''}'', False)"

fun gen_tokens :: "shape \<Rightarrow> (TokenKind \<times> string \<times> bool) list" where
  "gen_tokens (SMatcher name ty args) = map arg_core ((''@'' @ name) # ty # args) @ [nl_core]"
| "gen_tokens (SLine name args) = map arg_core (name # args) @ [nl_core]"
| "gen_tokens (SBlock name args block) =
     map arg_core (name # args) @ [open_core, nl_core] @ concat (map gen_tokens block) @ [close_core, nl_core]"

lemma lexes_words:
  assumes "ws \<noteq> []" "list_all plain ws" "word_end s" "lx_rest l = gen_words ws @ s"
  shows "\<exists>l'. lexes l (map arg_core ws) l' \<and> lx_rest l' = s \<and> \<not> lx_atLineStart l'"
  using assms
proof (induction ws arbitrary: l rule: list_nonempty_induct)
  case (single w)
  then show ?case using lexes_arg [of l w s] by (simp add: gen_words_def arg_core_def)
next
  case (cons w ws)
  have src: "lx_rest l = QuoteArg w @ CHR '' '' # gen_words ws @ s"
    using cons by (cases ws) (simp_all add: gen_words_def)
  from lexes_arg [OF src] cons.prems obtain l1 where
    1: "lexes l [(TokenWord, w, quoted_arg w)] l1" "lx_rest l1 = CHR '' '' # gen_words ws @ s" by (auto simp: word_end_def)
  have "lx_rest (snd (advance l1)) = gen_words ws @ s" using advance_ascii(2) [OF 1(2)] by (simp add: moved_def)
  from cons.IH [OF _ _ this] cons.prems obtain l2 where
    2: "lexes (snd (advance l1)) (map arg_core ws) l2" "lx_rest l2 = s" "\<not> lx_atLineStart l2" by auto
  have "lexes l1 (map arg_core ws) l2" using lexes_space [OF 1(2) 2(1)] cons.hyps by simp
  from lexes_append [OF 1(1) this] 2 show ?case by (auto simp: arg_core_def [of w])
qed

lemma lexes_line:
  assumes "ws \<noteq> []" "list_all plain ws" "lx_rest l = gen_words ws @ rNL @ s"
  shows "\<exists>l'. lexes l (map arg_core ws @ [nl_core]) l' \<and> lx_rest l' = s"
proof -
  from lexes_words [of ws "rNL @ s" l] assms obtain l1 where
    1: "lexes l (map arg_core ws) l1" "lx_rest l1 = CHR 0x0A # s" "\<not> lx_atLineStart l1" by (auto simp: word_end_def)
  from lexes_newline [OF 1(2,3)] lexes_append [OF 1(1)] show ?thesis by blast
qed

lemma plain_at: "plain name \<Longrightarrow> plain (''@'' @ name)"
  using valid_utf8_append [of "''@''" name]
  by (simp add: plain_def isDisallowedControl_def valid_utf8_step rune_ascii)

lemma lexes_gen: "gen_ok s \<Longrightarrow> lx_rest l = gen s @ r \<Longrightarrow> \<exists>l'. lexes l (gen_tokens s) l' \<and> lx_rest l' = r"
proof (induction s arbitrary: l r)
  case (SMatcher name ty args)
  then show ?case using lexes_line [of "(''@'' @ name) # ty # args" l r] plain_at [of name] by simp
next
  case (SLine name args)
  then show ?case using lexes_line [of "name # args" l r] by simp
next
  case (SBlock name args block)
  have body: "\<exists>l'. lexes m (concat (map gen_tokens ss)) l' \<and> lx_rest l' = q"
    if "set ss \<subseteq> set block" "lx_rest m = concat (map gen ss) @ q" for ss m q
    using that
  proof (induction ss arbitrary: m)
    case Nil
    then show ?case using lexes_none by auto
  next
    case (Cons s ss)
    then obtain m' where m': "lexes m (gen_tokens s) m'" "lx_rest m' = concat (map gen ss) @ q"
      using SBlock.IH [of s m "concat (map gen ss) @ q"] SBlock.prems by (auto simp: list_all_iff)
    from Cons.IH [OF _ m'(2)] Cons.prems lexes_append [OF m'(1)] show ?case by auto
  qed
  let ?rest = "concat (map gen block) @ ''}'' @ rNL @ r"
  from lexes_words [of "name # args" "'' {'' @ rNL @ ?rest" l] SBlock.prems obtain l1 where
    1: "lexes l (map arg_core (name # args)) l1" "lx_rest l1 = CHR '' '' # CHR ''{'' # CHR 0x0A # ?rest" by (auto simp: word_end_def)
  have adv: "lx_rest (snd (advance l1)) = CHR ''{'' # CHR 0x0A # ?rest" using advance_ascii(2) [OF 1(2)] by (simp add: moved_def)
  from lexes_brace [OF adv] obtain l2 where
    2: "lexes (snd (advance l1)) [open_core] l2" "lx_rest l2 = CHR 0x0A # ?rest" "\<not> lx_atLineStart l2" by auto
  from lexes_newline [OF 2(2,3)] obtain l3 where 3: "lexes l2 [nl_core] l3" "lx_rest l3 = ?rest" by blast
  from body [OF _ 3(2)] obtain l4 where 4: "lexes l3 (concat (map gen_tokens block)) l4" "lx_rest l4 = CHR ''}'' # CHR 0x0A # r" by auto
  from lexes_brace [OF 4(2)] obtain l5 where
    5: "lexes l4 [close_core] l5" "lx_rest l5 = CHR 0x0A # r" "\<not> lx_atLineStart l5" by auto
  from lexes_newline [OF 5(2,3)] obtain l6 where 6: "lexes l5 [nl_core] l6" "lx_rest l6 = r" by blast
  have "lexes l1 [open_core] l2" using lexes_space [OF 1(2) 2(1)] by simp
  from lexes_append [OF 1(1) lexes_append [OF this lexes_append [OF 3(1) lexes_append [OF 4(1) lexes_append [OF 5(1) 6(1)]]]]]
  show ?case using 6(2) by auto
qed

subsection \<open>Its parse\<close>

lemma tcore_simps: "tcore t = (k, x, q) \<longleftrightarrow> tk_Kind t = k \<and> tk_Text t = x \<and> tk_Quoted t = q"
  by (simp add: tcore_def)

lemma cur_append [simp]: "cur (t # ts) = t" "tk_Kind t \<noteq> TokenEOF \<Longrightarrow> parser_next (t # ts) = ts"
  by (simp_all add: cur_def parser_next_def)

lemma parseArgs_tokens:
  "map tcore us = map arg_core as \<Longrightarrow> tk_Kind (cur vs) \<noteq> TokenWord \<Longrightarrow>
     parseArgs fl (us @ vs) = (map (mk_arg fl) us, vs) \<and> map ar_Raw (map (mk_arg fl) us) = as"
proof (induction us arbitrary: as)
  case Nil
  then show ?case by (cases vs) (auto simp: cur_def)
next
  case (Cons u us)
  then show ?case by (cases as) (auto simp: arg_core_def tcore_simps mk_arg_def)
qed

lemma no_placeholder: "CHR ''{'' \<notin> set t \<Longrightarrow> \<not> containsPlaceholder t"
  by (induction t rule: containsPlaceholder.induct) auto

lemma end_newline: "tk_Kind t = TokenNewline \<Longrightarrow> expectStatementEnd fl (t # vs) = Inr vs"
  by (simp add: expectStatementEnd_def)

lemma parse_matcher:
  assumes ok: "gen_ok (SMatcher name ty args)" and us: "map tcore us = gen_tokens (SMatcher name ty args)"
  shows "\<exists>n. parseStatement fl d (us @ vs) = Inr (n, vs) \<and> shape_of n = SMatcher name ty args"
proof -
  obtain a b as e where u: "us = a # b # as @ [e]" and a: "tcore a = arg_core (''@'' @ name)" and b: "tcore b = arg_core ty"
    and as: "map tcore as = map arg_core args" and e: "tcore e = nl_core"
    using us by (auto simp: map_eq_Cons_conv map_eq_append_conv)
  have "parseArgs fl (as @ e # vs) = (map (mk_arg fl) as, e # vs)" "map ar_Raw (map (mk_arg fl) as) = args"
    using parseArgs_tokens [OF as, of "e # vs" fl] e by (simp_all add: tcore_simps)
  moreover have "tk_Kind a = TokenWord" "tk_Text a = ''@'' @ name" "\<not> tk_Quoted a" "tk_Kind b = TokenWord" "tk_Text b = ty"
      "\<not> tk_Quoted b" "tk_Kind e = TokenNewline"
    using a b e ok by (auto simp: arg_core_def tcore_simps)
  moreover have "\<not> needsQuoting ty" "\<not> containsPlaceholder ty" using ok no_placeholder [of ty] by (auto simp: quoted_arg_def)
  ultimately show ?thesis using ok u
    by (simp add: parseStatement.simps parseMatcherDef_def Let_def HasPrefix_def isArgToken_def end_newline)
qed

lemma parse_head:
  assumes "\<not> HasPrefix name ''@''" "map tcore ws = map arg_core (name # args)" "tk_Kind (cur vs) \<noteq> TokenWord"
  obtains a as where "ws = a # as" "tk_Text a = name" "parseStatement fl d (ws @ vs) = parseDirective fl d (ws @ vs)"
    "parseArgs fl (parser_next (ws @ vs)) = (map (mk_arg fl) as, vs)" "map ar_Raw (map (mk_arg fl) as) = args"
proof -
  obtain a as where w: "ws = a # as" and a: "tcore a = arg_core name" and as: "map tcore as = map arg_core args"
    using assms(2) by (auto simp: map_eq_Cons_conv)
  have k: "tk_Kind a = TokenWord" "tk_Text a = name" using a by (auto simp: arg_core_def tcore_simps)
  then have "parseStatement fl d (ws @ vs) = parseDirective fl d (ws @ vs)"
    using assms(1) w by (simp add: parseStatement.simps)
  moreover have "parser_next (ws @ vs) = as @ vs" using w k by simp
  ultimately show ?thesis using that [OF w k(2)] parseArgs_tokens [OF as assms(3)] by simp
qed

lemma parse_line:
  assumes ok: "gen_ok (SLine name args)" and us: "map tcore us = gen_tokens (SLine name args)"
  shows "\<exists>n. parseStatement fl d (us @ vs) = Inr (n, vs) \<and> shape_of n = SLine name args"
proof -
  obtain ws e where u: "us = ws @ [e]" and ws: "map tcore ws = map arg_core (name # args)" and e: "tcore e = nl_core"
    using us by (auto simp: map_eq_append_conv map_eq_Cons_conv simp del: list.map)
  have k: "tk_Kind e = TokenNewline" using e by (simp add: tcore_simps)
  have nw: "tk_Kind (cur (e # vs)) \<noteq> TokenWord" "\<not> HasPrefix name ''@''" using k ok by simp_all
  from parse_head [OF nw(2) ws nw(1), of fl d] obtain a as where h: "ws = a # as" "tk_Text a = name"
    "parseStatement fl d (ws @ e # vs) = parseDirective fl d (ws @ e # vs)"
    "parseArgs fl (parser_next (ws @ e # vs)) = (map (mk_arg fl) as, e # vs)" "map ar_Raw (map (mk_arg fl) as) = args"
    by blast
  show ?thesis using h u k by (simp add: parseDirective.simps end_newline)
qed

lemma nest_member: "s \<in> set block \<Longrightarrow> nest s \<le> fold max (map nest block) 0"
proof -
  have grow: "n \<le> fold max xs n" for n :: nat and xs
    by (induction xs arbitrary: n) (auto intro: order_trans [OF max.cobounded2])
  have "x \<in> set xs \<Longrightarrow> x \<le> fold max xs n" for x n :: nat and xs
    by (induction xs arbitrary: n) (auto intro: order_trans [OF max.cobounded1 grow])
  then show "s \<in> set block \<Longrightarrow> ?thesis" by simp
qed

lemma map_split: "map f us = xs @ ys \<Longrightarrow> \<exists>a b. us = a @ b \<and> map f a = xs \<and> map f b = ys"
  by (auto simp: map_eq_append_conv)

lemma gen_first:
  assumes "map tcore us = gen_tokens s"
  shows "skipSeparators (us @ vs) = us @ vs" "tk_Kind (cur (us @ vs)) = TokenWord"
proof -
  obtain t ts where t: "us = t # ts" "tk_Kind t = TokenWord"
    using assms by (cases s) (auto simp: arg_core_def tcore_simps map_eq_Cons_conv)
  then show "skipSeparators (us @ vs) = us @ vs" "tk_Kind (cur (us @ vs)) = TokenWord" by (simp_all add: skipSeparators_def)
qed

lemma parse_gen:
  "gen_ok s \<Longrightarrow> map tcore us = gen_tokens s \<Longrightarrow> d + nest s \<le> maxBlockDepth \<Longrightarrow>
     \<exists>n. parseStatement fl d (us @ vs) = Inr (n, vs) \<and> shape_of n = s"
proof (induction s arbitrary: d us vs)
  case (SMatcher name ty args)
  then show ?case using parse_matcher by blast
next
  case (SLine name args)
  then show ?case using parse_line by blast
next
  case (SBlock name args block)
  obtain ws o1 e1 bs c e2 where u: "us = ws @ o1 # e1 # bs @ [c, e2]" and ws: "map tcore ws = map arg_core (name # args)"
    and tk: "tcore o1 = open_core" "tcore e1 = nl_core" "tcore c = close_core" "tcore e2 = nl_core"
    and bs: "map tcore bs = concat (map gen_tokens block)"
  proof -
    from map_split [OF SBlock.prems(2) [unfolded gen_tokens.simps]] obtain ws r1 where
      r1: "us = ws @ r1" "map tcore ws = map arg_core (name # args)"
      "map tcore r1 = [open_core, nl_core] @ concat (map gen_tokens block) @ [close_core, nl_core]" by blast
    from r1(3) obtain o1 e1 r2 where r2: "r1 = o1 # e1 # r2" "tcore o1 = open_core" "tcore e1 = nl_core"
      "map tcore r2 = concat (map gen_tokens block) @ [close_core, nl_core]" by (auto simp: map_eq_Cons_conv)
    from map_split [OF r2(4)] obtain bs r3 where r3: "r2 = bs @ r3" "map tcore bs = concat (map gen_tokens block)"
      "map tcore r3 = [close_core, nl_core]" by (elim exE conjE)
    from r3(3) obtain c e2 where "r3 = [c, e2]" "tcore c = close_core" "tcore e2 = nl_core" by (auto simp: map_eq_Cons_conv)
    then show ?thesis using that [of ws o1 e1 bs c e2] r1 r2 r3 by simp
  qed
  have k: "tk_Kind o1 = TokenOpenBrace" "tk_Kind e1 = TokenNewline" "tk_Kind c = TokenCloseBrace" "tk_Kind e2 = TokenNewline"
    using tk by (simp_all add: tcore_simps)
  have body: "\<exists>ns. parse_block fl (Suc d) o1 acc (xs @ c # e2 # vs) = Inr (acc @ ns, e2 # vs) \<and> map shape_of ns = ss"
    if "set ss \<subseteq> set block" "map tcore xs = concat (map gen_tokens ss)" for ss xs acc
    using that
  proof (induction ss arbitrary: xs acc)
    case Nil
    then show ?case using k by (simp add: parse_block.simps skipSeparators_def)
  next
    case (Cons s ss)
    then obtain x1 x2 where x: "xs = x1 @ x2" "map tcore x1 = gen_tokens s" "map tcore x2 = concat (map gen_tokens ss)"
      by (auto simp: map_eq_append_conv)
    have s: "s \<in> set block" using Cons.prems by simp
    have dep: "Suc d + nest s \<le> maxBlockDepth" using SBlock.prems(3) nest_member [OF s] by simp
    have "gen_ok s" using SBlock.prems(1) s by (simp add: list_all_iff)
    from SBlock.IH [OF s this x(2) dep, of "x2 @ c # e2 # vs"] obtain n where n: "parseStatement fl (Suc d) (x1 @ x2 @ c # e2 # vs) = Inr (n, x2 @ c # e2 # vs)" "shape_of n = s"
      by blast
    note first = gen_first [OF x(2)]
    have "parse_block fl (Suc d) o1 acc (xs @ c # e2 # vs) = parse_block fl (Suc d) o1 (acc @ [n]) (x2 @ c # e2 # vs)"
      using n(1) first x(1) by (simp add: parse_block.simps [of fl "Suc d" o1 acc])
    with Cons.IH [OF _ x(3), of "acc @ [n]"] Cons.prems n(2) show ?case by auto
  qed
  have skip: "skipSeparators (e1 # ys) = skipSeparators ys" for ys using k by (simp add: skipSeparators_def)
  have "parse_block fl (Suc d) o1 [] (e1 # bs @ c # e2 # vs) = parse_block fl (Suc d) o1 [] (bs @ c # e2 # vs)"
    by (subst (1 2) parse_block.simps) (simp add: skip)
  with body [OF order_refl bs, of "[]"] obtain ns where
    b: "parse_block fl (Suc d) o1 [] (e1 # bs @ c # e2 # vs) = Inr (ns, e2 # vs)" "map shape_of ns = block" by auto
  have nw: "tk_Kind (cur (o1 # e1 # bs @ c # e2 # vs)) \<noteq> TokenWord" "\<not> HasPrefix name ''@''" using k SBlock.prems(1) by simp_all
  from parse_head [OF nw(2) ws nw(1), of fl d] obtain a as where h: "ws = a # as" "tk_Text a = name"
    "parseStatement fl d (ws @ o1 # e1 # bs @ c # e2 # vs) = parseDirective fl d (ws @ o1 # e1 # bs @ c # e2 # vs)"
    "parseArgs fl (parser_next (ws @ o1 # e1 # bs @ c # e2 # vs)) = (map (mk_arg fl) as, o1 # e1 # bs @ c # e2 # vs)"
    "map ar_Raw (map (mk_arg fl) as) = args" by blast
  have "d + 1 \<le> maxBlockDepth" using SBlock.prems(3) by simp
  then have "parseBlockBody fl d o1 (e1 # bs @ c # e2 # vs) = Inr (ns, e2 # vs)" using b(1) by (simp add: parseBlockBody.simps)
  then show ?case using h u k b(2) by (simp add: parseDirective.simps end_newline)
qed

lemma fragment_gen:
  assumes "list_all gen_ok ss" "list_all (\<lambda>s. nest s \<le> maxBlockDepth) ss" "map tcore us = concat (map gen_tokens ss)"
    "tk_Kind e = TokenEOF"
  shows "\<exists>ns. fragment_loop fl acc (us @ [e]) = Inr (acc @ ns) \<and> map shape_of ns = ss"
  using assms
proof (induction ss arbitrary: us acc)
  case Nil
  then show ?case by (simp add: fragment_loop.simps skipSeparators_def)
next
  case (Cons s ss)
  from map_split [of tcore us "gen_tokens s" "concat (map gen_tokens ss)"] Cons.prems(3) obtain x1 x2 where
    x: "us = x1 @ x2" "map tcore x1 = gen_tokens s" "map tcore x2 = concat (map gen_tokens ss)" by auto
  note first = gen_first [OF x(2)]
  have "gen_ok s" "0 + nest s \<le> maxBlockDepth" using Cons.prems by simp_all
  from parse_gen [OF this(1) x(2) this(2), of fl "x2 @ [e]"] obtain n where
    n: "parseStatement fl 0 (x1 @ x2 @ [e]) = Inr (n, x2 @ [e])" "shape_of n = s" by blast
  have "fragment_loop fl acc (us @ [e]) = fragment_loop fl (acc @ [n]) (x2 @ [e])"
    using n(1) first x(1) by (simp add: fragment_loop.simps [of fl acc] Let_def)
  with Cons.IH [OF _ _ x(3) Cons.prems(4), of "acc @ [n]"] Cons.prems n(2) show ?case by auto
qed

lemma lexes_gens:
  "list_all gen_ok ss \<Longrightarrow> lx_rest l = concat (map gen ss) \<Longrightarrow>
     \<exists>l'. lexes l (concat (map gen_tokens ss)) l' \<and> lx_rest l' = []"
proof (induction ss arbitrary: l)
  case Nil
  then show ?case using lexes_none by auto
next
  case (Cons s ss)
  then obtain m where m: "lexes l (gen_tokens s) m" "lx_rest m = concat (map gen ss)"
    using lexes_gen [of s l "concat (map gen ss)"] by auto
  from Cons.IH [OF _ m(2)] Cons.prems lexes_append [OF m(1)] show ?case by auto
qed

text \<open>C34: Generated configuration cannot be injected into. Statements with arbitrary well-formed words,
  in blocks nested up to the limit, are written word by word through the quoting function, and the lexer
  and the parser read the text back as exactly these statements, with these words and these blocks: no
  word ends its statement, opens or closes a block, or starts a comment.\<close>

theorem generated_roundtrip:
  assumes "list_all gen_ok ss" "list_all (\<lambda>s. nest s \<le> maxBlockDepth) ss"
    and "\<not> HasPrefix (concat (map gen ss)) [CHR 0xEF, CHR 0xBB, CHR 0xBF]"
  shows "\<exists>ns. ParseFragment filename (concat (map gen ss)) = Inr ns \<and> map shape_of ns = ss"
proof -
  have "lx_rest (newLexer filename (concat (map gen ss))) = concat (map gen ss)"
    using assms(3) by (simp add: newLexer_def)
  from lexes_gens [OF assms(1) this] obtain l' where
    "lexes (newLexer filename (concat (map gen ss))) (concat (map gen_tokens ss)) l'" "lx_rest l' = []" by blast
  from lexes_tokenize [OF this, of "[]"] obtain ts e where
    t: "tokenize filename (concat (map gen ss)) = Inr (ts @ [e])" "map tcore ts = concat (map gen_tokens ss)" "tk_Kind e = TokenEOF"
    by (auto simp: tokenize_def)
  from fragment_gen [OF assms(1,2) t(2,3), of filename "[]"] t(1) show ?thesis
    by (simp add: ParseFragment_def parseFragmentBody_def)
qed

definition sample_shapes :: "shape list" where
  "sample_shapes = [SMatcher ''m'' ''path'' [''/a} b''], SBlock ''route'' [''@m''] [SLine ''x'' [[dquote, CHR 0x0A, backslash]]]]"

lemma plain_ascii: "list_all (\<lambda>c. byte c < 128 \<and> \<not> isDisallowedControl [c]) t \<Longrightarrow> plain t"
proof (induction t)
  case (Cons c t)
  then show ?case by (simp add: plain_def valid_utf8_step rune_ascii)
qed (simp add: plain_def)

theorem generated_roundtrip_witness:
  "\<exists>ns. ParseFragment ''f'' (concat (map gen sample_shapes)) = Inr ns \<and> map shape_of ns = sample_shapes"
  by (rule generated_roundtrip)
     (simp_all add: sample_shapes_def maxBlockDepth_def HasPrefix_def quoted_arg_def needsQuoting_def gen_words_def
        QuoteArg_alt plain_ascii isDisallowedControl_def)

end
