(* ===== verification/CadishEnv.thy ===== *)
theory CadishEnv
  imports CadishParse
begin

text \<open>
  Environment placeholders in a parsed configuration, \<open>internal/cadishfile/env.go\<close>. A parsed file is well
  formed, the substitution keeps it so, and a text that passes the guard for words of users is never
  expanded.
\<close>

fun ContainsEnvPlaceholder :: "string \<Rightarrow> bool" where
  "ContainsEnvPlaceholder (c # d # s) =
     (if c = backslash then ContainsEnvPlaceholder s
      else if c = CHR ''{'' \<and> d = CHR ''$'' then True
      else ContainsEnvPlaceholder (d # s))"
| "ContainsEnvPlaceholder _ = False"

text \<open>The value of the text between \<open>{$\<close> and \<open>}\<close>: a set variable, else the default, else nothing.\<close>

definition env_value :: "(string \<Rightarrow> string option) \<Rightarrow> string \<Rightarrow> string" where
  "env_value lookup spec =
     (let colon = IndexByte spec (CHR '':'');
          (name, def, hasDefault) = (if colon \<ge> 0 then (take (nat colon) spec, drop (nat colon + 1) spec, True) else (spec, [], False))
      in case lookup name of Some val \<Rightarrow> val | None \<Rightarrow> if hasDefault then def else [])"

function expandEnv :: "(string \<Rightarrow> string option) \<Rightarrow> string \<Rightarrow> string" where
  "expandEnv lookup s =
     (case s of
        [] \<Rightarrow> []
      | c # cs \<Rightarrow>
          if c = backslash \<and> cs \<noteq> [] then c # hd cs # expandEnv lookup (tl cs)
          else if c = CHR ''{'' then
            (if CHR ''}'' \<notin> set cs then s
             else
               let inner = takeWhile (\<lambda>x. x \<noteq> CHR ''}'') cs; rest = drop (length inner + 1) cs in
               if HasPrefix inner ''$'' then env_value lookup (drop 1 inner) @ expandEnv lookup rest
               else c # inner @ ''}'' @ expandEnv lookup rest)
          else c # expandEnv lookup cs)"
  by pat_completeness auto
termination by (relation "measure (\<lambda>(lookup, s). length s)") (auto simp: less_Suc_eq_le)

declare expandEnv.simps [simp del]

definition substituteArg :: "(string \<Rightarrow> string option) \<Rightarrow> Arg \<Rightarrow> Arg" where
  "substituteArg lookup a =
     (if ar_Kind a = ArgPlaceholder then
        let raw = expandEnv lookup (ar_Raw a) in a\<lparr>ar_Raw := raw, ar_Kind := classifyArg raw (ar_Quoted a)\<rparr>
      else if ar_Quoted a \<and> StrIndex (ar_Raw a) ''{$'' \<noteq> None then a\<lparr>ar_Raw := expandEnv lookup (ar_Raw a)\<rparr>
      else a)"

fun substituteNode :: "(string \<Rightarrow> string option) \<Rightarrow> Node \<Rightarrow> Node" where
  "substituteNode lookup (MatcherDef name ty args pos) = MatcherDef name ty (map (substituteArg lookup) args) pos"
| "substituteNode lookup (Directive name args block hasBlock pos) =
     Directive name (map (substituteArg lookup) args) (map (substituteNode lookup) block) hasBlock pos"

definition substituteNodes :: "(string \<Rightarrow> string option) \<Rightarrow> Node list \<Rightarrow> Node list" where
  "substituteNodes lookup nodes = map (substituteNode lookup) nodes"

definition SubstituteEnv :: "(string \<Rightarrow> string option) \<Rightarrow> File \<Rightarrow> File" where
  "SubstituteEnv lookup f =
     f\<lparr>fl_Global := map_option (\<lambda>g. g\<lparr>op_Body := substituteNodes lookup (op_Body g)\<rparr>) (fl_Global f),
       fl_Body := substituteNodes lookup (fl_Body f),
       fl_Sites := map (\<lambda>s. s\<lparr>si_Body := substituteNodes lookup (si_Body s)\<rparr>) (fl_Sites f)\<rparr>"

subsection \<open>Well-formed trees\<close>

definition arg_ok :: "Arg \<Rightarrow> bool" where
  "arg_ok a \<longleftrightarrow> ar_Kind a = classifyArg (ar_Raw a) (ar_Quoted a)"

text \<open>A statement at a given depth of blocks.\<close>

fun node_ok :: "nat \<Rightarrow> Node \<Rightarrow> bool" where
  "node_ok d (MatcherDef name ty args pos) \<longleftrightarrow>
     name \<noteq> [] \<and> \<not> needsQuoting ty \<and> \<not> HasPrefix ty ''@'' \<and> \<not> containsPlaceholder ty \<and> list_all arg_ok args"
| "node_ok d (Directive name args block hasBlock pos) \<longleftrightarrow>
     list_all arg_ok args \<and> (if hasBlock then d < maxBlockDepth \<and> list_all (node_ok (Suc d)) block else block = [])"

definition file_ok :: "File \<Rightarrow> bool" where
  "file_ok f \<longleftrightarrow>
     (case fl_Global f of None \<Rightarrow> True | Some o1 \<Rightarrow> list_all (node_ok 1) (op_Body o1)) \<and>
     list_all (\<lambda>s. si_Addresses s \<noteq> [] \<and> list_all (node_ok 1) (si_Body s)) (fl_Sites f) \<and>
     list_all (node_ok 0) (fl_Body f)"

lemma parseArgs_ok: "parseArgs fl ts = (args, rest) \<Longrightarrow> list_all arg_ok args"
  by (induction ts arbitrary: args) (auto simp: arg_ok_def mk_arg_def split: if_splits prod.splits)

lemma parseMatcherDef_ok: "parseMatcherDef fl ts = Inr (n, rest) \<Longrightarrow> node_ok d n"
  by (auto simp: parseMatcherDef_def Let_def dest!: parseArgs_ok split: if_splits prod.splits sum.splits)

lemma parse_ok:
  "parse_block fl d opn body ts = Inr (ns, rest) \<Longrightarrow> list_all (node_ok d) body \<Longrightarrow> list_all (node_ok d) ns"
  "parseBlockBody fl d opn ts = Inr (ns, rest) \<Longrightarrow> d < maxBlockDepth \<and> list_all (node_ok (Suc d)) ns"
  "parseStatement fl d ts = Inr (n, rest) \<Longrightarrow> node_ok d n"
  "parseDirective fl d ts = Inr (n, rest) \<Longrightarrow> node_ok d n"
proof (induction fl d opn body ts and fl d opn ts and fl d ts and fl d ts
    arbitrary: ns rest and ns rest and n rest and n rest
    rule: parse_block_parseBlockBody_parseStatement_parseDirective.induct)
  case (1 fl d opn body ts)
  then show ?case by (auto simp: parse_block.simps [of fl d opn body ts] split: if_splits sum.splits)
next
  case (2 fl d opn ts)
  then show ?case by (auto simp: parseBlockBody.simps [of fl d opn ts] split: if_splits)
next
  case (3 fl d ts)
  then show ?case using parseMatcherDef_ok by (auto simp: parseStatement.simps [of fl d ts] split: if_splits)
next
  case (4 fl d ts)
  obtain args us where a: "parseArgs fl (parser_next ts) = (args, us)" by fastforce
  show ?case using 4 parseArgs_ok [OF a]
    by (auto simp: parseDirective.simps [of fl d ts] a split: if_splits sum.splits)
qed

lemma site_loop_ok: "site_loop fl pos addrs ts = Inr (s, rest) \<Longrightarrow> si_Addresses s \<noteq> [] \<and> list_all (node_ok 1) (si_Body s)"
  by (induction fl pos addrs ts rule: site_loop.induct)
     (auto split: TokenKind.splits if_splits sum.splits prod.splits dest!: parse_ok(2))

lemma file_loop_ok: "file_loop fl f ts = Inr g \<Longrightarrow> file_ok f \<Longrightarrow> file_ok g"
proof (induction "length ts" arbitrary: f ts rule: less_induct)
  case less
  have site: "file_ok g" if "parseSite fl ts = Inr (site, rest)"
      "file_loop fl (f\<lparr>fl_Sites := fl_Sites f @ [site]\<rparr>) (skipSeparators rest) = Inr g" for site rest
  proof (rule less.hyps [OF _ that(2)])
    show "length (skipSeparators rest) < length ts"
      using site_loop_less that(1) skipSeparators_le [of rest] by (fastforce simp: parseSite_def intro: le_less_trans)
    show "file_ok (f\<lparr>fl_Sites := fl_Sites f @ [site]\<rparr>)"
      using less.prems(2) site_loop_ok that(1) by (fastforce simp: file_ok_def parseSite_def split: option.splits)
  qed
  have stmt: "file_ok g" if "parseStatement fl 0 ts = Inr (stmt, rest)"
      "file_loop fl (f\<lparr>fl_Body := fl_Body f @ [stmt]\<rparr>) (skipSeparators rest) = Inr g" for stmt rest
  proof (rule less.hyps [OF _ that(2)])
    show "length (skipSeparators rest) < length ts"
      using parseStatement_less [OF that(1)] skipSeparators_le [of rest] by linarith
    show "file_ok (f\<lparr>fl_Body := fl_Body f @ [stmt]\<rparr>)"
      using less.prems(2) parse_ok(3) [OF that(1)] by (auto simp: file_ok_def split: option.splits)
  qed
  show ?case using less.prems site stmt
    by (subst (asm) file_loop.simps) (auto split: if_split_asm sum.split_asm)
qed

lemma parseGlobalOptions_ok: "parseGlobalOptions fl ts = Inr (g, rest) \<Longrightarrow> list_all (node_ok 1) (op_Body g)"
  by (auto simp: parseGlobalOptions_def dest!: parse_ok(2) split: sum.splits prod.splits)

lemma Parse_ok:
  assumes "Parse fl src = Inr f"
  shows "file_ok f"
proof -
  let ?f = "\<lparr>fl_Global = None, fl_Sites = [], fl_Body = []\<rparr>"
  obtain toks where t: "parseFile fl toks = Inr f" using assms by (auto simp: Parse_def split: sum.splits)
  have start: "file_ok ?f" "\<And>g. list_all (node_ok 1) (op_Body g) \<Longrightarrow> file_ok (?f\<lparr>fl_Global := Some g\<rparr>)"
    by (simp_all add: file_ok_def)
  show ?thesis
  proof (cases "tk_Kind (cur (skipSeparators toks)) = TokenOpenBrace")
    case True
    then obtain g rest where "parseGlobalOptions fl (skipSeparators toks) = Inr (g, rest)"
      and l: "file_loop fl (?f\<lparr>fl_Global := Some g\<rparr>) (skipSeparators rest) = Inr f"
      using t by (auto simp: parseFile_def split: sum.splits)
    then show ?thesis using file_loop_ok [OF l] start(2) parseGlobalOptions_ok by blast
  next
    case False
    then show ?thesis using t start(1) file_loop_ok by (fastforce simp: parseFile_def)
  qed
qed

lemma substituteArg_ok: "arg_ok a \<Longrightarrow> arg_ok (substituteArg lookup a)"
  by (auto simp: arg_ok_def substituteArg_def Let_def classifyArg_def)

lemma substituteNode_ok: "node_ok d n \<Longrightarrow> node_ok d (substituteNode lookup n)"
  by (induction lookup n arbitrary: d rule: substituteNode.induct)
     (auto simp: list_all_iff substituteArg_ok split: if_splits)

text \<open>C35: Every parsed file is a well-formed tree, and substituting the environment keeps it so. Every argument is
  classified by its text and quoting, every matcher has a name and a bare type, only a directive with a
  block has statements in it, every site has an address, and no block is nested beyond the limit.\<close>

theorem parse_well_formed:
  assumes "Parse filename src = Inr f"
  shows "file_ok f \<and> file_ok (SubstituteEnv lookup f)"
proof -
  have ok: "file_ok f" by (rule Parse_ok [OF assms])
  then have "file_ok (SubstituteEnv lookup f)"
    by (auto simp: file_ok_def SubstituteEnv_def substituteNodes_def list_all_iff substituteNode_ok split: option.splits)
  with ok show ?thesis by simp
qed

theorem parse_well_formed_witness:
  "file_ok (projr (Parse [] ''a{b c}'')) \<and> file_ok (SubstituteEnv (\<lambda>_. None) (projr (Parse [] ''a{b c}'')))"
proof -
  have "isl (Parse [] ''a{b c}'') = False" by code_simp
  then obtain f where f: "Parse [] ''a{b c}'' = Inr f" by (cases "Parse [] ''a{b c}''") auto
  from parse_well_formed [OF f, of "\<lambda>_. None"] show ?thesis by (simp add: f)
qed

subsection \<open>The guard for words of users\<close>

lemma ContainsEnv_span:
  "CHR ''}'' \<notin> set xs \<Longrightarrow> \<not> ContainsEnvPlaceholder (xs @ CHR ''}'' # rest) \<Longrightarrow> \<not> ContainsEnvPlaceholder rest"
proof (induction xs rule: ContainsEnvPlaceholder.induct)
  case (1 c d s)
  then show ?case by (auto split: if_splits)
qed (cases rest; auto split: if_splits)+

lemma split_at: "c \<in> set cs \<Longrightarrow> cs = takeWhile (\<lambda>x. x \<noteq> c) cs @ c # drop (length (takeWhile (\<lambda>x. x \<noteq> c) cs) + 1) cs"
  by (induction cs) auto

lemma expandEnv_guarded: "\<not> ContainsEnvPlaceholder s \<Longrightarrow> expandEnv lookup s = s"
proof (induction "length s" arbitrary: s rule: less_induct)
  case less
  show ?case
  proof (cases s)
    case Nil
    then show ?thesis by (simp add: expandEnv.simps)
  next
    case (Cons c cs)
    show ?thesis
    proof (cases "c = backslash \<and> cs \<noteq> []")
      case True
      then obtain d ds where ds: "cs = d # ds" by (cases cs) auto
      then have "\<not> ContainsEnvPlaceholder ds" using less.prems Cons True by simp
      then show ?thesis using less.hyps [of ds] True ds Cons by (subst expandEnv.simps) simp
    next
      case plain: False
      show ?thesis
      proof (cases "c = CHR ''{'' \<and> CHR ''}'' \<in> set cs")
        case True
        define inner rest where "inner = takeWhile (\<lambda>x. x \<noteq> CHR ''}'') cs" and "rest = drop (length inner + 1) cs"
        have split: "cs = inner @ CHR ''}'' # rest"
          unfolding inner_def rest_def by (rule split_at) (use True in simp)
        have no: "CHR ''}'' \<notin> set inner" by (auto simp: inner_def dest: set_takeWhileD)
        have tw: "takeWhile (\<lambda>x. x \<noteq> CHR ''}'') (inner @ CHR ''}'' # rest) = inner" using split by (simp add: inner_def)
        have "\<not> ContainsEnvPlaceholder ((c # inner) @ CHR ''}'' # rest)" using less.prems Cons split by simp
        then have "\<not> ContainsEnvPlaceholder rest" using ContainsEnv_span [of "c # inner" rest] True no by simp
        then have "expandEnv lookup rest = rest" using less.hyps [of rest] Cons split by simp
        moreover have "\<not> HasPrefix inner ''$''"
          using less.prems Cons split True by (cases inner) (auto simp: HasPrefix_def)
        ultimately show ?thesis using True Cons split plain
          by (subst expandEnv.simps) (simp add: Let_def tw)
      next
        case False
        have "\<not> ContainsEnvPlaceholder cs" using less.prems Cons plain by (cases cs) (auto split: if_splits)
        then show ?thesis using less.hyps [of cs] False plain Cons by (subst expandEnv.simps) auto
      qed
    qed
  qed
qed

text \<open>Statements all of whose arguments pass the guard.\<close>

fun guarded :: "Node \<Rightarrow> bool" where
  "guarded (MatcherDef name ty args pos) = list_all (\<lambda>a. \<not> ContainsEnvPlaceholder (ar_Raw a)) args"
| "guarded (Directive name args block hasBlock pos) =
     (list_all (\<lambda>a. \<not> ContainsEnvPlaceholder (ar_Raw a)) args \<and> list_all guarded block)"

lemma substituteArg_guarded: "arg_ok a \<Longrightarrow> \<not> ContainsEnvPlaceholder (ar_Raw a) \<Longrightarrow> substituteArg lookup a = a"
  by (simp add: substituteArg_def arg_ok_def expandEnv_guarded)

lemma substituteNode_guarded: "node_ok d n \<Longrightarrow> guarded n \<Longrightarrow> substituteNode lookup n = n"
  by (induction lookup n arbitrary: d rule: substituteNode.induct)
     (fastforce simp: list_all_iff intro: map_idI substituteArg_guarded split: if_splits)+

lemma fragment_loop_ok: "fragment_loop fl body ts = Inr ns \<Longrightarrow> list_all (node_ok 0) body \<Longrightarrow> list_all (node_ok 0) ns"
  by (induction fl body ts rule: fragment_loop.induct)
     (subst (asm) fragment_loop.simps, auto simp: Let_def dest: parse_ok(3) split: if_split_asm sum.split_asm)

text \<open>C36: A guarded word never reads the environment. When every argument of a parsed fragment passes the
  guard, the substitution leaves the fragment as it is, whatever the variables of the process are.\<close>

theorem env_guard_sound:
  assumes "ParseFragment filename src = Inr ns" "list_all guarded ns"
  shows "substituteNodes lookup ns = ns"
proof -
  have "list_all (node_ok 0) ns"
    using assms(1) fragment_loop_ok by (fastforce simp: ParseFragment_def parseFragmentBody_def split: sum.splits)
  then show ?thesis using assms(2) by (auto simp: substituteNodes_def list_all_iff intro!: map_idI substituteNode_guarded)
qed

theorem env_guard_sound_witness:
  "substituteNodes (\<lambda>_. Some ''x'') (projr (ParseFragment [] ''a {b}'')) = projr (ParseFragment [] ''a {b}'')"
proof -
  have "isl (ParseFragment [] ''a {b}'') = False \<and> list_all guarded (projr (ParseFragment [] ''a {b}''))" by code_simp
  then have "ParseFragment [] ''a {b}'' = Inr (projr (ParseFragment [] ''a {b}''))" "list_all guarded (projr (ParseFragment [] ''a {b}''))"
    by (cases "ParseFragment [] ''a {b}''"; simp)+
  from env_guard_sound [OF this] show ?thesis .
qed

end
