(* ===== verification/CadishFormat.thy ===== *)
theory CadishFormat
  imports CadishParse
begin

text \<open>
  The formatter, \<open>internal/cadishfile/format.go\<close>: it writes the tokens of a file that parses, one statement to
  a line.
\<close>

definition indentUnit :: string where "indentUnit = replicate 4 (CHR '' '')"

record formatter =
  fm_b :: string
  fm_depth :: nat
  fm_atLineStart :: bool
  fm_wroteAny :: bool
  fm_pendingBlank :: bool
  fm_suppressBlank :: bool

definition fm_write :: "string \<Rightarrow> formatter \<Rightarrow> formatter" where
  "fm_write s f = f\<lparr>fm_b := fm_b f @ s\<rparr>"

definition fm_indent :: "formatter \<Rightarrow> formatter" where
  "fm_indent f = fm_write (concat (replicate (fm_depth f) indentUnit)) f"

definition newlineIfNeeded :: "formatter \<Rightarrow> formatter" where
  "newlineIfNeeded f = (if \<not> fm_atLineStart f then (fm_write rNL f)\<lparr>fm_atLineStart := True\<rparr> else f)"

definition startLine :: "formatter \<Rightarrow> formatter" where
  "startLine f =
     (let f = (if fm_pendingBlank f \<and> fm_wroteAny f then fm_write rNL f else f);
          f = fm_indent (f\<lparr>fm_pendingBlank := False\<rparr>)
      in f\<lparr>fm_atLineStart := False, fm_wroteAny := True\<rparr>)"

definition separate :: "formatter \<Rightarrow> formatter" where
  "separate f = (if fm_atLineStart f then startLine f else fm_write '' '' f)"

definition writeWord :: "string \<Rightarrow> formatter \<Rightarrow> formatter" where
  "writeWord text f = fm_write text (separate f)"

definition trailingCommentAfter :: "Token list \<Rightarrow> nat \<Rightarrow> Token option" where
  "trailingCommentAfter ts line =
     (case ts of nt # _ \<Rightarrow> if tk_Kind nt = TokenComment \<and> tk_Line nt = line then Some nt else None | [] \<Rightarrow> None)"

text \<open>A brace with the comment behind it, and whether the comment was taken.\<close>

definition write_brace :: "char \<Rightarrow> Token \<Rightarrow> Token list \<Rightarrow> formatter \<Rightarrow> formatter \<times> Token list" where
  "write_brace c t ts f =
     (let f = fm_write [c] f in
      case trailingCommentAfter ts (tk_Line t) of
        Some nt \<Rightarrow> (newlineIfNeeded (fm_write ('' '' @ tk_Text nt) f), tl ts)
      | None \<Rightarrow> (newlineIfNeeded f, ts))"

definition format_blank :: "Token \<Rightarrow> formatter \<Rightarrow> formatter" where
  "format_blank t f =
     (let f = (if tk_BlankBefore t > 0 \<and> fm_atLineStart f \<and> \<not> fm_suppressBlank f then f\<lparr>fm_pendingBlank := True\<rparr> else f)
      in if tk_Kind t \<noteq> TokenNewline \<and> \<not> (tk_Kind t = TokenSemicolon \<and> fm_atLineStart f) then f\<lparr>fm_suppressBlank := False\<rparr> else f)"

definition format_token :: "Token \<Rightarrow> Token list \<Rightarrow> formatter \<Rightarrow> formatter \<times> Token list" where
  "format_token t ts f =
     (let f = format_blank t f in
      case tk_Kind t of
        TokenEOF \<Rightarrow> (f, ts)
      | TokenNewline \<Rightarrow> (newlineIfNeeded f, ts)
      | TokenSemicolon \<Rightarrow> (newlineIfNeeded f, ts)
      | TokenComment \<Rightarrow> (newlineIfNeeded (fm_write (tk_Text t) (separate f)), ts)
      | TokenOpenBrace \<Rightarrow>
          (let (f, ts) = write_brace (CHR ''{'') t ts (separate f)
           in (f\<lparr>fm_depth := fm_depth f + 1, fm_pendingBlank := False, fm_suppressBlank := True\<rparr>, ts))
      | TokenCloseBrace \<Rightarrow>
          (let f = newlineIfNeeded f;
               f = f\<lparr>fm_depth := fm_depth f - 1, fm_pendingBlank := False\<rparr>
           in write_brace (CHR ''}'') t ts (startLine f))
      | TokenWord \<Rightarrow> (writeWord (formatWord t) f, ts))"

lemma format_token_le: "length (snd (format_token t ts f)) \<le> length ts"
  by (auto simp: format_token_def write_brace_def Let_def split: TokenKind.splits option.splits prod.splits)

function format_loop :: "Token list \<Rightarrow> formatter \<Rightarrow> formatter" where
  "format_loop [] f = f"
| "format_loop (t # ts) f = format_loop (snd (format_token t ts f)) (fst (format_token t ts f))"
  by pat_completeness auto
termination
  by (relation "measure (\<lambda>(ts, f). length ts)") (simp_all add: less_Suc_eq_le format_token_le)

definition Format :: "string \<Rightarrow> ParseError + string" where
  "Format src =
     (case tokenize [] src of
        Inl e \<Rightarrow> Inl e
      | Inr toks \<Rightarrow>
          (case Parse [] src of
             Inl e \<Rightarrow> Inl e
           | Inr _ \<Rightarrow>
               let f = newlineIfNeeded (format_loop toks \<lparr>fm_b = [], fm_depth = 0, fm_atLineStart = True,
                     fm_wroteAny = False, fm_pendingBlank = False, fm_suppressBlank = False\<rparr>);
                   out = TrimRight (fm_b f) rNL
               in Inr (if out = [] then [] else out @ rNL)))"

text \<open>Formatting can change what a file means. A statement that is a word with a trailing comma and ends
  in a semicolon becomes, with the newline the formatter writes instead, an address of the site behind it.\<close>

lemma format_absorbs_statement:
  "(case Parse [] ''a,;b{ }'' of Inl e \<Rightarrow> None | Inr f \<Rightarrow> Some (map si_Addresses (fl_Sites f))) = Some [[''b'']] \<and>
   (case Format ''a,;b{ }'' of
      Inl e \<Rightarrow> None
    | Inr out \<Rightarrow> (case Parse [] out of Inl e \<Rightarrow> None | Inr f \<Rightarrow> Some (map si_Addresses (fl_Sites f)))) = Some [[''a'', ''b'']]"
  by code_simp

end
