(* ===== verification/Spec2Isabelle.thy ===== *)
theory Spec2Isabelle
  imports RamHistory DiskLRU StoreProps FreshnessProps Range Coalesce FetchProps RateLimit
    ServerRequest JsonSpec RespDecision SecGate ProxyListener CadishGen CadishEnv CadishFormat
begin

text \<open>
  Verification of cadish, an HTTP caching reverse proxy written in Go.

  \<^bold>\<open>The program.\<close> A request is normalised and evaluated by the pipeline (\<open>internal/pipeline\<close>), which
  matches it against compiled patterns, renders its cache key and decides whether a request with
  credentials may use the shared cache. The server (\<open>internal/server\<close>) limits rates, asks its freshness
  table whether a stored object may be served, coalesces concurrent misses, cuts byte ranges, and reads and
  writes objects through the two-tier store (\<open>internal/cache\<close>). A miss goes to a pool of origins
  (\<open>internal/lb\<close>), which picks a healthy backend by policy and fails over.

  \<^bold>\<open>Conventions.\<close> Go strings and byte slices are lists of characters, a Go map is an association list
  with distinct keys, a struct is a record whose field names carry a prefix, a pointer to a shared object
  is an index or a key into an explicit store. An \<open>int64\<close> is an integer, with the wrap-around written out
  where it matters; hashes, the round-robin cursor and FNV-1a are machine words. Instants are nanoseconds
  since Go's zero time. Digests, seeded hashes, regular expressions, clock readings, what an origin answers
  and what the operating system answers are parameters. A loop that may run forever is a partial function
  into an option, where \<^const>\<open>None\<close> is no result. A call made under one lock is one atomic step.
  Recording a freshness decision, which takes two, is one step of the reachability relation as well; a lemma
  of \<open>FreshnessProps\<close> shows what is lost when bans fall between its parts.

  \<^bold>\<open>Shared theories.\<close> \<open>Prelude\<close> (association lists, sums, the \<open>int64\<close> range), \<open>GoList\<close> (\<open>container/list\<close>),
  \<open>GoStrings\<close> and \<open>GoNum\<close> (\<open>strings\<close>, \<open>strconv\<close>, UTF-8, JSON strings).

  \<^bold>\<open>The cache\<close>, \<open>internal/cache\<close>. \<open>CacheTypes\<close> has the object metadata (\<open>meta.go\<close>) and the locale
  \<open>cache_tier\<close>, the contract of a tier. \<open>Shard\<close> is \<open>shard.go\<close>. \<open>RamTier\<close> is \<open>ram.go\<close>: a shard with its clock
  eviction, and its refinement of the contract; \<open>RamWriters\<close> has streaming writers and all
  interleavings of them, with the in-flight and round-trip theorems; \<open>RamHistory\<close> has traces of calls,
  and shows that a read returns the object the trace stored last, within the budget. \<open>DiskTier\<close> is \<open>disk.go\<close> over a
  directory of blobs and an index file; \<open>DiskInv\<close> its invariant, \<open>DiskContract\<close> the contract, \<open>DiskLoad\<close>
  and \<open>DiskRestart\<close> opening, closing and crashing, \<open>DiskLRU\<close> the eviction order. \<open>Store\<close> is \<open>router.go\<close>:
  tier choice and writers that remove the sibling copy; \<open>StoreProps\<close> the composition of both tiers.

  \<^bold>\<open>The server\<close>, \<open>internal/server\<close>. \<open>Freshness\<close> is \<open>freshness.go\<close>, with entries, hit-for-miss marks, bans and
  the sweeper; \<open>FreshnessProps\<close> shows the timeline of an entry, that the one-pass classification is the
  pair of tests it replaces, and what a ban guarantees. \<open>Range\<close> is \<open>range.go\<close>, which resolves a header to
  the bytes it names. \<open>Coalesce\<close> is \<open>coalesce.go\<close> with the steps of \<open>serveMiss\<close> (\<open>handler.go\<close>) as a transition
  relation. \<open>RateLimit\<close> is \<open>internal/ratelimit/limiter.go\<close>, with the bound on admitted requests in every window
  of a run that may be swept. \<open>PathNorm\<close> has the
  normal form of a path (\<open>handler.go\<close>) and the path an origin is asked for (\<open>httporigin.go\<close>), and shows that
  they agree and stay below the base path; \<open>ServerRequest\<close> builds the pipeline request (\<open>handler.go\<close>) and composes
  matching, keying and dialling of a path; \<open>QueryParse\<close> reads a query (\<open>handler.go\<close>) and is the inverse of
  the canonical query. \<open>ClientIP\<close> is \<open>internal/geo/clientip.go\<close> over \<open>Netaddr\<close>, a model of the addresses and
  prefixes of \<open>net/netip\<close>. \<open>ProxyProto\<close> and \<open>ProxyListener\<close> are \<open>internal/proxyproto\<close>: the header in both versions, and
  the listener that accepts it from trusted peers only.

  \<^bold>\<open>The load balancer\<close>, \<open>internal/lb\<close>. \<open>Ring\<close> is \<open>ring.go\<close>, \<open>Health\<close> is \<open>health.go\<close>. \<open>Upstream\<close> is
  \<open>upstream.go\<close>; \<open>UpstreamProps\<close> has the locale \<open>selector\<close>, the contract of a policy, interpreted by each of
  them, and the reconcile theorem; \<open>FetchProps\<close> the failover loop. Each attempt reads the clock twice, when
  it picks and when it fails; other requests and reconciles during one fetch are not part of the loop.

  \<^bold>\<open>The pipeline\<close>, \<open>internal/pipeline\<close>. \<open>Glob\<close> is \<open>glob.go\<close> with the trie, \<open>HttpRequest\<close> is \<open>request.go\<close>,
  \<open>CacheKey\<close> is \<open>cachekey.go\<close>, \<open>CredGate\<close> the credential gate of \<open>pipeline.go\<close> and \<open>compile.go\<close>,
  \<open>JsonField\<close> is \<open>cookie_json.go\<close> over \<open>JsonToken\<close>, the token reader of \<open>encoding/json\<close>, and \<open>JsonSpec\<close> shows
  that it looks a path up in the document. \<open>Matcher\<close> is \<open>matcher.go\<close> and \<open>classify.go\<close>: every kind of matcher,
  evaluated through a memo that is shown to change nothing. \<open>Duration\<close> is \<open>duration.go\<close>, \<open>SiteRules\<close> has the compiled
  rules of a site (\<open>compile.go\<close>) with routing, key recipes and error pages, \<open>RespDecision\<close> is \<open>EvalResponse\<close>: what may
  be stored, and \<open>SecGate\<close> is \<open>secgate.go\<close> and \<open>ratelimit.go\<close>. The theorems compose them: a canonical query is exact,
  a key determines its tokens, requests that share a key past the gate carry the same credentials, and
  requests that share a stored response agree on every field it varies on.

  \<^bold>\<open>The configuration language\<close>, \<open>internal/cadishfile\<close>. \<open>CadishLex\<close> is \<open>lex.go\<close> with the quoting of \<open>format.go\<close>,
  \<open>CadishParse\<close> is \<open>parse.go\<close> and \<open>ast.go\<close>, \<open>CadishEnv\<close> is \<open>env.go\<close>, \<open>CadishFormat\<close> the formatter of \<open>format.go\<close>.
  \<open>CadishQuote\<close> shows how the lexer reads quoted and bare words, and \<open>CadishGen\<close> that a generated text is read
  back as the statements it was made from; a parsed file is well formed, words that pass the guard never
  read the environment, and one file is exhibited whose meaning formatting changes.

  \<^bold>\<open>Termination.\<close> No fuel is used. The eviction loops, the ring walk, the binary search and the parsers
  are total. The trim loop of a disk shard, the search for a free ring point and the failover loop are
  partial functions; theorems say when they return, and one says exactly when an index file that lists a key
  twice makes the trim loop run forever.

  \<^bold>\<open>Not modelled.\<close> Sockets, TLS and ACME (\<open>internal/tlsacme\<close>), Kubernetes controllers and their
  gateways (\<open>internal/k8s\<close>, \<open>ingress\<close>, \<open>gateway\<close>), metrics, logs, the command line and admin pages, the
  requests the origin clients send (\<open>internal/origin\<close>), which are I/O around the parts above; the static
  analysis of a configuration and its converter (\<open>internal/check\<close>, \<open>vcladapt\<close>), the edge compiler (\<open>internal/edgeir\<close>), and
  the rest of the handler that calls the components in turn. In the pipeline, the compilation of directives, redirects, rewrites
  and header rules, and the request and delivery phases are not modelled. Of the pool, the
  background goroutines, the resolvers and the upgrade tunnel are not. \<open>float64\<close> token counts are rational
  numbers. Case mapping outside ASCII follows Go only for the runes that map into ASCII.
\<close>

end
